(* ===== verification/Prelude.thy ===== *)
theory Prelude
  imports Main "HOL-Library.Word" "HOL-Library.Code_Target_Nat"
begin

text \<open>
  Shared vocabulary of the development: machine integers, byte buffers with Go's slice and
  copy operations, the big-endian integer codec of the standard package
  \<^verbatim>\<open>encoding/binary\<close>, and the error-result combinators.  Every component theory
  imports this one.
\<close>

type_synonym byte = "8 word"
type_synonym bytes = "8 word list"
type_synonym u8 = "8 word"
type_synonym u16 = "16 word"
type_synonym u32 = "32 word"
type_synonym u64 = "64 word"

named_theorems wire_simps \<open>equations that evaluate reads and writes of byte buffers\<close>


section \<open>Slices and in-place writes\<close>

text \<open>
  \<open>subslice a b xs\<close> is Go's \<^verbatim>\<open>xs[a:b]\<close>.  \<open>overwrite off src dst\<close> is the effect on
  \<open>dst\<close> of \<^verbatim>\<open>copy(dst[off:off+len(src)], src)\<close>; Go panics when the range leaves the
  buffer, and every modelled caller checks the length first, so the range is always inside
  (\<open>length_overwrite\<close> records that the buffer keeps its length there).
\<close>

definition subslice :: "nat \<Rightarrow> nat \<Rightarrow> 'a list \<Rightarrow> 'a list" where
  "subslice a b xs = take (b - a) (drop a xs)"

definition overwrite :: "nat \<Rightarrow> 'a list \<Rightarrow> 'a list \<Rightarrow> 'a list" where
  "overwrite off src dst = take off dst @ src @ drop (off + length src) dst"

lemma length_subslice [simp]: "length (subslice a b xs) = min (b - a) (length xs - a)"
  by (simp add: subslice_def)

lemma length_overwrite [simp]:
  "off + length src \<le> length dst \<Longrightarrow> length (overwrite off src dst) = length dst"
  by (simp add: overwrite_def)

lemma overwrite_at_prefix:
  "length pre = off \<Longrightarrow> overwrite off src (pre @ rest) = pre @ src @ drop (length src) rest"
  by (simp add: overwrite_def)

lemma overwrite_0 [wire_simps]: "overwrite 0 src dst = src @ drop (length src) dst"
  by (simp add: overwrite_def)

lemma overwrite_append [wire_simps]:
  "length pre \<le> off \<Longrightarrow> overwrite off src (pre @ rest) = pre @ overwrite (off - length pre) src rest"
  by (simp add: overwrite_def)

lemma overwrite_Cons [wire_simps]:
  "0 < off \<Longrightarrow> overwrite off src (x # rest) = x # overwrite (off - 1) src rest"
  by (cases off) (simp_all add: overwrite_def)

lemma subslice_append: "a \<le> b \<Longrightarrow> b \<le> c \<Longrightarrow> subslice a b xs @ subslice b c xs = subslice a c xs"
proof -
  assume "a \<le> b" "b \<le> c"
  then have "c - a = (b - a) + (c - b)" "b = (b - a) + a" by simp_all
  then show ?thesis
    unfolding subslice_def by (metis drop_drop take_add)
qed

lemma subslice_append_assoc:
  "a \<le> b \<Longrightarrow> b \<le> c \<Longrightarrow> subslice a b xs @ subslice b c xs @ ys = subslice a c xs @ ys"
  by (metis append_assoc subslice_append)

lemma subslice_single: "a < length xs \<Longrightarrow> subslice a (Suc a) xs = [xs ! a]"
  by (simp add: subslice_def take_Suc hd_drop_conv_nth)

lemma subslice_to_end: "subslice 0 n xs @ drop n xs = xs"
  by (simp add: subslice_def)

lemma take_overwrite_before:
  "n \<le> off \<Longrightarrow> off \<le> length dst \<Longrightarrow> take n (overwrite off src dst) = take n dst"
  by (simp add: overwrite_def min_absorb1)

lemma drop_overwrite_after:
  "off + length src \<le> n \<Longrightarrow> off + length src \<le> length dst \<Longrightarrow>
   drop n (overwrite off src dst) = drop n dst"
  by (simp add: overwrite_def)

lemma nth_overwrite:
  assumes "off + length src \<le> length dst" and "i < length dst"
  shows "overwrite off src dst ! i =
    (if off \<le> i \<and> i < off + length src then src ! (i - off) else dst ! i)"
  using assms by (auto simp: overwrite_def nth_append min_def)

lemma subslice_overwrite_same:
  "off + length src \<le> length dst \<Longrightarrow> subslice off (off + length src) (overwrite off src dst) = src"
  by (simp add: subslice_def overwrite_def)

lemma subslice_overwrite_disjoint:
  assumes "off + length src \<le> length dst" and "b \<le> off \<or> off + length src \<le> a"
  shows "subslice a b (overwrite off src dst) = subslice a b dst"
proof (cases "b \<le> off")
  case True
  have "subslice a b xs = drop a (take b xs)" for xs :: "'a list"
    by (simp add: subslice_def drop_take)
  then show ?thesis
    using True assms(1) by (simp add: take_overwrite_before)
next
  case False
  with assms show ?thesis
    by (simp add: subslice_def drop_overwrite_after)
qed


section \<open>Big-endian integers\<close>

lemma unat_byte_less: "unat (b :: byte) < 256"
  using unsigned_less [where ?'b = 8, of b] by simp

lemma unat_u16_less: "unat (w :: u16) < 65536"
  using unsigned_less [where ?'b = 16, of w] by simp

lemma unat_u32_less: "unat (w :: u32) < 4294967296"
  using unsigned_less [where ?'b = 32, of w] by simp

lemma unat_u64_less: "unat (w :: u64) < 18446744073709551616"
  using unsigned_less [where ?'b = 64, of w] by simp

text \<open>
  \<open>be_nat\<close> is the value of a byte string, most significant byte first; \<open>nat_be k n\<close> its
  \<open>k\<close>-byte encoding (of \<open>n\<close> modulo \<open>256 ^ k\<close>).
\<close>

primrec be_nat :: "bytes \<Rightarrow> nat" where
  "be_nat [] = 0"
| "be_nat (b # bs) = unat b * 256 ^ length bs + be_nat bs"

primrec nat_be :: "nat \<Rightarrow> nat \<Rightarrow> bytes" where
  "nat_be 0 n = []"
| "nat_be (Suc k) n = word_of_nat (n div 256 ^ k) # nat_be k n"

lemma length_nat_be [simp]: "length (nat_be k n) = k"
  by (induction k) simp_all

lemma be_nat_nat_be: "be_nat (nat_be k n) = n mod 256 ^ k"
proof (induction k)
  case 0
  then show ?case by simp
next
  case (Suc k)
  have "unat (word_of_nat (n div 256 ^ k) :: byte) = n div 256 ^ k mod 256"
    by (simp add: unat_of_nat)
  moreover have "n mod (256 ^ k * 256) = 256 ^ k * (n div 256 ^ k mod 256) + n mod 256 ^ k"
    by (rule mod_mult2_eq)
  ultimately show ?case
    using Suc by (simp add: mult.commute)
qed

lemma be_nat_bound: "be_nat bs < 256 ^ length bs"
proof (induction bs)
  case Nil
  then show ?case by simp
next
  case (Cons b bs)
  have "unat b \<le> 255"
    using unat_byte_less [of b] by simp
  then have "unat b * 256 ^ length bs \<le> 255 * 256 ^ length bs"
    by (rule mult_le_mono1)
  with Cons show ?case
    by (simp only: be_nat.simps list.size power_add power_one_right add_Suc_right add_0_right power_Suc)
qed

lemma nat_be_cong: "n mod 256 ^ k = m mod 256 ^ k \<Longrightarrow> nat_be k n = nat_be k m"
proof (induction k)
  case 0
  then show ?case by simp
next
  case (Suc k)
  let ?p = "256 ^ k :: nat"
  have eq: "n mod (?p * 256) = m mod (?p * 256)"
    using Suc.prems by (simp add: mult.commute)
  have "n mod ?p = m mod ?p"
    using arg_cong [OF eq, of "\<lambda>x. x mod ?p"] by (simp add: mod_mult_right_eq mod_mod_cancel)
  moreover have "n div ?p mod 256 = m div ?p mod 256"
  proof -
    have "x mod (?p * 256) div ?p = x div ?p mod 256" for x
      by (simp add: mod_mult2_eq)
    with eq show ?thesis by metis
  qed
  then have "(word_of_nat (n div ?p) :: byte) = word_of_nat (m div ?p)"
    by (simp add: word_unat_eq_iff unat_of_nat)
  ultimately show ?case
    using Suc.IH by simp
qed

lemma nat_be_be_nat: "nat_be (length bs) (be_nat bs) = bs"
proof (induction bs)
  case Nil
  then show ?case by simp
next
  case (Cons b bs)
  have "nat_be (length bs) (unat b * 256 ^ length bs + be_nat bs) = nat_be (length bs) (be_nat bs)"
    by (rule nat_be_cong) simp
  moreover have "(unat b * 256 ^ length bs + be_nat bs) div 256 ^ length bs = unat b"
    using be_nat_bound [of bs] by simp
  ultimately show ?case
    using Cons by simp
qed

text \<open>
  The readers \<^verbatim>\<open>BigEndian.Uint16/32/64\<close> look at the first 2, 4 or 8 bytes of their
  argument; the writers \<^verbatim>\<open>PutUint16/32/64\<close> are \<open>overwrite\<close> with the encodings.
\<close>

definition be16 :: "u16 \<Rightarrow> bytes" where "be16 v = nat_be 2 (unat v)"
definition be32 :: "u32 \<Rightarrow> bytes" where "be32 v = nat_be 4 (unat v)"
definition be64 :: "u64 \<Rightarrow> bytes" where "be64 v = nat_be 8 (unat v)"

definition Uint16 :: "bytes \<Rightarrow> u16" where "Uint16 b = word_of_nat (be_nat (take 2 b))"
definition Uint32 :: "bytes \<Rightarrow> u32" where "Uint32 b = word_of_nat (be_nat (take 4 b))"
definition Uint64 :: "bytes \<Rightarrow> u64" where "Uint64 b = word_of_nat (be_nat (take 8 b))"

abbreviation PutUint16 :: "nat \<Rightarrow> u16 \<Rightarrow> bytes \<Rightarrow> bytes" where
  "PutUint16 off v \<equiv> overwrite off (be16 v)"
abbreviation PutUint32 :: "nat \<Rightarrow> u32 \<Rightarrow> bytes \<Rightarrow> bytes" where
  "PutUint32 off v \<equiv> overwrite off (be32 v)"
abbreviation PutUint64 :: "nat \<Rightarrow> u64 \<Rightarrow> bytes \<Rightarrow> bytes" where
  "PutUint64 off v \<equiv> overwrite off (be64 v)"
abbreviation PutByte :: "nat \<Rightarrow> byte \<Rightarrow> bytes \<Rightarrow> bytes" where
  "PutByte off v \<equiv> overwrite off [v]"

text \<open>The contract of a fixed-width field codec, and what its users derive from it.\<close>

locale field_codec =
  fixes enc :: "'a \<Rightarrow> bytes" and dec :: "bytes \<Rightarrow> 'a" and width :: nat
  assumes length_enc: "length (enc v) = width"
    and dec_enc: "dec (enc v @ rest) = v"
    and enc_dec: "width \<le> length bs \<Longrightarrow> enc (dec bs) = take width bs"
begin

lemma dec_enc_exact: "dec (enc v) = v"
  using dec_enc [of v "[]"] by simp

lemma enc_dec_exact: "length bs = width \<Longrightarrow> enc (dec bs) = bs"
  using enc_dec [of bs] by simp

lemma enc_eq_slice: "dec bs = v \<Longrightarrow> length bs = width \<Longrightarrow> enc v = bs"
  using enc_dec_exact by blast

lemma inj_enc: "enc v = enc w \<longleftrightarrow> v = w"
  by (metis dec_enc_exact)

lemma dec_take: "width \<le> n \<Longrightarrow> width \<le> length bs \<Longrightarrow> dec (take n bs) = dec bs"
proof -
  assume le: "width \<le> n" "width \<le> length bs"
  have "take width bs @ drop width (take n bs) = take n bs"
    using le by (metis append_take_drop_id min.absorb1 take_take)
  then have "take n bs = enc (dec bs) @ drop width (take n bs)"
    using enc_dec [OF le(2)] by simp
  then show ?thesis
    using dec_enc [of "dec bs" "drop width (take n bs)"] by simp
qed

lemma get_put: "off + width \<le> length buf \<Longrightarrow> dec (drop off (overwrite off (enc v) buf)) = v"
  by (simp add: overwrite_def dec_enc)

lemma put_get: "off + width \<le> length buf \<Longrightarrow> overwrite off (enc (dec (drop off buf))) buf = buf"
proof -
  assume le: "off + width \<le> length buf"
  then have "enc (dec (drop off buf)) = take width (drop off buf)"
    by (intro enc_dec) simp
  moreover have "take off buf @ take width (drop off buf) @ drop (off + width) buf = buf"
    by (metis append_assoc append_take_drop_id take_add)
  ultimately show ?thesis
    using le by (simp add: overwrite_def min_absorb2)
qed

end

lemma unat_mod_width:
  "unat (w :: u16) mod 65536 = unat w" "unat (x :: u32) mod 4294967296 = unat x"
  "unat (y :: u64) mod 18446744073709551616 = unat y"
  using unat_u16_less [of w] unat_u32_less [of x] unat_u64_less [of y] by simp_all

interpretation be16: field_codec be16 Uint16 2
proof unfold_locales
  fix v :: u16 and bs rest :: bytes
  show "length (be16 v) = 2" by (simp add: be16_def)
  show "Uint16 (be16 v @ rest) = v"
    by (simp add: be16_def Uint16_def be_nat_nat_be unat_mod_width)
  show "be16 (Uint16 bs) = take 2 bs" if "2 \<le> length bs"
    using be_nat_bound [of "take 2 bs"] nat_be_be_nat [of "take 2 bs"] that
    by (simp add: be16_def Uint16_def unat_of_nat)
qed

interpretation be32: field_codec be32 Uint32 4
proof unfold_locales
  fix v :: u32 and bs rest :: bytes
  show "length (be32 v) = 4" by (simp add: be32_def)
  show "Uint32 (be32 v @ rest) = v"
    by (simp add: be32_def Uint32_def be_nat_nat_be unat_mod_width)
  show "be32 (Uint32 bs) = take 4 bs" if "4 \<le> length bs"
    using be_nat_bound [of "take 4 bs"] nat_be_be_nat [of "take 4 bs"] that
    by (simp add: be32_def Uint32_def unat_of_nat)
qed

interpretation be64: field_codec be64 Uint64 8
proof unfold_locales
  fix v :: u64 and bs rest :: bytes
  show "length (be64 v) = 8" by (simp add: be64_def)
  show "Uint64 (be64 v @ rest) = v"
    by (simp add: be64_def Uint64_def be_nat_nat_be unat_mod_width)
  show "be64 (Uint64 bs) = take 8 bs" if "8 \<le> length bs"
    using be_nat_bound [of "take 8 bs"] nat_be_be_nat [of "take 8 bs"] that
    by (simp add: be64_def Uint64_def unat_of_nat)
qed

lemmas field_lengths [simp, wire_simps] = be16.length_enc be32.length_enc be64.length_enc
lemmas field_reads [simp, wire_simps] =
  be16.dec_enc be32.dec_enc be64.dec_enc be16.dec_enc_exact be32.dec_enc_exact be64.dec_enc_exact

lemma unat_Uint16: "unat (Uint16 (a # b # rest)) = 256 * unat a + unat b"
proof -
  have "unat a < 256" "unat b < 256"
    by (rule unat_byte_less)+
  then have "unat (word_of_nat (unat a * 256 + unat b) :: u16) = unat a * 256 + unat b"
    by (subst unat_of_nat) simp
  then show ?thesis by (simp only: Uint16_def take_Suc_Cons numeral_2_eq_2 take_0 be_nat.simps list.size) simp
qed

declare subslice_def [wire_simps]

end
