(* ===== verification/NetIP.thy ===== *)
theory NetIP
  imports Prelude
begin

text \<open>
  The part of the standard package \<^verbatim>\<open>net/netip\<close> the sources use: addresses (the zero
  \<open>Addr\<close>, IPv4, IPv6 with a zone) and prefixes with \<open>Masked\<close>, \<open>Contains\<close> and \<open>Bits\<close>.  The
  textual grammar (\<^verbatim>\<open>ParsePrefix\<close>, \<^verbatim>\<open>ParseAddr\<close>) is not modelled; definitions that parse
  text take the parser as an argument.
\<close>

datatype Addr = NoAddr | V4 u32 | V6 "128 word" string

fun Is4 :: "Addr \<Rightarrow> bool" where
  "Is4 (V4 _) = True"
| "Is4 _ = False"

fun IsValid :: "Addr \<Rightarrow> bool" where
  "IsValid NoAddr = False"
| "IsValid _ = True"

text \<open>\<open>As4\<close> of an IPv4 address; Go panics on the zero \<open>Addr\<close>, and callers test \<open>Is4\<close> first.\<close>

fun As4 :: "Addr \<Rightarrow> bytes" where
  "As4 (V4 a) = be32 a"
| "As4 _ = [0, 0, 0, 0]"

definition AddrFrom4 :: "bytes \<Rightarrow> Addr" where
  "AddrFrom4 b = V4 (Uint32 b)"

lemma Is4_iff: "Is4 a \<longleftrightarrow> (\<exists>v. a = V4 v)"
  by (cases a) simp_all

lemma Is4_AddrFrom4 [simp]: "Is4 (AddrFrom4 b)"
  by (simp add: AddrFrom4_def)

lemma length_As4 [simp]: "length (As4 a) = 4"
  by (cases a) simp_all

lemma AddrFrom4_As4 [simp]: "Is4 a \<Longrightarrow> AddrFrom4 (As4 a) = a"
  by (cases a) (simp_all add: AddrFrom4_def)

lemma As4_AddrFrom4 [simp]: "length b = 4 \<Longrightarrow> As4 (AddrFrom4 b) = b"
  by (simp add: AddrFrom4_def be32.enc_dec)

lemma As4_inject: "Is4 a \<Longrightarrow> Is4 b \<Longrightarrow> As4 a = As4 b \<longleftrightarrow> a = b"
  by (metis AddrFrom4_As4)

section \<open>Prefixes\<close>

text \<open>
  A \<open>Prefix\<close> is an address and a number of leading bits; a negative number marks the invalid
  prefix, as in the package.  \<open>Contains\<close> compares the leading bits of addresses of the same
  family and refuses addresses with a zone; \<open>Masked\<close> clears the other bits.
\<close>

record Prefix =
  pf_addr :: Addr
  pf_bits :: int

fun BitLen :: "Addr \<Rightarrow> nat" where
  "BitLen NoAddr = 0"
| "BitLen (V4 _) = 32"
| "BitLen (V6 _ _) = 128"

fun hasZone :: "Addr \<Rightarrow> bool" where
  "hasZone (V6 _ z) = (z \<noteq> '''')"
| "hasZone _ = False"

definition Prefix_IsValid :: "Prefix \<Rightarrow> bool" where
  "Prefix_IsValid p \<longleftrightarrow> IsValid (pf_addr p) \<and> 0 \<le> pf_bits p \<and> pf_bits p \<le> int (BitLen (pf_addr p))"

definition Prefix_Bits :: "Prefix \<Rightarrow> int" where
  "Prefix_Bits p = (if Prefix_IsValid p then pf_bits p else - 1)"

fun leading_bits_agree :: "nat \<Rightarrow> Addr \<Rightarrow> Addr \<Rightarrow> bool" where
  "leading_bits_agree n (V4 a) (V4 b) = (drop_bit (32 - n) a = drop_bit (32 - n) b)"
| "leading_bits_agree n (V6 a _) (V6 b _) = (drop_bit (128 - n) a = drop_bit (128 - n) b)"
| "leading_bits_agree n _ _ = False"

definition Contains :: "Prefix \<Rightarrow> Addr \<Rightarrow> bool" where
  "Contains p ip \<longleftrightarrow>
     Prefix_IsValid p \<and> \<not> hasZone ip \<and> leading_bits_agree (nat (pf_bits p)) (pf_addr p) ip"

fun mask_addr :: "nat \<Rightarrow> Addr \<Rightarrow> Addr" where
  "mask_addr n (V4 a) = V4 (push_bit (32 - n) (drop_bit (32 - n) a))"
| "mask_addr n (V6 a z) = V6 (push_bit (128 - n) (drop_bit (128 - n) a)) ''''"
| "mask_addr n NoAddr = NoAddr"

definition Masked :: "Prefix \<Rightarrow> Prefix" where
  "Masked p = (if Prefix_IsValid p then p \<lparr> pf_addr := mask_addr (nat (pf_bits p)) (pf_addr p) \<rparr>
               else \<lparr> pf_addr = NoAddr, pf_bits = - 1 \<rparr>)"

lemma drop_push_drop: "drop_bit n (push_bit n (drop_bit n (a :: 'a :: len word))) = drop_bit n a"
  by (rule bit_word_eqI) (auto simp: bit_simps dest: bit_imp_le_length)

lemma Contains_Masked: "Contains (Masked p) ip = Contains p ip"
proof (cases "Prefix_IsValid p")
  case True
  have "leading_bits_agree n (mask_addr n a) ip = leading_bits_agree n a ip" for n a
    by (cases a; cases ip) (simp_all add: drop_push_drop)
  moreover have "Prefix_IsValid (Masked p)"
    using True by (cases "pf_addr p") (simp_all add: Masked_def Prefix_IsValid_def)
  ultimately show ?thesis using True by (simp add: Contains_def Masked_def)
next
  case False
  then have "\<not> Prefix_IsValid (Masked p)" by (simp add: Masked_def Prefix_IsValid_def [of "\<lparr>pf_addr = NoAddr, pf_bits = - 1\<rparr>"])
  with False show ?thesis by (simp add: Contains_def)
qed

lemma Contains_Bits: "Contains p ip \<Longrightarrow> 0 \<le> Prefix_Bits p"
  by (simp add: Contains_def Prefix_Bits_def Prefix_IsValid_def)

end
