(* ===== verification/Checksum.thy ===== *)
theory Checksum
  imports Prelude
begin

unbundle bit_operations_syntax

text \<open>
  The Internet checksum (ones' complement sum of big-endian 16-bit words), as a
  specification on natural numbers, and the contract \<open>inet_checksum\<close> that an
  implementation on \<open>uint32\<close> accumulators satisfies.  The repository has three
  implementations (\<^verbatim>\<open>transport/kerneludp\<close>, \<^verbatim>\<open>transport/tixtcp\<close>, \<^verbatim>\<open>daemon\<close>); each is
  shown to satisfy the contract in the theory that models it, and inherits the
  verification lemmas proved here once.
\<close>

section \<open>Specification\<close>

fun bsum :: "bytes \<Rightarrow> nat" where
  "bsum (a # b # rest) = 256 * unat a + unat b + bsum rest"
| "bsum [a] = 256 * unat a"
| "bsum [] = 0"

text \<open>The end-around-carry value of a sum: its representative in \<open>1..65535\<close>, or 0 for 0.\<close>

definition oc :: "nat \<Rightarrow> nat" where
  "oc n = (if n = 0 then 0 else (n - 1) mod 65535 + 1)"

lemma oc_le: "oc n \<le> 65535"
  by (simp add: oc_def Suc_le_eq)

lemma oc_mod: "oc n mod 65535 = n mod 65535"
proof (cases n)
  case (Suc m)
  have "(m mod 65535 + 1) mod 65535 = (m + 1) mod 65535"
    by (rule mod_add_left_eq)
  with Suc show ?thesis by (simp add: oc_def)
qed (simp add: oc_def)

lemma oc_eq_0_iff [simp]: "oc n = 0 \<longleftrightarrow> n = 0"
  by (simp add: oc_def)

lemma oc_small: "n \<le> 65535 \<Longrightarrow> oc n = n"
  by (cases "n = 0") (simp_all add: oc_def)

lemma mod_Suc_cancel:
  "Suc n mod 65535 = Suc m mod 65535 \<Longrightarrow> n mod 65535 = m mod 65535"
proof -
  assume "Suc n mod 65535 = Suc m mod 65535"
  then have "(Suc n + 65534) mod 65535 = (Suc m + 65534) mod 65535"
    by (rule mod_add_cong) (rule refl)
  then have "(n + 65535) mod 65535 = (m + 65535) mod 65535" by simp
  then show ?thesis by (simp only: mod_add_self2)
qed

lemma mod_add_left_cancel:
  "(k + n) mod 65535 = (k + m) mod 65535 \<Longrightarrow> n mod 65535 = m mod (65535 :: nat)"
proof (induction k)
  case (Suc k)
  then have "(k + n) mod 65535 = (k + m) mod 65535"
    by (intro mod_Suc_cancel [of "k + n" "k + m"]) (simp only: add_Suc)
  then show ?case by (rule Suc.IH)
qed (simp only: add_0)

lemma oc_cong: "n \<noteq> 0 \<Longrightarrow> m \<noteq> 0 \<Longrightarrow> n mod 65535 = m mod 65535 \<Longrightarrow> oc n = oc m"
proof -
  assume "n \<noteq> 0" "m \<noteq> 0" and eq: "n mod 65535 = m mod 65535"
  then obtain n' m' where nm: "n = Suc n'" "m = Suc m'"
    by (meson not0_implies_Suc)
  with eq have "n' mod 65535 = m' mod 65535"
    using mod_Suc_cancel [of n' m'] by blast
  with nm show ?thesis by (simp add: oc_def)
qed

lemma oc_full_iff: "oc n = 65535 \<longleftrightarrow> n \<noteq> 0 \<and> n mod 65535 = 0"
proof
  assume full: "oc n = 65535"
  then have "n mod 65535 = 0" using oc_mod [of n] by simp
  moreover have "n \<noteq> 0" using full by (intro notI) (simp add: oc_def)
  ultimately show "n \<noteq> 0 \<and> n mod 65535 = 0" by blast
next
  assume n: "n \<noteq> 0 \<and> n mod 65535 = 0"
  show "oc n = 65535"
  proof (rule ccontr)
    assume "oc n \<noteq> 65535"
    then have "oc n mod 65535 = oc n" using oc_le [of n] by simp
    with n oc_mod [of n] show False by simp
  qed
qed

text \<open>One round of the carry fold preserves the value.\<close>

lemma oc_fold_step: "oc (n mod 65536 + n div 65536) = oc n"
proof (cases "n = 0")
  case False
  let ?q = "n div 65536" and ?r = "n mod 65536"
  have n: "n = 65535 * ?q + (?r + ?q)"
    using div_mult_mod_eq [of n 65536] by linarith
  then have "n mod 65535 = (?r + ?q) mod 65535"
    by (metis mod_mult_self4)
  moreover have "?r + ?q \<noteq> 0" using False n by (metis add_is_0 mult_is_0)
  ultimately show ?thesis using False by (intro oc_cong) simp_all
qed (simp add: oc_def)

lemma bsum_append: "even (length xs) \<Longrightarrow> bsum (xs @ ys) = bsum xs + bsum ys"
  by (induction xs rule: bsum.induct) simp_all

lemma bsum_split: "even n \<Longrightarrow> n \<le> length xs \<Longrightarrow> bsum xs = bsum (take n xs) + bsum (drop n xs)"
  using bsum_append [of "take n xs" "drop n xs"] by simp

lemma bsum_bound: "bsum xs \<le> 65535 * ((length xs + 1) div 2)"
proof (induction xs rule: bsum.induct)
  case (1 a b rest)
  have "256 * unat a + unat b \<le> 65535"
    using unat_byte_less [of a] unat_byte_less [of b] by simp
  with 1 show ?case by simp
next
  case (2 a)
  then show ?case using unat_byte_less [of a] by simp
qed simp

lemma bsum_be16: "bsum (be16 v) = unat v"
proof -
  have "unat v div 256 mod 256 = unat v div 256"
    using unat_u16_less [of v] by (intro mod_less) simp
  then have "256 * (unat v div 256 mod 256) + unat v mod 256 = unat v"
    by simp
  then show ?thesis
    by (simp add: be16_def numeral_2_eq_2 unat_of_nat unsigned_ucast_eq take_bit_eq_mod)
qed

lemma bsum_Uint16: "2 \<le> length bs \<Longrightarrow> bsum (take 2 bs) = unat (Uint16 bs)"
  by (metis be16.enc_dec bsum_be16)

text \<open>Replacing one aligned 16-bit field changes the sum by the difference of the fields.\<close>

lemma bsum_PutUint16:
  assumes "even off" and "off + 2 \<le> length msg"
  shows "bsum (PutUint16 off v msg) + unat (Uint16 (drop off msg)) = bsum msg + unat v"
proof -
  have "bsum msg = bsum (take off msg @ take 2 (drop off msg) @ drop (off + 2) msg)"
    by (metis append_assoc append_take_drop_id take_add)
  also have "\<dots> = bsum (take off msg) + (bsum (take 2 (drop off msg)) + bsum (drop (off + 2) msg))"
    using assms by (subst bsum_append, simp)+ simp
  finally have "bsum msg = bsum (take off msg) + (bsum (take 2 (drop off msg)) + bsum (drop (off + 2) msg))" .
  moreover have "bsum (PutUint16 off v msg) = bsum (take off msg) + (unat v + bsum (drop (off + 2) msg))"
    using assms by (simp add: overwrite_def bsum_append bsum_be16)
  moreover have "bsum (take 2 (drop off msg)) = unat (Uint16 (drop off msg))"
    using assms(2) by (intro bsum_Uint16) simp
  ultimately show ?thesis by simp
qed

lemma bsum_PutUint16_zero:
  "even off \<Longrightarrow> off + 2 \<le> length msg \<Longrightarrow> Uint16 (drop off msg) = 0 \<Longrightarrow>
   bsum (PutUint16 off v msg) = bsum msg + unat v"
  using bsum_PutUint16 [of off msg v] by simp


text \<open>Replacing one byte changes the sum by its place value times the difference.\<close>

definition byte_weight :: "nat \<Rightarrow> nat" where
  "byte_weight i = (if even i then 256 else 1)"

lemma bsum_list_update:
  "i < length xs \<Longrightarrow>
   bsum (xs[i := b]) + byte_weight i * unat (xs ! i) = bsum xs + byte_weight i * unat b"
proof (induction xs arbitrary: i rule: bsum.induct)
  case (1 x y rest)
  show ?case
  proof (cases "i < 2")
    case True
    then have "i = 0 \<or> i = 1" by auto
    then show ?thesis by (auto simp: byte_weight_def)
  next
    case False
    then obtain j where j: "i = Suc (Suc j)"
      using le_Suc_ex [of 2 i] by auto
    with 1 show ?thesis by (simp add: byte_weight_def)
  qed
qed (simp_all add: byte_weight_def)

text \<open>One round of the carry loop on \<open>uint32\<close>, as every implementation writes it.\<close>

lemma unat_carry_step:
  "unat ((s AND 0xffff) + drop_bit 16 s :: u32) = unat s mod 65536 + unat s div 65536"
proof -
  have and16: "unat (s AND 0xffff) = unat s mod 65536"
    using take_bit_eq_mask [of 16 s] unsigned_take_bit_eq [where ?'b = 32, where ?'a = nat, of 16 s]
    by (simp add: mask_eq_exp_minus_1 take_bit_eq_mod)
  have "unat s div 65536 < 65536"
    using unat_u32_less [of s] by (simp add: less_mult_imp_div_less)
  moreover have "unat s mod 65536 < 65536" by simp
  ultimately show ?thesis
    using and16 by (simp add: unat_word_ariths unat_drop_bit_eq drop_bit_eq_div)
qed

lemma high_half_iff: "drop_bit 16 s \<noteq> 0 \<longleftrightarrow> 65536 \<le> unat (s :: u32)"
proof -
  have "drop_bit 16 s = 0 \<longleftrightarrow> unat s div 65536 = 0"
    using unat_drop_bit_eq [of 16 s] by (simp add: unat_eq_0 [symmetric] drop_bit_eq_div)
  then show ?thesis by (simp add: div_eq_0_iff not_less)
qed

lemma carry_step_less:
  "drop_bit 16 s \<noteq> 0 \<Longrightarrow> unat ((s AND 0xffff) + drop_bit 16 s :: u32) < unat s"
proof -
  assume "drop_bit 16 s \<noteq> 0"
  then have "1 \<le> unat s div 65536"
    using div_le_mono [of 65536 "unat s" 65536] by (simp add: high_half_iff)
  then show ?thesis
    using div_mult_mod_eq [of "unat s" 65536] unfolding unat_carry_step by linarith
qed

lemma unat_not_low_half:
  "unat s < 65536 \<Longrightarrow> unat (NOT (ucast (s :: u32)) :: u16) = 65535 - unat s"
proof -
  assume s: "unat s < 65536"
  then have "unat (ucast s :: u16) = unat s"
    by (simp add: unsigned_ucast_eq take_bit_eq_mod)
  moreover have "NOT (ucast s :: u16) = - 1 - ucast s"
    by (simp add: not_eq_complement)
  moreover have "unat (- 1 :: u16) = 65535"
    by (simp add: unsigned_minus_1_eq_mask mask_eq_exp_minus_1)
  ultimately show ?thesis
    using unat_sub [OF word_order.extremum, of "ucast s :: u16"] by simp
qed

lemma unat_add_u16:
  "unat s + unat v < 4294967296 \<Longrightarrow> unat (s + ucast (v :: u16) :: u32) = unat s + unat v"
  by (simp add: unat_word_ariths unsigned_ucast_eq take_bit_eq_mod)

lemma unat_add_hi8:
  "unat s + 256 * unat a < 4294967296 \<Longrightarrow>
   unat (s + push_bit 8 (ucast (a :: byte)) :: u32) = unat s + 256 * unat a"
  using unat_byte_less [of a]
  by (simp add: unat_word_ariths unsigned_push_bit_eq unsigned_ucast_eq take_bit_eq_mod push_bit_eq_mult mult.commute)

text \<open>A function with the equation of the carry loop computes the complement of \<open>oc\<close>.\<close>

lemma fold_loop_spec:
  assumes loop: "\<And>s. f s = (if drop_bit 16 s \<noteq> 0 then f ((s AND 0xffff) + drop_bit 16 s)
                          else NOT (ucast (s :: u32)) :: u16)"
  shows "unat (f s) = 65535 - oc (unat s)"
proof (induction "unat s" arbitrary: s rule: less_induct)
  case less
  show ?case
  proof (cases "drop_bit 16 s = 0")
    case True
    then have "unat s < 65536" using high_half_iff [of s] by simp
    with True show ?thesis
      by (subst loop) (simp add: unat_not_low_half oc_small)
  next
    case False
    then have "unat (f ((s AND 0xffff) + drop_bit 16 s)) = 65535 - oc (unat s)"
      using less [OF carry_step_less] by (simp add: unat_carry_step oc_fold_step)
    with False show ?thesis by (subst loop) simp
  qed
qed


section \<open>The contract of an implementation\<close>

locale inet_checksum =
  fixes addBytes :: "u32 \<Rightarrow> bytes \<Rightarrow> u32" and foldSum :: "u32 \<Rightarrow> u16"
  assumes addBytes_spec:
      "unat s + bsum bs < 4294967296 \<Longrightarrow> unat (addBytes s bs) = unat s + bsum bs"
    and foldSum_spec: "unat (foldSum s) = 65535 - oc (unat s)"
begin

lemma foldSum_eq_0_iff: "foldSum s = 0 \<longleftrightarrow> unat s \<noteq> 0 \<and> unat s mod 65535 = 0"
proof -
  have "foldSum s = 0 \<longleftrightarrow> oc (unat s) = 65535"
    using foldSum_spec [of s] oc_le [of "unat s"] by (simp add: unat_eq_0 [symmetric])
  then show ?thesis by (simp add: oc_full_iff)
qed

text \<open>
  A sender accumulates a message whose checksum field is zero onto a seed, folds, and
  stores the result (or \<open>0xffff\<close> in place of 0, as UDP does); the receiver's fold over the
  stored message is then zero.
\<close>

lemma stored_checksum_verifies:
  assumes off: "even off" "off + 2 \<le> length msg" "Uint16 (drop off msg) = 0"
    and bound: "unat s + bsum msg < 4294901760"
    and c: "c = foldSum (addBytes s msg) \<or> c = 65535 \<and> foldSum (addBytes s msg) = 0"
  shows "foldSum (addBytes s (PutUint16 off c msg)) = 0"
proof -
  let ?n = "unat s + bsum msg"
  have n: "unat (addBytes s msg) = ?n"
    using bound by (intro addBytes_spec) simp
  have c': "unat c \<noteq> 0 \<or> ?n \<noteq> 0" "(?n + unat c) mod 65535 = 0"
  proof -
    show "unat c \<noteq> 0 \<or> ?n \<noteq> 0"
    proof (cases "?n = 0")
      case True
      then have "unat (foldSum (addBytes s msg)) = 65535"
        using foldSum_spec [of "addBytes s msg"] n by (simp add: oc_def)
      with c have "unat c = 65535" by fastforce
      then show ?thesis by simp
    qed simp
    show "(?n + unat c) mod 65535 = 0"
    proof (cases "c = foldSum (addBytes s msg)")
      case True
      then have "oc ?n + unat c = 65535"
        using foldSum_spec [of "addBytes s msg"] n oc_le [of ?n] by simp
      then have "(oc ?n + unat c) mod 65535 = 0" by simp
      then show ?thesis by (metis mod_add_left_eq oc_mod)
    next
      case False
      with c have "unat c = 65535" "?n mod 65535 = 0"
        using foldSum_eq_0_iff [of "addBytes s msg"] n by auto
      then show ?thesis by (simp only: mod_add_self2)
    qed
  qed
  have "bsum (PutUint16 off c msg) = bsum msg + unat c"
    using off by (rule bsum_PutUint16_zero)
  moreover have "unat c < 65536" by (rule unat_u16_less)
  ultimately have "unat (addBytes s (PutUint16 off c msg)) = ?n + unat c"
    using bound addBytes_spec [of s "PutUint16 off c msg"] by simp
  with c' show ?thesis
    unfolding foldSum_eq_0_iff by auto
qed

text \<open>A single corrupted byte in a message that verifies is always detected.\<close>

lemma corrupt_byte_detected:
  assumes ok: "foldSum (addBytes s msg) = 0" and i: "i < length msg" and b: "b \<noteq> msg ! i"
    and bound: "unat s + bsum msg < 4294901760"
  shows "foldSum (addBytes s (msg[i := b])) \<noteq> 0"
proof
  assume bad: "foldSum (addBytes s (msg[i := b])) = 0"
  let ?old = "unat (msg ! i)" and ?new = "unat b" and ?w = "byte_weight i"
  have upd: "bsum (msg[i := b]) + ?w * ?old = bsum msg + ?w * ?new"
    using i by (rule bsum_list_update)
  have lt: "?old < 256" "?new < 256" "?old \<noteq> ?new"
    using b unat_byte_less by (auto simp: word_unat_eq_iff)
  have w: "?w = 256 \<or> ?w = 1" by (simp add: byte_weight_def)
  then have "?w * ?new \<le> 65280" using lt by auto
  then have "unat (addBytes s msg) = unat s + bsum msg"
    and "unat (addBytes s (msg[i := b])) = unat s + bsum (msg[i := b])"
    using bound upd by (auto intro!: addBytes_spec)
  then have "(unat s + bsum msg) mod 65535 = (unat s + bsum (msg[i := b])) mod 65535"
    using ok bad by (simp add: foldSum_eq_0_iff)
  then have "(unat s + bsum msg + ?w * ?old) mod 65535 = (unat s + bsum (msg[i := b]) + ?w * ?old) mod 65535"
    by (rule mod_add_cong) simp
  then have "(unat s + bsum msg + ?w * ?old) mod 65535 = (unat s + bsum msg + ?w * ?new) mod 65535"
    using upd by (simp only: add.assoc)
  then have "?w * ?old mod 65535 = ?w * ?new mod 65535"
    by (rule mod_add_left_cancel)
  moreover have "?w * ?old < 65535" "?w * ?new < 65535" using w lt by auto
  ultimately show False using w lt by auto
qed

text \<open>
  RFC 1624 incremental update: for a message whose stored checksum verifies, adding the
  complement of the old checksum and of the old field and the new field, and folding,
  yields a checksum that verifies the message with the new field.
\<close>

lemma incremental_update_verifies:
  fixes old oldc new :: u16
  assumes ok: "(n0 + unat old + unat oldc) mod 65535 = 0"
    and s: "unat s = (65535 - unat oldc) + (65535 - unat old) + unat new"
  shows "(n0 + unat new + unat (foldSum s)) mod 65535 = 0"
proof -
  have le: "unat old \<le> 65535" "unat oldc \<le> 65535"
    using unat_u16_less [of old] unat_u16_less [of oldc] by simp_all
  have "(oc (unat s) + unat (foldSum s)) = 65535"
    using foldSum_spec [of s] oc_le [of "unat s"] by simp
  moreover have "(unat s + unat (foldSum s)) mod 65535 = (oc (unat s) + unat (foldSum s)) mod 65535"
    using oc_mod [of "unat s"] by (intro mod_add_cong) simp_all
  ultimately have "(unat s + unat (foldSum s)) mod 65535 = 0"
    by (simp only: mod_self)
  with ok have "((n0 + unat old + unat oldc) + (unat s + unat (foldSum s))) mod 65535 = 0"
    using mod_add_eq [of "n0 + unat old + unat oldc" 65535 "unat s + unat (foldSum s)"]
    by (simp only: add_0_left mod_0)
  moreover have "(n0 + unat old + unat oldc) + (unat s + unat (foldSum s)) =
    (n0 + unat new + unat (foldSum s)) + 65535 + 65535"
    using le s by linarith
  ultimately show ?thesis by (simp only: mod_add_self2)
qed

end

end
