(* ===== verification/KernelUDP.thy ===== *)
theory KernelUDP
  imports NetIP Checksum
begin

unbundle bit_operations_syntax

text \<open>
  The \<^verbatim>\<open>kernel_udp\<close> transport codec (\<^verbatim>\<open>internal/transport/kerneludp\<close>): the 32-byte TIXU
  frame header (\<^verbatim>\<open>frame.go\<close>) and the IPv4/UDP packet around it (\<^verbatim>\<open>packet.go\<close>), with its
  Internet checksum.  Marshalling functions take the destination buffer and return the
  number of bytes written together with the buffer afterwards.
\<close>

section \<open>Frames\<close>

record kudp_frame =
  kf_Flags :: u8
  kf_FlowID :: u64
  kf_Sequence :: u64
  kf_FragmentIndex :: u16
  kf_FragmentCount :: u16
  kf_Payload :: bytes

datatype kudp_error =
    KPayloadInvalid | KPayloadTooLarge | KBufferTooSmall
  | KTooShort | KBadMagic | KBadVersion u8 | KBadHeaderLength nat | KLengthMismatch
  | KNotIPv4Underlay | KPortsRequired | KPacketTooLarge
  | KNotIPv4 | KNotUDP u8 | KBadTotalLength nat | KBadUDPLength nat
  | KErrChecksumIPv4 | KErrChecksumUDP

definition kudp_Magic :: u32 where "kudp_Magic = 0x54495855"
definition kudp_Version :: u8 where "kudp_Version = 1"
abbreviation (input) kudp_HeaderLen :: nat where "kudp_HeaderLen \<equiv> 32"
abbreviation (input) kudp_MaxPayload :: nat where "kudp_MaxPayload \<equiv> 65536"

definition kudp_FrameWireLen :: "int \<Rightarrow> kudp_error + int" where
  "kudp_FrameWireLen payloadLen =
     (if payloadLen < 0 then Inl KPayloadInvalid
      else if payloadLen > int kudp_MaxPayload then Inl KPayloadTooLarge
      else Inr (int kudp_HeaderLen + payloadLen))"

definition kudp_MarshalHeaderInto :: "kudp_frame \<Rightarrow> bytes \<Rightarrow> kudp_error + (nat \<times> bytes)" where
  "kudp_MarshalHeaderInto frame wire =
     (if length (kf_Payload frame) > kudp_MaxPayload then Inl KPayloadTooLarge
      else if length wire < kudp_HeaderLen then Inl KBufferTooSmall
      else
        let w = take kudp_HeaderLen wire;
            w = PutUint32 0 kudp_Magic w;
            w = PutByte 4 kudp_Version w;
            w = PutByte 5 (kf_Flags frame) w;
            w = PutUint16 6 (word_of_nat kudp_HeaderLen) w;
            w = PutUint64 8 (kf_FlowID frame) w;
            w = PutUint64 16 (kf_Sequence frame) w;
            w = PutUint32 24 (word_of_nat (length (kf_Payload frame))) w;
            w = PutUint16 28 (kf_FragmentIndex frame) w;
            w = PutUint16 30 (kf_FragmentCount frame) w
        in Inr (kudp_HeaderLen, w @ drop kudp_HeaderLen wire))"

definition kudp_MarshalBinaryInto :: "kudp_frame \<Rightarrow> bytes \<Rightarrow> kudp_error + (nat \<times> bytes)" where
  "kudp_MarshalBinaryInto frame wire =
     (if length (kf_Payload frame) > kudp_MaxPayload then Inl KPayloadTooLarge
      else let wireLen = kudp_HeaderLen + length (kf_Payload frame) in
        if length wire < wireLen then Inl KBufferTooSmall
        else case kudp_MarshalHeaderInto frame (take kudp_HeaderLen (take wireLen wire)) of
          Inl e \<Rightarrow> Inl e
        | Inr (_, header) \<Rightarrow>
            Inr (wireLen, overwrite kudp_HeaderLen (kf_Payload frame)
                            (overwrite 0 header (take wireLen wire)) @ drop wireLen wire))"

definition kudp_MarshalBinary :: "kudp_frame \<Rightarrow> kudp_error + bytes" where
  "kudp_MarshalBinary frame =
     (case kudp_FrameWireLen (int (length (kf_Payload frame))) of
        Inl e \<Rightarrow> Inl e
      | Inr wireLen \<Rightarrow>
          (case kudp_MarshalBinaryInto frame (replicate (nat wireLen) 0) of
             Inl e \<Rightarrow> Inl e
           | Inr (_, wire) \<Rightarrow> Inr wire))"

text \<open>
  \<open>ParseFrame\<close> copies the payload and \<open>ParseFrameNoCopy\<close> aliases it; on values the two are
  the same function.
\<close>

definition kudp_parseFrame :: "bytes \<Rightarrow> kudp_error + kudp_frame" where
  "kudp_parseFrame wire =
     (if length wire < kudp_HeaderLen then Inl KTooShort
      else if Uint32 (subslice 0 4 wire) \<noteq> kudp_Magic then Inl KBadMagic
      else if wire ! 4 \<noteq> kudp_Version then Inl (KBadVersion (wire ! 4))
      else let headerLen = unat (Uint16 (subslice 6 8 wire)) in
        if headerLen \<noteq> kudp_HeaderLen then Inl (KBadHeaderLength headerLen)
        else let payloadLen = unat (Uint32 (subslice 24 28 wire)) in
          if payloadLen > kudp_MaxPayload then Inl KPayloadTooLarge
          else if length wire \<noteq> kudp_HeaderLen + payloadLen then Inl KLengthMismatch
          else Inr \<lparr>kf_Flags = wire ! 5,
                    kf_FlowID = Uint64 (subslice 8 16 wire),
                    kf_Sequence = Uint64 (subslice 16 24 wire),
                    kf_FragmentIndex = Uint16 (subslice 28 30 wire),
                    kf_FragmentCount = Uint16 (subslice 30 32 wire),
                    kf_Payload = drop kudp_HeaderLen wire\<rparr>)"

abbreviation kudp_ParseFrame :: "bytes \<Rightarrow> kudp_error + kudp_frame" where
  "kudp_ParseFrame \<equiv> kudp_parseFrame"

text \<open>The header as the concatenation of its fields.\<close>

definition kudp_header :: "kudp_frame \<Rightarrow> bytes" where
  "kudp_header f = be32 kudp_Magic @ [kudp_Version, kf_Flags f] @ be16 32 @
     be64 (kf_FlowID f) @ be64 (kf_Sequence f) @ be32 (word_of_nat (length (kf_Payload f))) @
     be16 (kf_FragmentIndex f) @ be16 (kf_FragmentCount f)"

lemma length_kudp_header [simp]: "length (kudp_header f) = 32"
  by (simp add: kudp_header_def)

lemma kudp_MarshalHeaderInto_eq:
  "kudp_MarshalHeaderInto f wire =
     (if length (kf_Payload f) > 65536 then Inl KPayloadTooLarge
      else if length wire < 32 then Inl KBufferTooSmall
      else Inr (32, kudp_header f @ drop 32 wire))"
  by (simp add: kudp_MarshalHeaderInto_def kudp_header_def Let_def wire_simps)

lemma kudp_MarshalBinaryInto_eq:
  "kudp_MarshalBinaryInto f wire =
     (if length (kf_Payload f) > 65536 then Inl KPayloadTooLarge
      else if length wire < 32 + length (kf_Payload f) then Inl KBufferTooSmall
      else Inr (32 + length (kf_Payload f),
                kudp_header f @ kf_Payload f @ drop (32 + length (kf_Payload f)) wire))"
  by (simp add: kudp_MarshalBinaryInto_def kudp_MarshalHeaderInto_eq Let_def wire_simps)

lemma kudp_MarshalBinary_eq:
  "kudp_MarshalBinary f =
     (if length (kf_Payload f) > 65536 then Inl KPayloadTooLarge
      else Inr (kudp_header f @ kf_Payload f))"
  by (simp add: kudp_MarshalBinary_def kudp_FrameWireLen_def kudp_MarshalBinaryInto_eq
      nat_add_distrib)


lemma kudp_parse_header:
  "length (kf_Payload f) \<le> 65536 \<Longrightarrow> kudp_parseFrame (kudp_header f @ kf_Payload f) = Inr f"
  by (simp add: kudp_parseFrame_def kudp_header_def Let_def wire_simps nth_append unat_of_nat)

lemma kudp_parseFrame_wire:
  assumes "kudp_parseFrame wire = Inr f"
  shows "wire = kudp_header f @ kf_Payload f" "length (kf_Payload f) \<le> 65536"
proof -
  from assms have len: "32 \<le> length wire" "length wire = 32 + length (kf_Payload f)"
    and pay: "length (kf_Payload f) \<le> 65536" "unat (Uint32 (subslice 24 28 wire)) = length (kf_Payload f)"
    and fields: "Uint32 (subslice 0 4 wire) = kudp_Magic" "wire ! 4 = kudp_Version"
      "unat (Uint16 (subslice 6 8 wire)) = 32" "wire ! 5 = kf_Flags f"
      "Uint64 (subslice 8 16 wire) = kf_FlowID f" "Uint64 (subslice 16 24 wire) = kf_Sequence f"
      "Uint16 (subslice 28 30 wire) = kf_FragmentIndex f" "Uint16 (subslice 30 32 wire) = kf_FragmentCount f"
      "drop 32 wire = kf_Payload f"
    by (auto simp: kudp_parseFrame_def Let_def split: if_splits)
  show "length (kf_Payload f) \<le> 65536" by (rule pay)
  have "be32 kudp_Magic = subslice 0 4 wire" "be16 32 = subslice 6 8 wire"
    "be64 (kf_FlowID f) = subslice 8 16 wire" "be64 (kf_Sequence f) = subslice 16 24 wire"
    "be32 (word_of_nat (length (kf_Payload f))) = subslice 24 28 wire"
    "be16 (kf_FragmentIndex f) = subslice 28 30 wire" "be16 (kf_FragmentCount f) = subslice 30 32 wire"
    using len(1) fields pay
    by (auto intro!: be16.enc_eq_slice be32.enc_eq_slice be64.enc_eq_slice simp: word_unat_eq_iff unat_of_nat)
  moreover have "[kudp_Version, kf_Flags f] = subslice 4 6 wire"
    using len(1) fields(2,4) subslice_append [of 4 5 6 wire] subslice_single [of 4 wire] subslice_single [of 5 wire]
    by simp
  ultimately have "kudp_header f = subslice 0 32 wire"
    by (simp add: kudp_header_def subslice_append subslice_append_assoc)
  then show "wire = kudp_header f @ kf_Payload f"
    using fields(9) subslice_to_end [of 32 wire] by simp
qed


section \<open>IPv4/UDP packets\<close>

record udp_packet =
  up_SourceIP :: Addr
  up_DestinationIP :: Addr
  up_SourcePort :: u16
  up_DestinationPort :: u16
  up_Payload :: bytes

fun kudp_checksumAddBytes :: "u32 \<Rightarrow> bytes \<Rightarrow> u32" where
  "kudp_checksumAddBytes sm (a # b # payload) = kudp_checksumAddBytes (sm + ucast (Uint16 [a, b])) payload"
| "kudp_checksumAddBytes sm [a] = sm + push_bit 8 (ucast a)"
| "kudp_checksumAddBytes sm [] = sm"

function kudp_checksumFold :: "u32 \<Rightarrow> u16" where
  "kudp_checksumFold sm =
     (if drop_bit 16 sm \<noteq> 0 then kudp_checksumFold ((sm AND 0xffff) + drop_bit 16 sm)
      else NOT (ucast sm))"
  by auto
termination by (relation "measure unat") (auto intro: carry_step_less)

declare kudp_checksumFold.simps [simp del]

definition kudp_checksum :: "bytes \<Rightarrow> u16" where
  "kudp_checksum payload = kudp_checksumFold (kudp_checksumAddBytes 0 payload)"

definition kudp_udpChecksum :: "bytes \<Rightarrow> bytes \<Rightarrow> bytes \<Rightarrow> u16" where
  "kudp_udpChecksum src dst udp =
     (let sm = kudp_checksumAddBytes 0 src;
          sm = kudp_checksumAddBytes sm dst;
          sm = sm + 17;
          sm = sm + word_of_nat (length udp);
          sm = kudp_checksumAddBytes sm udp
      in kudp_checksumFold sm)"

definition kudp_UDPIPv4WireLen :: "int \<Rightarrow> kudp_error + int" where
  "kudp_UDPIPv4WireLen payloadLen =
     (if payloadLen < 0 then Inl KPayloadInvalid
      else let udpLen = 8 + payloadLen; totalLen = 20 + udpLen in
        if totalLen > 0xffff \<or> udpLen > 0xffff then Inl KPacketTooLarge
        else Inr totalLen)"

text \<open>
  \<open>prepareUDPIPv4\<close> fills both headers of \<^verbatim>\<open>wire[:totalLen]\<close> and returns that slice (the
  Go function returns its UDP part, \<^verbatim>\<open>wire[20:totalLen]\<close>, which aliases it), the two
  addresses and the length.
\<close>

definition kudp_prepareUDPIPv4 ::
  "udp_packet \<Rightarrow> int \<Rightarrow> bytes \<Rightarrow> kudp_error + (bytes \<times> bytes \<times> bytes \<times> nat)" where
  "kudp_prepareUDPIPv4 packet payloadLen wire =
     (if \<not> Is4 (up_SourceIP packet) \<or> \<not> Is4 (up_DestinationIP packet) then Inl KNotIPv4Underlay
      else if up_SourcePort packet = 0 \<or> up_DestinationPort packet = 0 then Inl KPortsRequired
      else case kudp_UDPIPv4WireLen payloadLen of
        Inl e \<Rightarrow> Inl e
      | Inr n \<Rightarrow>
          if int (length wire) < n then Inl KBufferTooSmall
          else
            let totalLen = nat n;
                w = take totalLen wire;
                w = PutByte 0 0x45 w;
                w = PutByte 1 0 w;
                w = PutUint16 2 (word_of_nat totalLen) w;
                w = PutUint16 4 0 w;
                w = PutUint16 6 0x4000 w;
                w = PutByte 8 64 w;
                w = PutByte 9 17 w;
                w = PutUint16 10 0 w;
                src = As4 (up_SourceIP packet);
                dst = As4 (up_DestinationIP packet);
                w = overwrite 12 src w;
                w = overwrite 16 dst w;
                w = PutUint16 10 (kudp_checksum (take 20 w)) w;
                udpLen = 8 + payloadLen;
                w = PutUint16 20 (up_SourcePort packet) w;
                w = PutUint16 22 (up_DestinationPort packet) w;
                w = PutUint16 24 (word_of_int udpLen) w;
                w = PutUint16 26 0 w
            in Inr (w, src, dst, totalLen))"

definition kudp_MarshalUDPIPv4Into :: "udp_packet \<Rightarrow> bytes \<Rightarrow> kudp_error + (nat \<times> bytes)" where
  "kudp_MarshalUDPIPv4Into packet wire =
     (case kudp_prepareUDPIPv4 packet (int (length (up_Payload packet))) wire of
        Inl e \<Rightarrow> Inl e
      | Inr (w, src, dst, totalLen) \<Rightarrow>
          let udp = overwrite 8 (up_Payload packet) (drop 20 w);
              checksum = kudp_udpChecksum src dst udp;
              checksum = (if checksum = 0 then 0xffff else checksum);
              udp = PutUint16 6 checksum udp
          in Inr (totalLen, take 20 w @ udp @ drop totalLen wire))"

definition kudp_MarshalUDPIPv4 :: "udp_packet \<Rightarrow> kudp_error + bytes" where
  "kudp_MarshalUDPIPv4 packet =
     (case kudp_UDPIPv4WireLen (int (length (up_Payload packet))) of
        Inl e \<Rightarrow> Inl e
      | Inr totalLen \<Rightarrow>
          (case kudp_MarshalUDPIPv4Into packet (replicate (nat totalLen) 0) of
             Inl e \<Rightarrow> Inl e
           | Inr (_, wire) \<Rightarrow> Inr wire))"

definition kudp_marshalUDPIPv4FrameInto ::
  "udp_packet \<Rightarrow> kudp_frame \<Rightarrow> bytes \<Rightarrow> bool \<Rightarrow> kudp_error + (nat \<times> bytes)" where
  "kudp_marshalUDPIPv4FrameInto packet frame wire noChecksum =
     (case kudp_FrameWireLen (int (length (kf_Payload frame))) of
        Inl e \<Rightarrow> Inl e
      | Inr frameLen \<Rightarrow>
          (case kudp_prepareUDPIPv4 packet frameLen wire of
             Inl e \<Rightarrow> Inl e
           | Inr (w, src, dst, totalLen) \<Rightarrow>
               (case kudp_MarshalBinaryInto frame (drop 28 w) of
                  Inl e \<Rightarrow> Inl e
                | Inr (_, body) \<Rightarrow>
                    let udp = subslice 20 28 w @ body;
                        udp = (if noChecksum then udp
                               else let checksum = kudp_udpChecksum src dst udp;
                                        checksum = (if checksum = 0 then 0xffff else checksum)
                                    in PutUint16 6 checksum udp)
                    in Inr (totalLen, take 20 w @ udp @ drop totalLen wire))))"

definition kudp_parseUDPIPv4 :: "bytes \<Rightarrow> bool \<Rightarrow> kudp_error + udp_packet" where
  "kudp_parseUDPIPv4 wire skipChecksum =
     (if length wire < 28 then Inl KTooShort
      else if drop_bit 4 (wire ! 0) \<noteq> 4 then Inl KNotIPv4
      else let ihl = unat (wire ! 0 AND 0x0f) * 4 in
        if ihl < 20 \<or> length wire < ihl + 8 then Inl (KBadHeaderLength ihl)
        else if wire ! 9 \<noteq> 17 then Inl (KNotUDP (wire ! 9))
        else let totalLen = unat (Uint16 (subslice 2 4 wire)) in
          if totalLen < ihl + 8 \<or> totalLen > length wire then Inl (KBadTotalLength totalLen)
          else if \<not> skipChecksum \<and> kudp_checksum (take ihl wire) \<noteq> 0 then Inl KErrChecksumIPv4
          else let udp = subslice ihl totalLen wire; udpLen = unat (Uint16 (subslice 4 6 udp)) in
            if udpLen < 8 \<or> udpLen > length udp then Inl (KBadUDPLength udpLen)
            else
              let udp = take udpLen udp;
                  src = AddrFrom4 (subslice 12 16 wire);
                  dst = AddrFrom4 (subslice 16 20 wire);
                  got = Uint16 (subslice 6 8 udp)
              in if \<not> skipChecksum \<and> got \<noteq> 0 \<and> kudp_udpChecksum (As4 src) (As4 dst) udp \<noteq> 0
                 then Inl KErrChecksumUDP
                 else Inr \<lparr>up_SourceIP = src, up_DestinationIP = dst,
                           up_SourcePort = Uint16 (subslice 0 2 udp),
                           up_DestinationPort = Uint16 (subslice 2 4 udp),
                           up_Payload = drop 8 udp\<rparr>)"



lemma kudp_checksumAddBytes_spec:
  "unat s + bsum bs < 4294967296 \<Longrightarrow> unat (kudp_checksumAddBytes s bs) = unat s + bsum bs"
  by (induction s bs rule: kudp_checksumAddBytes.induct)
    (simp_all add: unat_add_u16 unat_add_hi8 unat_Uint16)

interpretation kudp_ck: inet_checksum kudp_checksumAddBytes kudp_checksumFold
  by unfold_locales
    (rule kudp_checksumAddBytes_spec fold_loop_spec kudp_checksumFold.simps, assumption?)+


text \<open>The two headers as the concatenation of their fields.\<close>

definition kudp_ip_header :: "u16 \<Rightarrow> udp_packet \<Rightarrow> nat \<Rightarrow> bytes" where
  "kudp_ip_header c p totalLen = [0x45, 0] @ be16 (word_of_nat totalLen) @ be16 0 @ be16 0x4000 @
     [64, 17] @ be16 c @ As4 (up_SourceIP p) @ As4 (up_DestinationIP p)"

definition kudp_udp_header :: "u16 \<Rightarrow> udp_packet \<Rightarrow> nat \<Rightarrow> bytes" where
  "kudp_udp_header c p udpLen =
     be16 (up_SourcePort p) @ be16 (up_DestinationPort p) @ be16 (word_of_nat udpLen) @ be16 c"

definition kudp_sendable :: "udp_packet \<Rightarrow> nat \<Rightarrow> bool" where
  "kudp_sendable p n \<longleftrightarrow> Is4 (up_SourceIP p) \<and> Is4 (up_DestinationIP p) \<and>
     up_SourcePort p \<noteq> 0 \<and> up_DestinationPort p \<noteq> 0 \<and> 28 + n \<le> 0xffff"

lemma length_kudp_headers [simp]:
  "length (kudp_ip_header c p n) = 20" "length (kudp_udp_header c p n) = 8"
  by (simp_all add: kudp_ip_header_def kudp_udp_header_def)

lemma PutUint16_kudp_headers [simp]:
  "PutUint16 10 c (kudp_ip_header d p n @ rest) = kudp_ip_header c p n @ rest"
  "PutUint16 6 c (kudp_udp_header d p n @ rest) = kudp_udp_header c p n @ rest"
  by (simp_all add: kudp_ip_header_def kudp_udp_header_def wire_simps)

definition kudp_ip_checksum :: "udp_packet \<Rightarrow> nat \<Rightarrow> u16" where
  "kudp_ip_checksum p totalLen = kudp_checksum (kudp_ip_header 0 p totalLen)"

lemma kudp_prepareUDPIPv4_eq:
  assumes "kudp_sendable p n" and "28 + n \<le> length wire"
  shows "kudp_prepareUDPIPv4 p (int n) wire =
    Inr (kudp_ip_header (kudp_ip_checksum p (28 + n)) p (28 + n) @ kudp_udp_header 0 p (8 + n) @
         subslice 28 (28 + n) wire, As4 (up_SourceIP p), As4 (up_DestinationIP p), 28 + n)"
proof -
  have len: "nat (28 + int n) = 28 + n" by simp
  show ?thesis
    using assms
    by (simp add: kudp_sendable_def kudp_prepareUDPIPv4_def kudp_UDPIPv4WireLen_def Let_def len
        kudp_ip_checksum_def kudp_ip_header_def kudp_udp_header_def wire_simps drop_take)
qed


definition kudp_udp_ck :: "udp_packet \<Rightarrow> bytes \<Rightarrow> u16" where
  "kudp_udp_ck p body =
     (let c = kudp_udpChecksum (As4 (up_SourceIP p)) (As4 (up_DestinationIP p))
                (kudp_udp_header 0 p (8 + length body) @ body)
      in if c = 0 then 0xffff else c)"

definition kudp_wire :: "udp_packet \<Rightarrow> u16 \<Rightarrow> bytes \<Rightarrow> bytes" where
  "kudp_wire p c body =
     kudp_ip_header (kudp_ip_checksum p (28 + length body)) p (28 + length body) @
     kudp_udp_header c p (8 + length body) @ body"

lemma length_kudp_wire [simp]: "length (kudp_wire p c body) = 28 + length body"
  by (simp add: kudp_wire_def)

lemma kudp_MarshalUDPIPv4Into_eq:
  assumes "kudp_sendable p (length (up_Payload p))" and "28 + length (up_Payload p) \<le> length wire"
  shows "kudp_MarshalUDPIPv4Into p wire =
    Inr (28 + length (up_Payload p),
         kudp_wire p (kudp_udp_ck p (up_Payload p)) (up_Payload p) @ drop (28 + length (up_Payload p)) wire)"
  using assms
  by (simp add: kudp_MarshalUDPIPv4Into_def kudp_prepareUDPIPv4_eq kudp_wire_def kudp_udp_ck_def Let_def
      overwrite_append overwrite_0)

lemma kudp_MarshalUDPIPv4_eq:
  assumes "kudp_sendable p (length (up_Payload p))"
  shows "kudp_MarshalUDPIPv4 p = Inr (kudp_wire p (kudp_udp_ck p (up_Payload p)) (up_Payload p))"
proof -
  have "nat (28 + int (length (up_Payload p))) = 28 + length (up_Payload p)" by simp
  with assms show ?thesis
    using kudp_MarshalUDPIPv4Into_eq [of p "replicate (28 + length (up_Payload p)) 0"]
    by (simp add: kudp_MarshalUDPIPv4_def kudp_UDPIPv4WireLen_def Let_def kudp_sendable_def)
qed

lemma kudp_marshalUDPIPv4FrameInto_eq:
  assumes "kudp_sendable p (32 + length (kf_Payload f))" and "60 + length (kf_Payload f) \<le> length wire"
  shows "kudp_marshalUDPIPv4FrameInto p f wire noChecksum =
    (let body = kudp_header f @ kf_Payload f in
     Inr (28 + length body, kudp_wire p (if noChecksum then 0 else kudp_udp_ck p body) body @ drop (28 + length body) wire))"
proof -
  have len: "length (kf_Payload f) \<le> 65536" using assms(1) by (simp add: kudp_sendable_def)
  have "kudp_prepareUDPIPv4 p (int (32 + length (kf_Payload f))) wire =
    Inr (kudp_ip_header (kudp_ip_checksum p (60 + length (kf_Payload f))) p (60 + length (kf_Payload f)) @
      kudp_udp_header 0 p (40 + length (kf_Payload f)) @ subslice 28 (60 + length (kf_Payload f)) wire,
      As4 (up_SourceIP p), As4 (up_DestinationIP p), 60 + length (kf_Payload f))"
    using kudp_prepareUDPIPv4_eq [OF assms(1)] assms(2) by simp
  with assms len show ?thesis
    by (simp add: kudp_marshalUDPIPv4FrameInto_def kudp_FrameWireLen_def kudp_MarshalBinaryInto_eq
        kudp_wire_def kudp_udp_ck_def Let_def wire_simps)
qed


text \<open>Both stored checksums verify.\<close>

definition kudp_seed :: "bytes \<Rightarrow> bytes \<Rightarrow> nat \<Rightarrow> u32" where
  "kudp_seed src dst n = kudp_checksumAddBytes (kudp_checksumAddBytes 0 src) dst + 17 + word_of_nat n"

lemma kudp_udpChecksum_seed:
  "kudp_udpChecksum src dst udp =
   kudp_checksumFold (kudp_checksumAddBytes (kudp_seed src dst (length udp)) udp)"
  by (simp add: kudp_udpChecksum_def kudp_seed_def Let_def)

lemma unat_kudp_seed:
  assumes "length src = 4" and "length dst = 4" and "n \<le> 65535"
  shows "unat (kudp_seed src dst n) = bsum src + bsum dst + 17 + n"
proof -
  have b: "bsum src \<le> 131070" "bsum dst \<le> 131070"
    using bsum_bound [of src] bsum_bound [of dst] assms by simp_all
  then have "unat (kudp_checksumAddBytes (kudp_checksumAddBytes 0 src) dst) = bsum src + bsum dst"
    by (simp add: kudp_checksumAddBytes_spec)
  with b assms(3) show ?thesis
    by (simp add: kudp_seed_def unat_word_ariths unat_of_nat)
qed

lemma kudp_udp_sum_bound:
  assumes "length src = 4" and "length dst = 4" and "length udp \<le> 65535"
  shows "unat (kudp_seed src dst (length udp)) + bsum udp < 4294901760"
proof -
  have "(length udp + 1) div 2 \<le> 32768" using assms(3) by simp
  then have "65535 * ((length udp + 1) div 2) \<le> 65535 * 32768" by (rule mult_le_mono2)
  with bsum_bound [of udp] have "bsum udp \<le> 2147450880" by simp
  moreover have "bsum src \<le> 131070" "bsum dst \<le> 131070"
    using bsum_bound [of src] bsum_bound [of dst] assms by simp_all
  ultimately show ?thesis using assms by (simp add: unat_kudp_seed)
qed

lemma kudp_ip_checksum_verifies: "kudp_checksum (kudp_ip_header (kudp_ip_checksum p n) p n) = 0"
proof -
  let ?h = "kudp_ip_header 0 p n"
  have "bsum ?h < 4294901760" using bsum_bound [of ?h] by simp
  moreover have "Uint16 (drop 10 ?h) = 0" by (simp add: kudp_ip_header_def)
  ultimately have "kudp_checksum (PutUint16 10 (kudp_ip_checksum p n) ?h) = 0"
    using kudp_ck.stored_checksum_verifies [of 10 ?h 0 "kudp_ip_checksum p n"]
    by (simp add: kudp_checksum_def kudp_ip_checksum_def)
  then show ?thesis using PutUint16_kudp_headers(1) [of _ 0 p n "[]"] by simp
qed

lemma kudp_udp_ck_verifies:
  assumes "8 + length body \<le> 65535"
  shows "kudp_udpChecksum (As4 (up_SourceIP p)) (As4 (up_DestinationIP p))
    (kudp_udp_header (kudp_udp_ck p body) p (8 + length body) @ body) = 0"
proof -
  let ?u = "kudp_udp_header 0 p (8 + length body) @ body"
  let ?s = "kudp_seed (As4 (up_SourceIP p)) (As4 (up_DestinationIP p)) (length ?u)"
  have "unat ?s + bsum ?u < 4294901760"
    using assms by (intro kudp_udp_sum_bound) simp_all
  moreover have "Uint16 (drop 6 ?u) = 0" by (simp add: kudp_udp_header_def)
  ultimately have "kudp_checksumFold (kudp_checksumAddBytes ?s (PutUint16 6 (kudp_udp_ck p body) ?u)) = 0"
    by (intro kudp_ck.stored_checksum_verifies) (auto simp: kudp_udp_ck_def kudp_udpChecksum_seed Let_def)
  then show ?thesis by (simp add: kudp_udpChecksum_seed)
qed

lemma kudp_udp_ck_nonzero: "kudp_udp_ck p body \<noteq> 0"
  by (simp add: kudp_udp_ck_def Let_def)

text \<open>
  The parser on a packet laid out as \<open>kudp_wire\<close>, followed by arbitrary trailing bytes: it
  accepts iff checksums are skipped, absent or right, and then returns the fields.
\<close>

lemma kudp_parse_wire:
  assumes "kudp_sendable p (length body)"
  shows "kudp_parseUDPIPv4 (kudp_wire p c body @ trail) skip =
    (if \<not> skip \<and> c \<noteq> 0 \<and> kudp_udpChecksum (As4 (up_SourceIP p)) (As4 (up_DestinationIP p))
          (kudp_udp_header c p (8 + length body) @ body) \<noteq> 0
     then Inl KErrChecksumUDP else Inr (p\<lparr>up_Payload := body\<rparr>))"
proof -
  define w where "w = kudp_wire p c body @ trail"
  define u where "u = kudp_udp_header c p (8 + length body) @ body"
  have n: "length body \<le> 65507" and ip: "Is4 (up_SourceIP p)" "Is4 (up_DestinationIP p)"
    using assms by (simp_all add: kudp_sendable_def)
  have head: "w ! 0 = 0x45" "w ! 9 = 17" "subslice 12 16 w = As4 (up_SourceIP p)"
    "subslice 16 20 w = As4 (up_DestinationIP p)"
    by (simp_all add: w_def kudp_wire_def kudp_ip_header_def wire_simps nth_append)
  have total: "unat (Uint16 (subslice 2 4 w)) = 28 + length body" "length w = 28 + length body + length trail"
    using n by (simp_all add: w_def kudp_wire_def kudp_ip_header_def wire_simps unat_of_nat del: of_nat_add)
  have ck: "kudp_checksum (take 20 w) = 0"
    by (simp add: w_def kudp_wire_def kudp_ip_checksum_verifies)
  have udp: "subslice 20 (28 + length body) w = u"
    by (simp add: w_def u_def kudp_wire_def wire_simps)
  have fields: "unat (Uint16 (subslice 4 6 u)) = 8 + length body" "length u = 8 + length body"
    "Uint16 (subslice 6 8 u) = c" "Uint16 (subslice 0 2 u) = up_SourcePort p"
    "Uint16 (subslice 2 4 u) = up_DestinationPort p" "drop 8 u = body"
    using n by (simp_all add: u_def kudp_udp_header_def wire_simps unat_of_nat del: of_nat_add)
  have "kudp_parseUDPIPv4 w skip =
    (if \<not> skip \<and> c \<noteq> 0 \<and> kudp_udpChecksum (As4 (up_SourceIP p)) (As4 (up_DestinationIP p)) u \<noteq> 0
     then Inl KErrChecksumUDP else Inr (p\<lparr>up_Payload := body\<rparr>))"
    using ip by (simp add: kudp_parseUDPIPv4_def head total ck udp fields Let_def)
  then show ?thesis by (simp add: w_def u_def)
qed


lemma kudp_prepareUDPIPv4_Inr:
  assumes "kudp_prepareUDPIPv4 p (int n) wire = Inr r"
  shows "kudp_sendable p n" "28 + n \<le> length wire"
proof -
  show ok: "kudp_sendable p n"
  proof (rule ccontr)
    assume "\<not> kudp_sendable p n"
    then consider "\<not> (Is4 (up_SourceIP p) \<and> Is4 (up_DestinationIP p))"
      | "Is4 (up_SourceIP p)" "Is4 (up_DestinationIP p)" "up_SourcePort p = 0 \<or> up_DestinationPort p = 0"
      | "Is4 (up_SourceIP p)" "Is4 (up_DestinationIP p)" "up_SourcePort p \<noteq> 0" "up_DestinationPort p \<noteq> 0"
        "0xffff < 28 + n"
      unfolding kudp_sendable_def by fastforce
    then show False
      using assms by cases (simp_all add: kudp_prepareUDPIPv4_def kudp_UDPIPv4WireLen_def)
  qed
  show "28 + n \<le> length wire"
  proof (rule ccontr)
    assume "\<not> 28 + n \<le> length wire"
    then show False
      using assms ok by (simp add: kudp_prepareUDPIPv4_def kudp_UDPIPv4WireLen_def kudp_sendable_def)
  qed
qed

lemma kudp_MarshalUDPIPv4Into_Inr:
  assumes "kudp_MarshalUDPIPv4Into p wire = Inr r"
  shows "kudp_sendable p (length (up_Payload p))" "28 + length (up_Payload p) \<le> length wire"
  using assms by (auto simp: kudp_MarshalUDPIPv4Into_def Let_def split: sum.splits
      dest: kudp_prepareUDPIPv4_Inr)

lemma kudp_marshalUDPIPv4FrameInto_Inr:
  assumes "kudp_marshalUDPIPv4FrameInto p f wire noChecksum = Inr r"
  shows "kudp_sendable p (32 + length (kf_Payload f))" "60 + length (kf_Payload f) \<le> length wire"
proof -
  obtain q where "kudp_prepareUDPIPv4 p (int (32 + length (kf_Payload f))) wire = Inr q"
    using assms by (auto simp: kudp_marshalUDPIPv4FrameInto_def kudp_FrameWireLen_def
        split: sum.splits if_splits)
  from kudp_prepareUDPIPv4_Inr [OF this]
  show "kudp_sendable p (32 + length (kf_Payload f))" "60 + length (kf_Payload f) \<le> length wire"
    by simp_all
qed

lemma kudp_udp_corrupt:
  assumes "8 + length body \<le> 65535" and "k < length body" and "b \<noteq> body ! k"
  shows "kudp_udpChecksum (As4 (up_SourceIP p)) (As4 (up_DestinationIP p))
    (kudp_udp_header (kudp_udp_ck p body) p (8 + length body) @ body[k := b]) \<noteq> 0"
proof -
  let ?h = "kudp_udp_header (kudp_udp_ck p body) p (8 + length body)"
  let ?s = "kudp_seed (As4 (up_SourceIP p)) (As4 (up_DestinationIP p)) (length (?h @ body))"
  have "kudp_checksumFold (kudp_checksumAddBytes ?s ((?h @ body)[8 + k := b])) \<noteq> 0"
  proof (rule kudp_ck.corrupt_byte_detected)
    show "kudp_checksumFold (kudp_checksumAddBytes ?s (?h @ body)) = 0"
      using kudp_udp_ck_verifies [OF assms(1), of p] by (simp add: kudp_udpChecksum_seed)
    show "unat ?s + bsum (?h @ body) < 4294901760"
      using assms(1) by (intro kudp_udp_sum_bound) simp_all
  qed (use assms in \<open>simp_all add: nth_append\<close>)
  then show ?thesis by (simp add: kudp_udpChecksum_seed list_update_append)
qed

lemma kudp_MarshalUDPIPv4_Inr:
  assumes "kudp_MarshalUDPIPv4 p = Inr wire"
  shows "kudp_sendable p (length (up_Payload p))"
    "wire = kudp_wire p (kudp_udp_ck p (up_Payload p)) (up_Payload p)"
proof -
  show ok: "kudp_sendable p (length (up_Payload p))"
    using assms by (auto simp: kudp_MarshalUDPIPv4_def split: sum.splits dest: kudp_MarshalUDPIPv4Into_Inr(1))
  show "wire = kudp_wire p (kudp_udp_ck p (up_Payload p)) (up_Payload p)"
    using assms kudp_MarshalUDPIPv4_eq [OF ok] by simp
qed


section \<open>Properties\<close>

text \<open>
  C23: the frame codec is a bijection between the frames that can be sent and the byte
  strings the parser accepts: \<open>ParseFrame\<close> returns a frame exactly when \<open>MarshalBinary\<close> of that
  frame gives those bytes, so no two encodings denote the same frame.
\<close>
theorem kudp_frame_codec_bijective:
  "kudp_parseFrame wire = Inr f \<longleftrightarrow> kudp_MarshalBinary f = Inr wire"
proof
  assume "kudp_parseFrame wire = Inr f"
  then show "kudp_MarshalBinary f = Inr wire"
    using kudp_parseFrame_wire [of wire f] by (simp add: kudp_MarshalBinary_eq)
next
  assume "kudp_MarshalBinary f = Inr wire"
  then show "kudp_parseFrame wire = Inr f"
    using kudp_parse_header [of f] by (auto simp: kudp_MarshalBinary_eq split: if_splits)
qed

text \<open>
  C15: a frame marshalled into an IPv4/UDP packet, with or without the UDP checksum, in a
  buffer of any content: the receiver's parser accepts the written bytes, with checksum
  verification on or off, returns the addresses and ports that were sent, and its payload
  parses to the frame; the bytes of the buffer after the packet are untouched.
\<close>
theorem kudp_packet_roundtrip:
  assumes "kudp_marshalUDPIPv4FrameInto p f wire noChecksum = Inr (n, wire')"
  shows "\<exists>q. kudp_parseUDPIPv4 (take n wire') skip = Inr q \<and> kudp_parseFrame (up_Payload q) = Inr f \<and>
    q = p\<lparr>up_Payload := up_Payload q\<rparr> \<and> n = 60 + length (kf_Payload f) \<and>
    drop n wire' = drop n wire \<and> length wire' = length wire"
proof -
  let ?body = "kudp_header f @ kf_Payload f"
  note ok = kudp_marshalUDPIPv4FrameInto_Inr [OF assms]
  have w: "n = 28 + length ?body"
    "wire' = kudp_wire p (if noChecksum then 0 else kudp_udp_ck p ?body) ?body @ drop n wire"
    using assms kudp_marshalUDPIPv4FrameInto_eq [OF ok, of noChecksum] by (auto simp: Let_def)
  have "kudp_sendable p (length ?body)" "8 + length ?body \<le> 65535" "length (kf_Payload f) \<le> 65536"
    using ok(1) by (simp_all add: kudp_sendable_def)
  moreover from this have "kudp_parseUDPIPv4 (take n wire') skip = Inr (p\<lparr>up_Payload := ?body\<rparr>)"
    using kudp_parse_wire [of p ?body _ "[]" skip] kudp_udp_ck_verifies [of ?body p] w by auto
  ultimately show ?thesis
    using kudp_parse_header [of f] w ok(2) by simp
qed

theorem kudp_packet_roundtrip_witness:
  "\<exists>n wire' q. kudp_marshalUDPIPv4FrameInto
       \<lparr>up_SourceIP = V4 0x0a000001, up_DestinationIP = V4 0x0a000002, up_SourcePort = 7001,
        up_DestinationPort = 7002, up_Payload = []\<rparr>
       \<lparr>kf_Flags = 1, kf_FlowID = 9, kf_Sequence = 77, kf_FragmentIndex = 0, kf_FragmentCount = 1,
        kf_Payload = [1, 2, 3]\<rparr> (replicate 64 0xee) False = Inr (n, wire') \<and>
     kudp_parseUDPIPv4 (take n wire') False = Inr q \<and> up_SourcePort q = 7001 \<and>
     kudp_parseFrame (up_Payload q) = Inr
       \<lparr>kf_Flags = 1, kf_FlowID = 9, kf_Sequence = 77, kf_FragmentIndex = 0, kf_FragmentCount = 1,
        kf_Payload = [1, 2, 3]\<rparr>"
proof -
  let ?p = "\<lparr>up_SourceIP = V4 0x0a000001, up_DestinationIP = V4 0x0a000002, up_SourcePort = 7001,
    up_DestinationPort = 7002, up_Payload = []\<rparr>"
  let ?f = "\<lparr>kf_Flags = 1, kf_FlowID = 9, kf_Sequence = 77, kf_FragmentIndex = 0, kf_FragmentCount = 1,
    kf_Payload = [1, 2, 3]\<rparr>"
  have "\<not> isl (kudp_marshalUDPIPv4FrameInto ?p ?f (replicate 64 0xee) False)"
    by (simp add: kudp_marshalUDPIPv4FrameInto_eq kudp_sendable_def Let_def)
  then obtain n wire' where w: "kudp_marshalUDPIPv4FrameInto ?p ?f (replicate 64 0xee) False = Inr (n, wire')"
    by (cases "kudp_marshalUDPIPv4FrameInto ?p ?f (replicate 64 0xee) False") auto
  from kudp_packet_roundtrip [OF w, of False] obtain q
    where "kudp_parseUDPIPv4 (take n wire') False = Inr q" "kudp_parseFrame (up_Payload q) = Inr ?f"
      "q = ?p\<lparr>up_Payload := up_Payload q\<rparr>" by blast
  with w show ?thesis by (metis udp_packet.select_convs(3) udp_packet.update_convs(5))
qed

text \<open>
  C26: transmission errors are caught: changing any single payload byte of a packet built by
  \<open>MarshalUDPIPv4\<close> makes the checking parser reject it with the UDP checksum error.
\<close>
theorem kudp_corrupt_byte_rejected:
  assumes "kudp_MarshalUDPIPv4 p = Inr wire" and "28 \<le> i" and "i < length wire" and "b \<noteq> wire ! i"
  shows "kudp_parseUDPIPv4 (wire[i := b]) False = Inl KErrChecksumUDP"
proof -
  let ?body = "up_Payload p" and ?c = "kudp_udp_ck p (up_Payload p)"
  note ok = kudp_MarshalUDPIPv4_Inr(1) [OF assms(1)] and wire = kudp_MarshalUDPIPv4_Inr(2) [OF assms(1)]
  obtain k where k: "i = 28 + k" using assms(2) le_Suc_ex by blast
  have upd: "wire[i := b] = kudp_wire p ?c (?body[k := b])"
    by (simp add: wire k kudp_wire_def list_update_append)
  have "b \<noteq> ?body ! k" "k < length ?body"
    using assms(3,4) by (simp_all add: wire k kudp_wire_def nth_append)
  with ok have "kudp_udpChecksum (As4 (up_SourceIP p)) (As4 (up_DestinationIP p))
      (kudp_udp_header ?c p (8 + length ?body) @ ?body[k := b]) \<noteq> 0"
    by (intro kudp_udp_corrupt) (simp_all add: kudp_sendable_def)
  with ok show ?thesis
    using kudp_parse_wire [of p "?body[k := b]" ?c "[]" False] kudp_udp_ck_nonzero [of p ?body] upd
    by simp
qed


theorem kudp_corrupt_byte_rejected_witness:
  "\<exists>wire. kudp_MarshalUDPIPv4
       \<lparr>up_SourceIP = V4 0x0a000001, up_DestinationIP = V4 0x0a000002, up_SourcePort = 7001,
        up_DestinationPort = 7002, up_Payload = [1, 2, 3]\<rparr> = Inr wire \<and>
     kudp_parseUDPIPv4 (wire[29 := 0xff]) False = Inl KErrChecksumUDP"
proof -
  let ?p = "\<lparr>up_SourceIP = V4 0x0a000001, up_DestinationIP = V4 0x0a000002, up_SourcePort = 7001,
    up_DestinationPort = 7002, up_Payload = [1, 2, 3]\<rparr>"
  have "(case kudp_MarshalUDPIPv4 ?p of Inl _ \<Rightarrow> False | Inr w \<Rightarrow> length w = 31 \<and> w ! 29 = 2)"
    by (simp add: kudp_MarshalUDPIPv4_eq kudp_sendable_def kudp_wire_def nth_append)
  then obtain wire where w: "kudp_MarshalUDPIPv4 ?p = Inr wire" "length wire = 31" "wire ! 29 = 2"
    by (cases "kudp_MarshalUDPIPv4 ?p") auto
  then show ?thesis
    using kudp_corrupt_byte_rejected [OF w(1), of 29 "0xff"] by simp
qed

end
