(* ===== verification/ReplayWindow.thy ===== *)
theory ReplayWindow
  imports Prelude
begin

unbundle bit_operations_syntax

text \<open>
  The anti-replay window of a secure session (\<^verbatim>\<open>internal/transport/secure/secure.go\<close>,
  type \<^verbatim>\<open>replayWindow\<close>): a circular bitmap over \<^verbatim>\<open>[]uint64\<close> words, kept at machine width.
  It is shown to refine the set of accepted sequence numbers, and a contract \<open>anti_replay\<close>
  carries what its clients rely on.  The mutex of the Go type makes each method atomic, so
  a method is one function on the state.
\<close>

section \<open>The implementation\<close>

record replay_window =
  rw_highest :: u64
  rw_head :: u64
  rw_seen :: "u64 list"
  rw_size :: u64

abbreviation (input) minReplayWindowSize :: u64 where "minReplayWindowSize \<equiv> 64"
abbreviation (input) maxReplayWindowSize :: u64 where "maxReplayWindowSize \<equiv> 1048576"
abbreviation (input) defaultReplayWindowSize :: u64 where "defaultReplayWindowSize \<equiv> 65536"

definition normalizeReplayWindowSize :: "u64 \<Rightarrow> u64" where
  "normalizeReplayWindowSize sz =
     (if sz = 0 then defaultReplayWindowSize
      else if sz < minReplayWindowSize then minReplayWindowSize
      else if sz > maxReplayWindowSize then maxReplayWindowSize
      else sz)"

definition replayWindowWords :: "u64 \<Rightarrow> nat" where
  "replayWindowWords sz = unat ((sz + 63) div 64)"

definition newReplayWindow :: "u64 \<Rightarrow> replay_window" where
  "newReplayWindow n =
     (let sz = normalizeReplayWindowSize n in
      \<lparr>rw_highest = 0, rw_head = 0, rw_seen = replicate (replayWindowWords sz) 0, rw_size = sz\<rparr>)"

definition maskReplayWindowTail :: "u64 list \<Rightarrow> u64 \<Rightarrow> u64 list" where
  "maskReplayWindowTail seen sz =
     (if seen = [] then seen
      else let remainder = sz mod 64 in
        if remainder = 0 then seen
        else seen[length seen - 1 := seen ! (length seen - 1) AND (push_bit (unat remainder) 1 - 1)])"

definition ensureLocked :: "replay_window \<Rightarrow> replay_window" where
  "ensureLocked window =
     (let sz = normalizeReplayWindowSize (rw_size window);
          window = (if rw_size window \<noteq> sz then window\<lparr>rw_size := sz\<rparr> else window);
          words = replayWindowWords sz
      in if length (rw_seen window) \<noteq> words
         then window\<lparr>rw_seen := replicate words 0, rw_head := 0\<rparr>
         else
           let window = (if rw_head window \<ge> sz then window\<lparr>rw_head := rw_head window mod sz\<rparr> else window)
           in window\<lparr>rw_seen := maskReplayWindowTail (rw_seen window) sz\<rparr>)"

definition replayWindow_Size :: "replay_window \<Rightarrow> replay_window \<times> u64" where
  "replayWindow_Size window = (let window = ensureLocked window in (window, rw_size window))"

definition replayWindowPhysicalBit :: "u64 \<Rightarrow> u64 \<Rightarrow> u64 \<Rightarrow> u64" where
  "replayWindowPhysicalBit head delta sz =
     (let bit = head + delta in if bit \<ge> sz then bit - sz else bit)"

definition replayWindowBit :: "u64 list \<Rightarrow> u64 \<Rightarrow> u64 \<Rightarrow> u64 \<Rightarrow> bool" where
  "replayWindowBit seen head sz delta =
     (if delta \<ge> sz then False
      else let b = replayWindowPhysicalBit head delta sz; word = unat (b div 64) in
        if word \<ge> length seen then False
        else (seen ! word) AND push_bit (unat (b mod 64)) 1 \<noteq> 0)"

definition setReplayWindowBit :: "u64 list \<Rightarrow> u64 \<Rightarrow> u64 \<Rightarrow> u64 \<Rightarrow> u64 list" where
  "setReplayWindowBit seen head sz delta =
     (if delta \<ge> sz then seen
      else let b = replayWindowPhysicalBit head delta sz; word = unat (b div 64) in
        if word \<ge> length seen then seen
        else seen[word := (seen ! word) OR push_bit (unat (b mod 64)) 1])"

text \<open>The inner loop of \<open>clearReplayWindowLinearBits\<close>: zero the words from \<open>firstWord\<close> to \<open>endWord\<close>.\<close>

function clearWords :: "u64 list \<Rightarrow> nat \<Rightarrow> nat \<Rightarrow> u64 list" where
  "clearWords seen firstWord endWord =
     (if firstWord < endWord then clearWords (seen[firstWord := 0]) (firstWord + 1) endWord else seen)"
  by auto
termination by (relation "measure (\<lambda>(_, a, b). b - a)") auto

declare clearWords.simps [simp del]

definition clearReplayWindowLinearBits :: "u64 list \<Rightarrow> u64 \<Rightarrow> u64 \<Rightarrow> u64 list" where
  "clearReplayWindowLinearBits seen start count =
     (if count = 0 then seen
      else
        let en = start + count;
            firstWord = unat (start div 64);
            lastWord = unat ((en - 1) div 64);
            startBit = unat (start mod 64)
        in if firstWord = lastWord then
             let width = unat count;
                 mask = push_bit startBit (NOT 0);
                 mask = (if width < 64 then mask AND (push_bit (startBit + width) 1 - 1) else mask)
             in seen[firstWord := (seen ! firstWord) AND NOT mask]
           else
             let (seen, firstWord) =
                   (if startBit \<noteq> 0
                    then (seen[firstWord := (seen ! firstWord) AND (push_bit startBit 1 - 1)], firstWord + 1)
                    else (seen, firstWord));
                 endWord = unat (en div 64);
                 seen = clearWords seen firstWord endWord;
                 endBit = unat (en mod 64)
             in if endBit \<noteq> 0
                then seen[endWord := (seen ! endWord) AND NOT (push_bit endBit 1 - 1)]
                else seen)"

definition clearReplayWindowCircularBits :: "u64 list \<Rightarrow> u64 \<Rightarrow> u64 \<Rightarrow> u64 \<Rightarrow> u64 list" where
  "clearReplayWindowCircularBits seen start count sz =
     (if count = 0 \<or> sz = 0 then seen
      else if count \<ge> sz then replicate (length seen) 0
      else
        let start = start mod sz;
            first = min count (sz - start);
            seen = clearReplayWindowLinearBits seen start first
        in clearReplayWindowLinearBits seen 0 (count - first))"

definition advanceReplayWindowSeen :: "u64 list \<Rightarrow> u64 \<Rightarrow> u64 \<Rightarrow> u64 \<Rightarrow> u64 list \<times> u64" where
  "advanceReplayWindowSeen seen head shift sz =
     (if shift = 0 \<or> sz = 0 then (seen, head)
      else if shift \<ge> sz then (replicate (length seen) 0, 0)
      else
        let head = (if head \<ge> sz then head mod sz else head);
            head = (if shift > head then head + (sz - shift) else head - shift)
        in (clearReplayWindowCircularBits seen head shift sz, head))"

text \<open>The pointers \<^verbatim>\<open>highest\<close>, \<^verbatim>\<open>head\<close> and the slice \<^verbatim>\<open>seen\<close> are passed and returned.\<close>

definition replayWindowAcceptLocked ::
  "u64 \<Rightarrow> u64 \<Rightarrow> u64 list \<Rightarrow> u64 \<Rightarrow> u64 \<Rightarrow> (u64 \<times> u64 \<times> u64 list) \<times> bool" where
  "replayWindowAcceptLocked highest head seen sz seq =
     (if seq = 0 then ((highest, head, seen), False)
      else if seq > highest then
        let (seen, head) = advanceReplayWindowSeen seen head (seq - highest) sz;
            highest = seq
        in ((highest, head, setReplayWindowBit seen head sz 0), True)
      else
        let delta = highest - seq in
        if delta \<ge> sz \<or> replayWindowBit seen head sz delta then ((highest, head, seen), False)
        else ((highest, head, setReplayWindowBit seen head sz delta), True))"

definition replayWindow_Accept :: "replay_window \<Rightarrow> u64 \<Rightarrow> replay_window \<times> bool" where
  "replayWindow_Accept window seq =
     (if seq = 0 then (window, False)
      else
        let window = ensureLocked window;
            ((highest, head, seen), ok) =
              replayWindowAcceptLocked (rw_highest window) (rw_head window) (rw_seen window) (rw_size window) seq
        in (window\<lparr>rw_highest := highest, rw_head := head, rw_seen := seen\<rparr>, ok))"

primrec acceptAll :: "u64 \<Rightarrow> u64 list \<Rightarrow> u64 \<times> u64 \<times> u64 list \<Rightarrow> (u64 \<times> u64 \<times> u64 list) option" where
  "acceptAll sz [] st = Some st"
| "acceptAll sz (seq # seqs) st =
     (case st of (highest, head, seen) \<Rightarrow>
        let (st', ok) = replayWindowAcceptLocked highest head seen sz seq
        in if \<not> ok then None else acceptAll sz seqs st')"

definition replayWindow_AcceptBatch :: "replay_window \<Rightarrow> u64 list \<Rightarrow> replay_window \<times> bool" where
  "replayWindow_AcceptBatch window seqs =
     (if seqs = [] then (window, True)
      else
        let window = ensureLocked window in
        case acceptAll (rw_size window) seqs (rw_highest window, rw_head window, rw_seen window) of
          None \<Rightarrow> (window, False)
        | Some (highest, head, seen) \<Rightarrow>
            (window\<lparr>rw_highest := highest, rw_head := head, rw_seen := seen\<rparr>, True))"

primrec acceptEach :: "u64 list \<Rightarrow> replay_window \<Rightarrow> replay_window \<times> bool list" where
  "acceptEach [] window = (window, [])"
| "acceptEach (seq # seqs) window =
     (let ((highest, head, seen), ok) =
            replayWindowAcceptLocked (rw_highest window) (rw_head window) (rw_seen window) (rw_size window) seq;
          (window, oks) = acceptEach seqs (window\<lparr>rw_highest := highest, rw_head := head, rw_seen := seen\<rparr>)
      in (window, ok # oks))"

definition replayWindow_AcceptBatchResults :: "replay_window \<Rightarrow> u64 list \<Rightarrow> replay_window \<times> bool list" where
  "replayWindow_AcceptBatchResults window seqs =
     (if seqs = [] then (window, []) else acceptEach seqs (ensureLocked window))"


section \<open>Bit-level lemmas\<close>

text \<open>Bit \<open>i\<close> of the bitmap, counted through the words.\<close>

definition wbit :: "u64 list \<Rightarrow> nat \<Rightarrow> bool" where
  "wbit seen i = bit (seen ! (i div 64)) (i mod 64)"

lemma wbit_update:
  "w < length seen \<Longrightarrow> wbit (seen[w := x]) i = (if i div 64 = w then bit x (i mod 64) else wbit seen i)"
  by (auto simp: wbit_def nth_list_update)

lemma wbit_zeros [simp]: "i < 64 * n \<Longrightarrow> \<not> wbit (replicate n 0) i"
  by (simp add: wbit_def div_less_iff_less_mult mult.commute)

lemma bit_low_mask: "bit (push_bit k 1 - 1 :: u64) j \<longleftrightarrow> j < k \<and> j < 64"
  using bit_mask_iff [where ?'a = u64, of k j]
  by (auto simp: mask_eq_exp_minus_1 push_bit_of_1)

lemma bit_low_mask': "bit (2 ^ k - 1 :: u64) j \<longleftrightarrow> j < k \<and> j < 64"
  using bit_low_mask [of k j] by (simp add: push_bit_of_1)

lemma bit_single: "bit (2 ^ k :: u64) j \<longleftrightarrow> j = k \<and> j < 64"
  by (auto simp: bit_exp_iff)

lemma bit_high_mask: "bit (push_bit k (NOT 0) :: u64) j \<longleftrightarrow> k \<le> j \<and> j < 64"
  by (auto simp: bit_push_bit_iff bit_not_iff bit_mask_iff)

lemmas mask_bits = bit_and_iff bit_or_iff bit_not_iff bit_mask_iff bit_low_mask bit_low_mask' bit_high_mask bit_single

lemma word_index_iff: "a * 64 \<le> i \<and> i < b * 64 \<longleftrightarrow> a \<le> i div 64 \<and> i div 64 < (b :: nat)"
  by (simp add: less_eq_div_iff_mult_less_eq div_less_iff_less_mult)

lemma clearWords_spec:
  assumes "b \<le> length seen"
  shows "length (clearWords seen a b) = length seen \<and>
    wbit (clearWords seen a b) i = (wbit seen i \<and> \<not> (a * 64 \<le> i \<and> i < b * 64))"
  using assms
proof (induction seen a b rule: clearWords.induct)
  case (1 seen a b)
  show ?case
  proof (cases "a < b")
    case True
    with 1 have "length (clearWords (seen[a := 0]) (a + 1) b) = length seen \<and>
      wbit (clearWords (seen[a := 0]) (a + 1) b) i =
        (wbit (seen[a := 0]) i \<and> \<not> ((a + 1) * 64 \<le> i \<and> i < b * 64))"
      by simp
    with True 1(2) show ?thesis
      by (subst (1 2) clearWords.simps) (auto simp: wbit_update word_index_iff)
  next
    case False
    then show ?thesis by (subst (1 2) clearWords.simps) auto
  qed
qed

lemma unat_u64_div_mod: "unat (x div 64 :: u64) = unat x div 64" "unat (x mod 64 :: u64) = unat x mod 64"
  by (simp_all add: unat_div unat_mod)

lemma unat_add_u64: "unat a + unat b < 2 ^ 64 \<Longrightarrow> unat (a + b :: u64) = unat a + unat b"
  by (simp add: unat_word_ariths)


text \<open>Clearing inside one word, and clearing the head and the tail of a longer range.\<close>

lemma wbit_clear_within:
  fixes s c e :: nat
  assumes q: "q < length seen" "s div 64 = q" "(e - 1) div 64 = q" and c: "0 < c" and e: "e = s + c"
  shows "wbit (seen[q := seen ! q AND NOT (if c < 64
      then push_bit (s mod 64) (NOT 0) AND (push_bit (s mod 64 + c) 1 - 1) else push_bit (s mod 64) (NOT 0))]) i
    = (wbit seen i \<and> \<not> (s \<le> i \<and> i < e))"
proof (cases "i div 64 = q")
  case True
  have s: "s = 64 * q + s mod 64" and i: "i = 64 * q + i mod 64"
    using q(2) True mult_div_mod_eq [of 64 s] mult_div_mod_eq [of 64 i] by simp_all
  have "e - 1 < 64 * q + 64"
    using q(3) dividend_less_div_times [of 64 "e - 1"] by simp
  then have c64: "s mod 64 + c \<le> 64" using s c e by linarith
  have "s \<le> i \<longleftrightarrow> s mod 64 \<le> i mod 64" "i < e \<longleftrightarrow> i mod 64 < s mod 64 + c"
    using s i e by linarith+
  with True c64 q(1) show ?thesis
    by (auto simp: wbit_update wbit_def mask_bits)
next
  case False
  have "s \<le> i \<and> i < e \<Longrightarrow> i div 64 = q"
    using q(2,3) div_le_mono [of s i 64] div_le_mono [of i "e - 1" 64] by linarith
  with False q(1) show ?thesis by (auto simp: wbit_update)
qed

lemma wbit_clear_from:
  fixes s :: nat
  assumes "s div 64 < length seen"
  shows "wbit (seen[s div 64 := seen ! (s div 64) AND (push_bit (s mod 64) 1 - 1)]) i
    = (wbit seen i \<and> \<not> (s \<le> i \<and> i < (s div 64 + 1) * 64))"
proof (cases "i div 64 = s div 64")
  case True
  then have "i < (s div 64 + 1) * 64" by (simp flip: div_less_iff_less_mult)
  moreover have "s \<le> i \<longleftrightarrow> s mod 64 \<le> i mod 64"
    using True div_mult_mod_eq [of s 64] div_mult_mod_eq [of i 64] by linarith
  ultimately show ?thesis
    using True assms by (auto simp: wbit_update wbit_def mask_bits not_le)
next
  case False
  have "s \<le> i \<and> i < (s div 64 + 1) * 64 \<Longrightarrow> i div 64 = s div 64"
    using div_le_mono [of s i 64] div_less_iff_less_mult [of 64 i "s div 64 + 1"] by simp
  with False assms show ?thesis by (auto simp: wbit_update)
qed

lemma wbit_clear_until:
  fixes e :: nat
  assumes "e div 64 < length seen"
  shows "wbit (seen[e div 64 := seen ! (e div 64) AND NOT (push_bit (e mod 64) 1 - 1)]) i
    = (wbit seen i \<and> \<not> (e div 64 * 64 \<le> i \<and> i < e))"
proof (cases "i div 64 = e div 64")
  case True
  then have "e div 64 * 64 \<le> i" by (metis div_times_less_eq_dividend)
  moreover have "i < e \<longleftrightarrow> i mod 64 < e mod 64"
    using True div_mult_mod_eq [of e 64] div_mult_mod_eq [of i 64] by linarith
  ultimately show ?thesis
    using True assms by (auto simp: wbit_update wbit_def mask_bits not_less)
next
  case False
  have "e div 64 * 64 \<le> i \<and> i < e \<Longrightarrow> i div 64 = e div 64"
    using div_le_mono [of i e 64] by (simp flip: less_eq_div_iff_mult_less_eq)
  with False assms show ?thesis by (auto simp: wbit_update)
qed

text \<open>A range over several words: the masked first word, the zeroed words, the masked last word.\<close>

lemma wbit_clear_across:
  fixes s e :: nat
  assumes lt: "s div 64 < (e - 1) div 64" and room: "e \<le> 64 * length seen"
  defines "seen1 \<equiv> (if s mod 64 \<noteq> 0 then seen[s div 64 := seen ! (s div 64) AND (push_bit (s mod 64) 1 - 1)] else seen)"
    and "f1 \<equiv> (if s mod 64 \<noteq> 0 then s div 64 + 1 else s div 64)"
  defines "seen2 \<equiv> clearWords seen1 f1 (e div 64)"
  defines "seen3 \<equiv> (if e mod 64 \<noteq> 0 then seen2[e div 64 := seen2 ! (e div 64) AND NOT (push_bit (e mod 64) 1 - 1)] else seen2)"
  shows "length seen3 = length seen \<and> wbit seen3 i = (wbit seen i \<and> \<not> (s \<le> i \<and> i < e))"
proof -
  have "(e - 1) div 64 \<le> e div 64" by (rule div_le_mono) simp
  moreover have ediv: "e div 64 \<le> length seen"
    using room by (simp add: less_eq_div_iff_mult_less_eq)
  ultimately have "s div 64 < length seen" "f1 \<le> e div 64" and s64: "s div 64 < e div 64"
    using lt by (auto simp: f1_def)
  moreover have "wbit seen1 j = (wbit seen j \<and> \<not> (s \<le> j \<and> j < f1 * 64))" for j
    using wbit_clear_from [of s seen j] calculation(1) by (auto simp: seen1_def f1_def)
  ultimately have w2: "length seen2 = length seen \<and>
      wbit seen2 i = (wbit seen i \<and> \<not> (s \<le> i \<and> i < e div 64 * 64))"
    using clearWords_spec [of "e div 64" seen1 f1 i] ediv
    by (auto simp: seen2_def seen1_def f1_def)
  have "wbit seen3 i = (wbit seen2 i \<and> \<not> (e div 64 * 64 \<le> i \<and> i < e))" if nz: "e mod 64 \<noteq> 0"
  proof -
    have "0 < e mod 64" using nz by simp
    then have "e div 64 < length seen" using room div_mult_mod_eq [of e 64] by linarith
    with nz w2 show ?thesis
      using wbit_clear_until [of e seen2 i] by (simp add: seen3_def)
  qed
  moreover have "s < e div 64 * 64" "e div 64 * 64 \<le> e" "e mod 64 = 0 \<Longrightarrow> e div 64 * 64 = e"
    using s64 by (auto simp flip: div_less_iff_less_mult)
  ultimately show ?thesis
    using w2 by (cases "e mod 64 = 0") (auto simp: seen3_def)
qed

lemma clearReplayWindowLinearBits_spec:
  assumes room: "unat start + unat count \<le> 64 * length seen" and len: "length seen \<le> 2 ^ 32"
  shows "length (clearReplayWindowLinearBits seen start count) = length seen \<and>
    wbit (clearReplayWindowLinearBits seen start count) i =
      (wbit seen i \<and> \<not> (unat start \<le> i \<and> i < unat start + unat count))"
proof -
  define s c e where "s = unat start" and "c = unat count" and "e = s + c"
  have e: "unat (start + count) = e" and eL: "e \<le> 64 * length seen"
    using room len by (simp_all add: e_def s_def c_def unat_add_u64)
  have "length (clearReplayWindowLinearBits seen start count) = length seen \<and>
    wbit (clearReplayWindowLinearBits seen start count) i = (wbit seen i \<and> \<not> (s \<le> i \<and> i < e))"
  proof (cases "count = 0")
    case True
    then show ?thesis by (auto simp: clearReplayWindowLinearBits_def e_def c_def)
  next
    case False
    then have c: "0 < c" by (simp add: c_def unat_gt_0)
    then have "start + count \<noteq> 0" using e by (auto simp: e_def)
    then have e1: "unat (start + count - 1) = e - 1"
      by (simp add: unat_minus_one e)
    note idx = unat_u64_div_mod e e1 s_def [symmetric] c_def [symmetric]
    show ?thesis
    proof (cases "s div 64 = (e - 1) div 64")
      case True
      then have "s div 64 < length seen"
        using eL c by (simp add: div_less_iff_less_mult e_def)
      then show ?thesis
        using True False c wbit_clear_within [of "s div 64" seen s e c i] e_def
        by (cases "c < 64") (simp_all add: clearReplayWindowLinearBits_def Let_def idx)
    next
      case neq: False
      then have "s div 64 < (e - 1) div 64"
        using c div_le_mono [of s "e - 1" 64] by (simp add: e_def)
      from wbit_clear_across [OF this eL, of i] show ?thesis
        using neq False
        by (cases "s mod 64 = 0"; cases "e mod 64 = 0")
          (simp_all add: clearReplayWindowLinearBits_def Let_def idx)
    qed
  qed
  then show ?thesis by (simp add: s_def e_def c_def)
qed


section \<open>The window as a set of distances\<close>

text \<open>
  \<open>rw_ok\<close> is the invariant on the three components the helpers share: sizes are in range, the
  bitmap has exactly the words it needs, the head is a position, and no bit is set past the
  last position.  \<open>rbit\<close> reads the bit at a distance from the head.
\<close>

definition rw_ok :: "u64 \<Rightarrow> u64 list \<Rightarrow> u64 \<Rightarrow> bool" where
  "rw_ok head seen sz \<longleftrightarrow> 64 \<le> unat sz \<and> unat sz \<le> 1048576 \<and> unat head < unat sz \<and>
     length seen = (unat sz + 63) div 64 \<and> (\<forall>i \<in> {unat sz..<64 * length seen}. \<not> wbit seen i)"

definition rbit :: "u64 \<Rightarrow> u64 list \<Rightarrow> u64 \<Rightarrow> nat \<Rightarrow> bool" where
  "rbit head seen sz d = wbit seen ((unat head + d) mod unat sz)"

lemma rw_okD:
  assumes "rw_ok head seen sz"
  shows "64 \<le> unat sz" "unat sz \<le> 1048576" "unat head < unat sz" "unat sz \<le> 64 * length seen"
    "length seen \<le> 16384" "sz \<noteq> 0"
proof -
  show sz: "64 \<le> unat sz" "unat sz \<le> 1048576" "unat head < unat sz"
    using assms by (simp_all add: rw_ok_def)
  have len: "length seen = (unat sz + 63) div 64" using assms by (simp add: rw_ok_def)
  show "length seen \<le> 16384" using sz(2) unfolding len by simp
  show "unat sz \<le> 64 * length seen" unfolding len by linarith
  show "sz \<noteq> 0" using sz(1) by auto
qed

lemma unat_replayWindowPhysicalBit:
  assumes ok: "rw_ok head seen sz" and d: "unat delta < unat sz"
  shows "unat (replayWindowPhysicalBit head delta sz) = (unat head + unat delta) mod unat sz"
proof -
  note b = rw_okD [OF ok]
  have sum: "unat (head + delta) = unat head + unat delta"
    using b d by (simp add: unat_add_u64)
  show ?thesis
  proof (cases "unat head + unat delta < unat sz")
    case True
    then show ?thesis using sum by (simp add: replayWindowPhysicalBit_def Let_def word_le_nat_alt)
  next
    case False
    then have "(unat head + unat delta) mod unat sz = unat head + unat delta - unat sz"
      using b(3) d by (simp add: mod_if)
    with False sum show ?thesis
      by (simp add: replayWindowPhysicalBit_def Let_def word_le_nat_alt unat_sub)
  qed
qed

lemma mod_wrap: "h < n \<Longrightarrow> a < n \<Longrightarrow> (h + a) mod n = (if h + a < n then h + a else h + a - (n :: nat))"
  by (simp add: mod_if)

lemma rotate_inj: "h < n \<Longrightarrow> a < n \<Longrightarrow> b < n \<Longrightarrow> (h + a) mod n = (h + b) mod n \<longleftrightarrow> a = (b :: nat)"
  by (auto simp: mod_wrap)

lemma position_word: "rw_ok head seen sz \<Longrightarrow> i < unat sz \<Longrightarrow> i div 64 < length seen"
  using rw_okD(4) [of head seen sz] by (simp add: div_less_iff_less_mult)

lemma replayWindowBit_spec:
  assumes ok: "rw_ok head seen sz"
  shows "replayWindowBit seen head sz delta \<longleftrightarrow> unat delta < unat sz \<and> rbit head seen sz (unat delta)"
proof (cases "unat delta < unat sz")
  case True
  define b where "b = replayWindowPhysicalBit head delta sz"
  have b: "unat b = (unat head + unat delta) mod unat sz"
    using unat_replayWindowPhysicalBit [OF ok True] by (simp add: b_def)
  then have "unat b < unat sz" using rw_okD(1) [OF ok] by (metis mod_less_divisor less_le_trans zero_less_numeral)
  then have w: "unat b div 64 < length seen" by (rule position_word [OF ok])
  have "(seen ! (unat b div 64) AND push_bit (unat b mod 64) 1 \<noteq> 0) = wbit seen (unat b)"
    unfolding wbit_def by (rule bit_iff_and_push_bit_not_eq_0 [symmetric])
  then show ?thesis
    using True w b by (simp add: replayWindowBit_def rbit_def Let_def b_def [symmetric] unat_u64_div_mod word_le_nat_alt)
qed (simp add: replayWindowBit_def word_le_nat_alt)

lemma setReplayWindowBit_spec:
  assumes ok: "rw_ok head seen sz" and d: "unat delta < unat sz"
  shows "rw_ok head (setReplayWindowBit seen head sz delta) sz"
    and "e < unat sz \<Longrightarrow> rbit head (setReplayWindowBit seen head sz delta) sz e \<longleftrightarrow>
      rbit head seen sz e \<or> e = unat delta"
proof -
  define b where "b = (unat head + unat delta) mod unat sz"
  have b: "b < unat sz" using rw_okD(1) [OF ok] by (simp add: b_def)
  then have w: "b div 64 < length seen" by (rule position_word [OF ok])
  have eq: "setReplayWindowBit seen head sz delta =
      seen[b div 64 := (seen ! (b div 64)) OR push_bit (b mod 64) 1]"
    using d w unat_replayWindowPhysicalBit [OF ok d]
    by (simp add: setReplayWindowBit_def Let_def unat_u64_div_mod word_le_nat_alt b_def)
  have bits: "wbit (setReplayWindowBit seen head sz delta) i \<longleftrightarrow> wbit seen i \<or> i = b" for i
  proof (cases "i div 64 = b div 64")
    case True
    then have "i mod 64 = b mod 64 \<longleftrightarrow> i = b" by (metis div_mult_mod_eq)
    with True w show ?thesis
      unfolding eq by (auto simp: wbit_update wbit_def mask_bits)
  next
    case False
    with w show ?thesis unfolding eq by (auto simp: wbit_update)
  qed
  show "rw_ok head (setReplayWindowBit seen head sz delta) sz"
    using ok b bits eq by (auto simp: rw_ok_def)
  show "rbit head (setReplayWindowBit seen head sz delta) sz e \<longleftrightarrow> rbit head seen sz e \<or> e = unat delta"
    if "e < unat sz"
    using rw_okD(3) [OF ok] d that by (simp add: rbit_def bits b_def rotate_inj)
qed


text \<open>Clearing \<open>count\<close> positions from \<open>start\<close> around the circle.\<close>

lemma clearReplayWindowCircularBits_spec:
  assumes ok: "rw_ok start seen sz" and c: "0 < unat count" "unat count < unat sz"
  shows "rw_ok start (clearReplayWindowCircularBits seen start count sz) sz"
    and "d < unat sz \<Longrightarrow> rbit start (clearReplayWindowCircularBits seen start count sz) sz d \<longleftrightarrow>
      rbit start seen sz d \<and> unat count \<le> d"
proof -
  note b = rw_okD [OF ok]
  define s n k f where "s = unat start" and "n = unat sz" and "k = unat count" and "f = min k (n - s)"
  define first where "first = min count (sz - start)"
  have sn: "s < n" using b(3) by (simp add: s_def n_def)
  have "start \<le> sz" using b(3) by (simp add: word_le_nat_alt)
  then have f: "unat first = f"
    by (auto simp: first_def f_def min_def word_le_nat_alt unat_sub n_def s_def k_def)
  then have kf: "unat (count - first) = k - f"
    by (subst unat_sub) (simp_all add: word_le_nat_alt f_def k_def)
  define seen1 seen2 where "seen1 = clearReplayWindowLinearBits seen start first"
    and "seen2 = clearReplayWindowLinearBits seen1 0 (count - first)"
  have eq: "clearReplayWindowCircularBits seen start count sz = seen2"
  proof -
    have "start mod sz = start" using b(3) by (simp add: word_less_nat_alt mod_word_less)
    then show ?thesis
      using c b(6) by (auto simp: clearReplayWindowCircularBits_def Let_def seen2_def seen1_def first_def
          word_le_nat_alt)
  qed
  have one: "length seen1 = length seen \<and> wbit seen1 i = (wbit seen i \<and> \<not> (s \<le> i \<and> i < s + f))" for i
    using clearReplayWindowLinearBits_spec [of start first seen i] b f
    by (simp add: seen1_def s_def n_def f_def)
  then have two: "length seen2 = length seen \<and>
      wbit seen2 i = (wbit seen i \<and> \<not> (s \<le> i \<and> i < s + f) \<and> \<not> i < k - f)" for i
    using clearReplayWindowLinearBits_spec [of 0 "count - first" seen1 i] b c kf
    by (simp add: seen2_def n_def k_def)
  show "rw_ok start (clearReplayWindowCircularBits seen start count sz) sz"
    using ok two unfolding eq rw_ok_def by auto
  show "rbit start (clearReplayWindowCircularBits seen start count sz) sz d \<longleftrightarrow>
      rbit start seen sz d \<and> unat count \<le> d" if d: "d < unat sz"
    unfolding eq rbit_def two [THEN conjunct2] n_def [symmetric] s_def [symmetric] k_def [symmetric]
    using sn d c by (auto simp: mod_wrap f_def n_def [symmetric] k_def [symmetric])
qed


lemma rw_ok_zeros:
  assumes "rw_ok h seen sz"
  shows "rw_ok 0 (replicate (length seen) 0) sz" "d < unat sz \<Longrightarrow> \<not> rbit 0 (replicate (length seen) 0) sz d"
proof -
  show "rw_ok 0 (replicate (length seen) 0) sz"
    using assms by (auto simp: rw_ok_def)
  have "d < 64 * length seen" if "d < unat sz"
    using that rw_okD(4) [OF assms] by simp
  then show "d < unat sz \<Longrightarrow> \<not> rbit 0 (replicate (length seen) 0) sz d"
    by (simp add: rbit_def)
qed

text \<open>Advancing by \<open>shift\<close> moves every recorded distance up by \<open>shift\<close> and forgets those that leave the window.\<close>

lemma advanceReplayWindowSeen_spec:
  assumes ok: "rw_ok head seen sz" and nz: "shift \<noteq> 0"
    and adv: "advanceReplayWindowSeen seen head shift sz = (seen', head')"
  shows "rw_ok head' seen' sz \<and>
    (\<forall>d < unat sz. rbit head' seen' sz d \<longleftrightarrow> unat shift \<le> d \<and> rbit head seen sz (d - unat shift))"
proof (cases "unat sz \<le> unat shift")
  case True
  then have "seen' = replicate (length seen) 0" "head' = 0"
    using adv nz rw_okD(6) [OF ok] by (simp_all add: advanceReplayWindowSeen_def word_le_nat_alt)
  with True rw_ok_zeros [OF ok] show ?thesis by auto
next
  case False
  note b = rw_okD [OF ok]
  define h where "h = (if shift > head then head + (sz - shift) else head - shift)"
  have h: "unat h = (if unat head < unat shift then unat head + unat sz - unat shift else unat head - unat shift)"
    using False b by (auto simp: h_def word_less_nat_alt word_le_nat_alt unat_sub unat_add_u64)
  have head': "head' = h" and seen': "seen' = clearReplayWindowCircularBits seen h shift sz"
    using adv nz False b
    by (auto simp: advanceReplayWindowSeen_def h_def Let_def word_le_nat_alt)
  have shift: "0 < unat shift" using nz by (simp add: unat_gt_0)
  have hsz: "unat h < unat sz" using h b(3) shift by auto
  then have okh: "rw_ok h seen sz" using ok by (simp add: rw_ok_def)
  have moved: "rbit h seen sz d = rbit head seen sz (d - unat shift)" if "unat shift \<le> d" "d < unat sz" for d
  proof -
    have "(unat h + d) mod unat sz = (unat head + (d - unat shift)) mod unat sz"
      using that h hsz b(3) mod_wrap [of "unat h" "unat sz" d] mod_wrap [of "unat head" "unat sz" "d - unat shift"]
      by (auto split: if_splits)
    then show ?thesis by (simp add: rbit_def)
  qed
  have "rw_ok h seen' sz" and "d < unat sz \<Longrightarrow> rbit h seen' sz d \<longleftrightarrow> rbit h seen sz d \<and> unat shift \<le> d" for d
    using clearReplayWindowCircularBits_spec [OF okh shift] False unfolding seen' by auto
  with moved show ?thesis unfolding head' by auto
qed



section \<open>Refinement to the set of accepted numbers\<close>

text \<open>
  The specification keeps the highest accepted number and the set of accepted numbers that
  are still within the window.
\<close>

type_synonym window_spec = "nat \<times> nat set"

definition spec_accept :: "nat \<Rightarrow> window_spec \<Rightarrow> nat \<Rightarrow> window_spec \<times> bool" where
  "spec_accept n st seq =
     (let (hi, S) = st in
      if seq = 0 then (st, False)
      else if seq > hi then ((seq, insert seq {x \<in> S. seq < x + n}), True)
      else if hi \<ge> seq + n \<or> seq \<in> S then (st, False)
      else ((hi, insert seq S), True))"

definition rw_abs3 :: "u64 \<Rightarrow> u64 \<Rightarrow> u64 list \<Rightarrow> u64 \<Rightarrow> window_spec" where
  "rw_abs3 highest head seen sz =
     (unat highest, {x. x \<le> unat highest \<and> unat highest < x + unat sz \<and> rbit head seen sz (unat highest - x)})"

definition window_set :: "u64 \<Rightarrow> u64 \<Rightarrow> u64 list \<Rightarrow> u64 \<Rightarrow> nat set" where
  "window_set highest head seen sz =
     {x. x \<le> unat highest \<and> unat highest < x + unat sz \<and> rbit head seen sz (unat highest - x)}"

lemma rw_abs3_eq: "rw_abs3 highest head seen sz = (unat highest, window_set highest head seen sz)"
  by (simp add: rw_abs3_def window_set_def)

text \<open>A number above the highest: the window advances and records it at distance 0.\<close>

lemma window_set_advance:
  assumes ok: "rw_ok head seen sz" and new: "highest < seq"
    and adv: "advanceReplayWindowSeen seen head (seq - highest) sz = (s1, h1)"
  shows "rw_ok h1 (setReplayWindowBit s1 h1 sz 0) sz"
    and "window_set seq h1 (setReplayWindowBit s1 h1 sz 0) sz =
      insert (unat seq) {x \<in> window_set highest head seen sz. unat seq < x + unat sz}"
proof -
  let ?s2 = "setReplayWindowBit s1 h1 sz 0"
  have gap: "unat (seq - highest) = unat seq - unat highest" "seq - highest \<noteq> 0"
    using new by (auto simp: unat_sub less_imp_le)
  have lt: "unat highest < unat seq" "0 < unat sz"
    using new rw_okD(1) [OF ok] by (simp_all add: word_less_nat_alt)
  have one: "rw_ok h1 s1 sz"
    "\<And>d. d < unat sz \<Longrightarrow> rbit h1 s1 sz d \<longleftrightarrow>
       unat seq - unat highest \<le> d \<and> rbit head seen sz (d - (unat seq - unat highest))"
    using advanceReplayWindowSeen_spec [OF ok gap(2) adv] gap(1) by auto
  show "rw_ok h1 ?s2 sz"
    using setReplayWindowBit_spec(1) [OF one(1), of 0] lt(2) by simp
  have two: "d < unat sz \<Longrightarrow> rbit h1 ?s2 sz d \<longleftrightarrow> rbit h1 s1 sz d \<or> d = 0" for d
    using setReplayWindowBit_spec(2) [OF one(1), of 0] lt(2) by auto
  have "rbit h1 ?s2 sz (unat seq - x) \<longleftrightarrow> x = unat seq \<or> x \<le> unat highest \<and> rbit head seen sz (unat highest - x)"
    if "x \<le> unat seq" "unat seq < x + unat sz" for x
    using that lt one(2) [of "unat seq - x"] two [of "unat seq - x"] by auto
  then show "window_set seq h1 ?s2 sz =
      insert (unat seq) {x \<in> window_set highest head seen sz. unat seq < x + unat sz}"
    using lt two [of 0] by (auto simp: window_set_def)
qed

text \<open>A number at or below the highest: it is recorded at its distance.\<close>

lemma window_set_insert:
  assumes ok: "rw_ok head seen sz" and old: "seq \<le> highest" and d: "unat (highest - seq) < unat sz"
  shows "window_set highest head (setReplayWindowBit seen head sz (highest - seq)) sz =
    insert (unat seq) (window_set highest head seen sz)"
proof -
  have gap: "unat (highest - seq) = unat highest - unat seq" "unat seq \<le> unat highest"
    using old by (simp_all add: unat_sub word_le_nat_alt)
  have "rbit head (setReplayWindowBit seen head sz (highest - seq)) sz (unat highest - x) \<longleftrightarrow>
      rbit head seen sz (unat highest - x) \<or> x = unat seq" if "x \<le> unat highest" "unat highest < x + unat sz" for x
    using setReplayWindowBit_spec(2) [OF ok d, of "unat highest - x"] that gap by auto
  then show ?thesis using gap d by (auto simp: window_set_def)
qed

lemma replayWindowAcceptLocked_refines:
  assumes ok: "rw_ok head seen sz"
    and acc: "replayWindowAcceptLocked highest head seen sz seq = ((highest', head', seen'), res)"
  shows "rw_ok head' seen' sz \<and>
    spec_accept (unat sz) (rw_abs3 highest head seen sz) (unat seq) = (rw_abs3 highest' head' seen' sz, res)"
proof -
  consider "seq = 0" | (new) "seq \<noteq> 0" "highest < seq" | (old) "seq \<noteq> 0" "seq \<le> highest" by fastforce
  then show ?thesis
  proof cases
    case 1
    with acc ok show ?thesis by (simp add: replayWindowAcceptLocked_def spec_accept_def split: prod.split)
  next
    case new
    obtain s1 h1 where adv: "advanceReplayWindowSeen seen head (seq - highest) sz = (s1, h1)"
      by (cases "advanceReplayWindowSeen seen head (seq - highest) sz")
    have "highest' = seq" "head' = h1" "seen' = setReplayWindowBit s1 h1 sz 0" "res"
      using acc new adv by (auto simp: replayWindowAcceptLocked_def not_less)
    with new window_set_advance [OF ok new(2) adv] show ?thesis
      by (simp add: spec_accept_def rw_abs3_eq word_less_nat_alt unat_gt_0)
  next
    case old
    let ?d = "highest - seq"
    have gap: "unat ?d = unat highest - unat seq" "unat seq \<le> unat highest"
      using old by (simp_all add: unat_sub word_le_nat_alt)
    have bit: "unat ?d < unat sz \<Longrightarrow> replayWindowBit seen head sz ?d \<longleftrightarrow> unat seq \<in> window_set highest head seen sz"
      using replayWindowBit_spec [OF ok, of ?d] gap by (auto simp: window_set_def)
    have far: "unat sz \<le> unat ?d \<longleftrightarrow> unat seq + unat sz \<le> unat highest" using gap by auto
    have acc': "replayWindowAcceptLocked highest head seen sz seq =
        (if unat sz \<le> unat ?d \<or> replayWindowBit seen head sz ?d then ((highest, head, seen), False)
         else ((highest, head, setReplayWindowBit seen head sz ?d), True))"
      using old(1) leD [OF old(2)] by (simp add: replayWindowAcceptLocked_def Let_def word_le_nat_alt)
    show ?thesis
    proof (cases "unat sz \<le> unat ?d \<or> replayWindowBit seen head sz ?d")
      case True
      then have "unat seq + unat sz \<le> unat highest \<or> unat seq \<in> window_set highest head seen sz"
        using far bit by (cases "unat sz \<le> unat ?d") auto
      with True acc acc' ok gap(2) show ?thesis
        by (auto simp: spec_accept_def rw_abs3_eq)
    next
      case False
      then have "unat ?d < unat sz" "\<not> unat seq + unat sz \<le> unat highest"
        "unat seq \<notin> window_set highest head seen sz" using far bit by auto
      with False acc acc' ok old gap(2) setReplayWindowBit_spec(1) [of head seen sz ?d] window_set_insert
      show ?thesis by (auto simp: spec_accept_def rw_abs3_eq unat_eq_0)
    qed
  qed
qed


definition rw_wf :: "replay_window \<Rightarrow> bool" where
  "rw_wf w \<longleftrightarrow> rw_ok (rw_head w) (rw_seen w) (rw_size w)"

definition rw_abs :: "replay_window \<Rightarrow> window_spec" where
  "rw_abs w = rw_abs3 (rw_highest w) (rw_head w) (rw_seen w) (rw_size w)"

lemma unat_normalizeReplayWindowSize:
  "64 \<le> unat (normalizeReplayWindowSize n)" "unat (normalizeReplayWindowSize n) \<le> 1048576"
  by (auto simp: normalizeReplayWindowSize_def word_less_nat_alt)

lemma normalizeReplayWindowSize_id:
  "64 \<le> unat sz \<Longrightarrow> unat sz \<le> 1048576 \<Longrightarrow> normalizeReplayWindowSize sz = sz"
  by (auto simp: normalizeReplayWindowSize_def word_less_nat_alt)

lemma replayWindowWords_eq: "unat sz \<le> 1048576 \<Longrightarrow> replayWindowWords sz = (unat sz + 63) div 64"
  by (simp add: replayWindowWords_def unat_u64_div_mod unat_add_u64)

lemma partial_word:
  fixes n :: nat
  assumes "n mod 64 \<noteq> 0"
  shows "(n + 63) div 64 = Suc (n div 64)"
proof -
  define q r where "q = n div 64" and "r = n mod 64"
  have "n = 64 * q + r" "0 < r" "r < 64" using assms by (simp_all add: q_def r_def)
  then have "64 * Suc q \<le> n + 63" "n + 63 < 64 * Suc (Suc q)" by simp_all
  then show ?thesis unfolding q_def by (rule div_nat_eqI)
qed

lemma maskReplayWindowTail_id:
  assumes ok: "rw_ok head seen sz"
  shows "maskReplayWindowTail seen sz = seen"
proof -
  let ?l = "length seen - 1" and ?r = "unat sz mod 64"
  have len: "length seen = (unat sz + 63) div 64" and ne: "seen \<noteq> []"
    using ok rw_okD(1) [OF ok] by (auto simp: rw_ok_def)
  have "seen ! ?l AND (push_bit ?r 1 - 1) = seen ! ?l" if r: "?r \<noteq> 0"
  proof (rule bit_word_eqI)
    fix j assume j: "j < LENGTH(64)"
    have l: "length seen = Suc (unat sz div 64)" unfolding len using r by (rule partial_word)
    have "\<not> bit (seen ! ?l) j" if "?r \<le> j"
    proof -
      have "unat sz \<le> 64 * ?l + j" using that l div_mult_mod_eq [of "unat sz" 64] by linarith
      moreover have "64 * ?l + j < 64 * length seen" using j l by simp
      ultimately have "\<not> wbit seen (64 * ?l + j)" using ok by (simp add: rw_ok_def)
      then show ?thesis using j by (simp add: wbit_def)
    qed
    then show "bit (seen ! ?l AND (push_bit ?r 1 - 1)) j = bit (seen ! ?l) j"
      using j by (cases "?r \<le> j") (auto simp: mask_bits)
  qed
  then show ?thesis
    by (auto simp: maskReplayWindowTail_def Let_def unat_u64_div_mod unat_eq_0 [symmetric])
qed

lemma ensureLocked_id:
  assumes "rw_wf w"
  shows "ensureLocked w = w"
proof -
  have ok: "rw_ok (rw_head w) (rw_seen w) (rw_size w)" using assms by (simp add: rw_wf_def)
  have "normalizeReplayWindowSize (rw_size w) = rw_size w" "\<not> rw_size w \<le> rw_head w"
    "replayWindowWords (rw_size w) = length (rw_seen w)"
    using rw_okD(1-3) [OF ok] ok
    by (simp_all add: normalizeReplayWindowSize_id replayWindowWords_eq word_le_nat_alt rw_ok_def)
  with maskReplayWindowTail_id [OF ok] show ?thesis
    by (simp add: ensureLocked_def Let_def)
qed

lemma newReplayWindow_wf: "rw_wf (newReplayWindow n)" "rw_abs (newReplayWindow n) = (0, {})"
  "rw_size (newReplayWindow n) = normalizeReplayWindowSize n"
proof -
  let ?sz = "normalizeReplayWindowSize n"
  have zero: "\<not> wbit (replicate (replayWindowWords ?sz) 0) i" if "i < unat ?sz" for i
    using that unat_normalizeReplayWindowSize(2) [of n] by (simp add: replayWindowWords_eq)
  show "rw_wf (newReplayWindow n)"
    using unat_normalizeReplayWindowSize [of n]
    by (auto simp: rw_wf_def rw_ok_def newReplayWindow_def Let_def replayWindowWords_eq)
  show "rw_abs (newReplayWindow n) = (0, {})"
    using zero unat_normalizeReplayWindowSize [of n]
    by (auto simp: rw_abs_def rw_abs3_def newReplayWindow_def Let_def rbit_def)
  show "rw_size (newReplayWindow n) = ?sz" by (simp add: newReplayWindow_def Let_def)
qed



section \<open>The contract of an anti-replay filter\<close>

text \<open>
  The whole history of a filter: \<open>tracks n st H\<close> says that the abstract state \<open>st\<close> of a window
  of width \<open>n\<close> is what is left of the set \<open>H\<close> of all numbers accepted so far.
\<close>

definition tracks :: "nat \<Rightarrow> window_spec \<Rightarrow> nat set \<Rightarrow> bool" where
  "tracks n st H \<longleftrightarrow> 0 \<notin> H \<and> (\<forall>x \<in> H. x \<le> fst st) \<and> (fst st \<in> H \<or> fst st = 0) \<and>
     snd st = {x \<in> H. fst st < x + n}"

definition fresh :: "nat \<Rightarrow> nat set \<Rightarrow> nat \<Rightarrow> bool" where
  "fresh n H x \<longleftrightarrow> x \<noteq> 0 \<and> x \<notin> H \<and> (\<forall>y \<in> H. y < x + n)"

lemma tracks_init: "tracks n (0, {}) {}"
  by (simp add: tracks_def)

lemma spec_accept_tracks:
  assumes tr: "tracks n st H" and n: "0 < n" and acc: "spec_accept n st x = (st', r)"
  shows "r \<longleftrightarrow> fresh n H x" and "tracks n st' (if r then insert x H else H)"
proof -
  obtain hi S where st: "st = (hi, S)" by (cases st)
  have H: "0 \<notin> H" "\<And>y. y \<in> H \<Longrightarrow> y \<le> hi" "hi \<in> H \<or> hi = 0" "S = {y \<in> H. hi < y + n}"
    using tr by (auto simp: tracks_def st)
  have "(r \<longleftrightarrow> fresh n H x) \<and> tracks n st' (if r then insert x H else H)"
  proof (cases "x > hi")
    case True
    then have "fresh n H x" using H(2) n by (fastforce simp: fresh_def)
    moreover have "r" "st' = (x, insert x {y \<in> S. x < y + n})"
      using True acc by (auto simp: spec_accept_def st)
    ultimately show ?thesis using True H n by (fastforce simp: tracks_def)
  next
    case False
    then have "fresh n H x \<longleftrightarrow> x \<noteq> 0 \<and> \<not> (hi \<ge> x + n \<or> x \<in> S)"
      using H n by (fastforce simp: fresh_def)
    with False acc H show ?thesis
      by (auto simp: spec_accept_def st tracks_def split: if_splits)
  qed
  then show "r \<longleftrightarrow> fresh n H x" and "tracks n st' (if r then insert x H else H)" by blast+
qed

text \<open>The numbers a batch call reports as accepted.\<close>

definition accepted :: "u64 list \<Rightarrow> bool list \<Rightarrow> u64 list" where
  "accepted seqs oks = map fst (filter snd (zip seqs oks))"

lemma accepted_simps [simp]:
  "accepted [] oks = []" "accepted seqs [] = []"
  "accepted (x # xs) (b # bs) = (if b then x # accepted xs bs else accepted xs bs)"
  by (simp_all add: accepted_def)

lemma accepted_all: "length oks = length seqs \<Longrightarrow> list_all id oks \<Longrightarrow> accepted seqs oks = seqs"
  by (induction seqs oks rule: list_induct2') simp_all

primrec accept_seq :: "('w \<Rightarrow> u64 \<Rightarrow> 'w \<times> bool) \<Rightarrow> u64 list \<Rightarrow> 'w \<Rightarrow> 'w \<times> bool list" where
  "accept_seq accept [] w = (w, [])"
| "accept_seq accept (x # xs) w =
     (let (w, ok) = accept w x; (w, oks) = accept_seq accept xs w in (w, ok # oks))"

locale anti_replay =
  fixes accept :: "'w \<Rightarrow> u64 \<Rightarrow> 'w \<times> bool"
    and inv :: "'w \<Rightarrow> bool" and width :: "'w \<Rightarrow> nat" and view :: "'w \<Rightarrow> window_spec"
  assumes accept_refines: "inv w \<Longrightarrow> accept w x = (w', r) \<Longrightarrow>
      inv w' \<and> width w' = width w \<and> spec_accept (width w) (view w) (unat x) = (view w', r)"
    and width_pos: "inv w \<Longrightarrow> 0 < width w"
begin

text \<open>The invariant with the history of accepted numbers, in order.\<close>

definition history :: "'w \<Rightarrow> u64 list \<Rightarrow> bool" where
  "history w L \<longleftrightarrow> inv w \<and> tracks (width w) (view w) (unat ` set L) \<and> distinct L"

lemma history_accept:
  assumes "history w L" and "accept w x = (w', r)"
  shows "r \<longleftrightarrow> fresh (width w) (unat ` set L) (unat x)"
    and "history w' (L @ (if r then [x] else []))" and "width w' = width w"
proof -
  have w: "inv w" "tracks (width w) (view w) (unat ` set L)" "distinct L"
    using assms(1) by (simp_all add: history_def)
  have w': "inv w'" "width w' = width w" "spec_accept (width w) (view w) (unat x) = (view w', r)"
    using accept_refines [OF w(1) assms(2)] by simp_all
  show "width w' = width w" by (rule w')
  show r: "r \<longleftrightarrow> fresh (width w) (unat ` set L) (unat x)"
    by (rule spec_accept_tracks(1) [OF w(2) width_pos [OF w(1)] w'(3)])
  have "tracks (width w) (view w') (if r then insert (unat x) (unat ` set L) else unat ` set L)"
    by (rule spec_accept_tracks(2) [OF w(2) width_pos [OF w(1)] w'(3)])
  with w w' r show "history w' (L @ (if r then [x] else []))"
    by (cases r) (auto simp: history_def fresh_def)
qed

lemma history_accept_seq:
  "history w L \<Longrightarrow> accept_seq accept xs w = (w', oks) \<Longrightarrow>
   history w' (L @ accepted xs oks) \<and> width w' = width w \<and> length oks = length xs"
proof (induction xs arbitrary: w L oks)
  case (Cons x xs)
  obtain w1 ok where one: "accept w x = (w1, ok)" by (cases "accept w x")
  obtain oks' where rest: "accept_seq accept xs w1 = (w', oks')" "oks = ok # oks'"
    using Cons.prems(2) one by (auto split: prod.splits)
  have "history w1 (L @ (if ok then [x] else []))" "width w1 = width w"
    using history_accept [OF Cons.prems(1) one] by simp_all
  with Cons.IH [OF this(1) rest(1)] rest(2) show ?case by (cases ok) simp_all
qed simp

end


lemma replayWindow_Accept_refines:
  assumes wf: "rw_wf w" and acc: "replayWindow_Accept w x = (w', r)"
  shows "rw_wf w' \<and> unat (rw_size w') = unat (rw_size w) \<and>
    spec_accept (unat (rw_size w)) (rw_abs w) (unat x) = (rw_abs w', r)"
proof (cases "x = 0")
  case True
  with wf acc show ?thesis by (simp add: replayWindow_Accept_def spec_accept_def split: prod.split)
next
  case False
  obtain hi hd sn ok where *: "replayWindowAcceptLocked (rw_highest w) (rw_head w) (rw_seen w) (rw_size w) x = ((hi, hd, sn), ok)"
    by (metis prod.exhaust)
  with False acc wf have "w' = w\<lparr>rw_highest := hi, rw_head := hd, rw_seen := sn\<rparr>" "r = ok"
    by (simp_all add: replayWindow_Accept_def ensureLocked_id Let_def)
  with replayWindowAcceptLocked_refines [OF _ *] wf show ?thesis
    by (simp add: rw_wf_def rw_abs_def)
qed

interpretation rw: anti_replay replayWindow_Accept rw_wf "\<lambda>w. unat (rw_size w)" rw_abs
proof unfold_locales
  show "0 < unat (rw_size w)" if "rw_wf w" for w
    using that rw_okD(1) [of "rw_head w" "rw_seen w" "rw_size w"] by (simp add: rw_wf_def)
qed (rule replayWindow_Accept_refines)

text \<open>The batch operations in terms of the single one.\<close>

lemma replayWindow_Accept_locked:
  assumes "rw_wf w"
  shows "replayWindow_Accept w x =
    (let ((hi, hd, sn), ok) = replayWindowAcceptLocked (rw_highest w) (rw_head w) (rw_seen w) (rw_size w) x
     in (w\<lparr>rw_highest := hi, rw_head := hd, rw_seen := sn\<rparr>, ok))"
  using assms by (cases "x = 0") (simp_all add: replayWindow_Accept_def replayWindowAcceptLocked_def ensureLocked_id)

lemma acceptEach_eq: "rw_wf w \<Longrightarrow> acceptEach xs w = accept_seq replayWindow_Accept xs w"
proof (induction xs arbitrary: w)
  case (Cons x xs)
  obtain w1 ok where acc: "replayWindow_Accept w x = (w1, ok)" by (cases "replayWindow_Accept w x")
  then have "rw_wf w1" using replayWindow_Accept_refines [OF Cons.prems] by blast
  with Cons acc show ?case
    by (auto simp: replayWindow_Accept_locked Let_def split: prod.splits)
qed simp

lemma replayWindow_AcceptBatchResults_eq:
  "rw_wf w \<Longrightarrow> replayWindow_AcceptBatchResults w xs = accept_seq replayWindow_Accept xs w"
  by (simp add: replayWindow_AcceptBatchResults_def ensureLocked_id acceptEach_eq)

lemma acceptAll_acceptEach:
  "acceptEach xs w = (w', oks) \<Longrightarrow>
   acceptAll (rw_size w) xs (rw_highest w, rw_head w, rw_seen w) =
     (if list_all id oks then Some (rw_highest w', rw_head w', rw_seen w') else None) \<and>
   rw_size w' = rw_size w \<and> replay_window.more w' = replay_window.more w"
proof (induction xs arbitrary: w oks)
  case (Cons x xs)
  obtain hi hd sn ok where
    *: "replayWindowAcceptLocked (rw_highest w) (rw_head w) (rw_seen w) (rw_size w) x = ((hi, hd, sn), ok)"
    by (metis prod.exhaust)
  let ?w1 = "w\<lparr>rw_highest := hi, rw_head := hd, rw_seen := sn\<rparr>"
  obtain oks' where "acceptEach xs ?w1 = (w', oks')" "oks = ok # oks'"
    using Cons.prems * by (auto split: prod.splits)
  with Cons.IH [of ?w1 oks'] * show ?case by simp
qed simp


section \<open>Properties\<close>

text \<open>
  Sequences of calls on one window, in the order in which the mutex serialises them, with
  the numbers each call lets through.
\<close>

datatype rw_op = OpAccept u64 | OpBatch "u64 list" | OpBatchResults "u64 list" | OpSize

fun rw_step :: "rw_op \<Rightarrow> replay_window \<Rightarrow> replay_window \<times> u64 list" where
  "rw_step (OpAccept x) w = (let (w, ok) = replayWindow_Accept w x in (w, if ok then [x] else []))"
| "rw_step (OpBatch xs) w = (let (w, ok) = replayWindow_AcceptBatch w xs in (w, if ok then xs else []))"
| "rw_step (OpBatchResults xs) w =
     (let (w, oks) = replayWindow_AcceptBatchResults w xs in (w, accepted xs oks))"
| "rw_step OpSize w = (fst (replayWindow_Size w), [])"

primrec rw_run :: "rw_op list \<Rightarrow> replay_window \<Rightarrow> replay_window \<times> u64 list" where
  "rw_run [] w = (w, [])"
| "rw_run (op # ops) w = (let (w, xs) = rw_step op w; (w, ys) = rw_run ops w in (w, xs @ ys))"

lemma replayWindow_AcceptBatch_cases:
  "replayWindow_AcceptBatch w xs =
    (let (w', oks) = replayWindow_AcceptBatchResults w xs in
     if list_all id oks then (w', True) else (ensureLocked w, False))"
proof (cases "xs = []")
  case True
  then show ?thesis by (simp add: replayWindow_AcceptBatch_def replayWindow_AcceptBatchResults_def)
next
  case False
  obtain w' oks where each: "acceptEach xs (ensureLocked w) = (w', oks)"
    by (cases "acceptEach xs (ensureLocked w)")
  have "w' = ensureLocked w\<lparr>rw_highest := rw_highest w', rw_head := rw_head w', rw_seen := rw_seen w'\<rparr>"
    using acceptAll_acceptEach [OF each] by (cases w'; cases "ensureLocked w") simp
  with False acceptAll_acceptEach [OF each] each show ?thesis
    by (simp add: replayWindow_AcceptBatch_def replayWindow_AcceptBatchResults_def Let_def)
qed

lemma rw_step_history:
  assumes hist: "rw.history w L" and step: "rw_step op w = (w', ys)"
  shows "rw.history w' (L @ ys) \<and> unat (rw_size w') = unat (rw_size w)"
proof -
  have wf: "rw_wf w" using hist by (simp add: rw.history_def)
  note id = ensureLocked_id [OF wf] and seq = replayWindow_AcceptBatchResults_eq [OF wf]
  show ?thesis
  proof (cases op)
    case (OpAccept x)
    then show ?thesis
      using step rw.history_accept [OF hist, of x] by (auto split: prod.splits)
  next
    case (OpBatch xs)
    obtain w1 oks where run: "accept_seq replayWindow_Accept xs w = (w1, oks)"
      by (cases "accept_seq replayWindow_Accept xs w")
    then show ?thesis
      using step hist OpBatch rw.history_accept_seq [OF hist run] accepted_all [of oks xs]
      by (auto simp: replayWindow_AcceptBatch_cases seq id split: if_splits)
  next
    case (OpBatchResults xs)
    then show ?thesis
      using step rw.history_accept_seq [OF hist, of xs] by (auto simp: seq split: prod.splits)
  next
    case OpSize
    then show ?thesis
      using step hist by (simp add: replayWindow_Size_def id)
  qed
qed

lemma rw_run_history:
  "rw.history w L \<Longrightarrow> rw_run ops w = (w', ys) \<Longrightarrow>
   rw.history w' (L @ ys) \<and> unat (rw_size w') = unat (rw_size w)"
proof (induction ops arbitrary: w L ys)
  case (Cons op ops)
  obtain w1 xs where one: "rw_step op w = (w1, xs)" by (cases "rw_step op w")
  obtain zs where "rw_run ops w1 = (w', zs)" "ys = xs @ zs"
    using Cons.prems(2) one by (auto split: prod.splits)
  with Cons.IH [of w1 "L @ xs" zs] rw_step_history [OF Cons.prems(1) one] show ?case by simp
qed simp

lemma rw_new_history: "rw.history (newReplayWindow n) []"
  by (simp add: rw.history_def newReplayWindow_wf tracks_init)

text \<open>
  C2: replay protection.  Over any sequence of calls on a new window of any requested size,
  single accepts and both batch operations mixed, no sequence number is let through twice.
\<close>
theorem rw_no_replay: "distinct (snd (rw_run ops (newReplayWindow n)))"
proof -
  obtain w ys where run: "rw_run ops (newReplayWindow n) = (w, ys)"
    by (cases "rw_run ops (newReplayWindow n)")
  from rw_run_history [OF rw_new_history run] show ?thesis
    by (simp add: run rw.history_def)
qed

text \<open>
  C3: exact acceptance.  After any sequence of calls, \<open>Accept\<close> lets a number through if and only
  if it is non-zero, was not let through before, and is newer than every accepted number
  minus the (normalised) window size: no fresh number inside the window is lost.
\<close>
theorem rw_accept_iff:
  "snd (replayWindow_Accept (fst (rw_run ops (newReplayWindow n))) x) \<longleftrightarrow>
     x \<noteq> 0 \<and> x \<notin> set (snd (rw_run ops (newReplayWindow n))) \<and>
     (\<forall>y \<in> set (snd (rw_run ops (newReplayWindow n))).
        unat y < unat x + unat (normalizeReplayWindowSize n))"
proof -
  obtain w ys where run: "rw_run ops (newReplayWindow n) = (w, ys)"
    by (cases "rw_run ops (newReplayWindow n)")
  obtain w' r where acc: "replayWindow_Accept w x = (w', r)" by (cases "replayWindow_Accept w x")
  have hist: "rw.history w ys" "unat (rw_size w) = unat (normalizeReplayWindowSize n)"
    using rw_run_history [OF rw_new_history run] by (simp_all add: newReplayWindow_wf)
  from rw.history_accept(1) [OF hist(1) acc] show ?thesis
    by (auto simp: run acc hist(2) fresh_def unat_eq_0 dest!: unsigned_word_eqI)
qed

theorem rw_accept_iff_witness:
  "snd (replayWindow_Accept (fst (rw_run [OpAccept 100] (newReplayWindow 64))) 80) \<and>
   \<not> snd (replayWindow_Accept (fst (rw_run [OpAccept 100] (newReplayWindow 64))) 100) \<and>
   \<not> snd (replayWindow_Accept (fst (rw_run [OpAccept 100] (newReplayWindow 64))) 36)"
proof -
  have "snd (rw_run [OpAccept 100] (newReplayWindow 64)) = [100]"
    using rw_accept_iff [of "[]" 64 100] by (simp add: split_beta)
  then show ?thesis
    unfolding rw_accept_iff by (simp add: normalizeReplayWindowSize_def)
qed

text \<open>
  A batch is atomic.  \<open>AcceptBatch\<close> succeeds exactly when \<open>AcceptBatchResults\<close> on the same
  state would accept every number, with the same final window; otherwise it reports failure
  and leaves the (normalised) window unchanged.
\<close>
theorem rw_batch_atomic:
  "replayWindow_AcceptBatch w xs =
    (let (w', oks) = replayWindow_AcceptBatchResults w xs in
     if list_all id oks then (w', True) else (ensureLocked w, False))"
  by (rule replayWindow_AcceptBatch_cases)

text \<open>
  C4: refinement.  On every well-formed window, \<open>Accept\<close> on the circular bitmap keeps the window
  well formed, keeps its size, and acts on the abstract set of accepted numbers as the
  specification \<open>spec_accept\<close> does, with the same answer.
\<close>
theorem rw_accept_refines_spec:
  assumes "rw_wf w" and "replayWindow_Accept w x = (w', r)"
  shows "rw_wf w' \<and> rw_size w' = rw_size w \<and>
    spec_accept (unat (rw_size w)) (rw_abs w) (unat x) = (rw_abs w', r)"
  using replayWindow_Accept_refines [OF assms] by (simp add: word_unat_eq_iff)

theorem rw_accept_refines_spec_witness:
  "rw_wf (newReplayWindow 100) \<and> rw_wf (fst (replayWindow_Accept (newReplayWindow 100) 7)) \<and>
   rw_abs (fst (replayWindow_Accept (newReplayWindow 100) 7)) = (7, {7})"
proof -
  obtain w' r where acc: "replayWindow_Accept (newReplayWindow 100) 7 = (w', r)"
    by (cases "replayWindow_Accept (newReplayWindow 100) 7")
  show ?thesis
    using rw_accept_refines_spec [OF newReplayWindow_wf(1) acc]
    by (simp add: acc newReplayWindow_wf spec_accept_def)
qed

end
