(* ===== verification/TixTCP.thy ===== *)
theory TixTCP
  imports KernelUDP
begin

unbundle bit_operations_syntax

text \<open>
  The TIX-TCP codec (\<^verbatim>\<open>internal/transport/tixtcp\<close>): the 40-byte TIXT frame with its flag
  and fragment rules, streams of frames, the validation and completion of inner TCP
  checksums (\<^verbatim>\<open>frame.go\<close>), and the TCP-shaped IPv4 packet around a frame
  (\<^verbatim>\<open>packet.go\<close>) with its unrolled Internet checksum.
\<close>

section \<open>Checksum\<close>

text \<open>The three loops of \<open>checksumAddBytes\<close>: 32 bytes, 8 bytes, 2 bytes at a time.\<close>

function tix_add32 :: "u32 \<Rightarrow> bytes \<Rightarrow> u32 \<times> bytes" where
  "tix_add32 sm payload =
     (if 32 \<le> length payload then
        let sm = sm + ucast (Uint16 (subslice 0 2 payload));
            sm = sm + ucast (Uint16 (subslice 2 4 payload));
            sm = sm + ucast (Uint16 (subslice 4 6 payload));
            sm = sm + ucast (Uint16 (subslice 6 8 payload));
            sm = sm + ucast (Uint16 (subslice 8 10 payload));
            sm = sm + ucast (Uint16 (subslice 10 12 payload));
            sm = sm + ucast (Uint16 (subslice 12 14 payload));
            sm = sm + ucast (Uint16 (subslice 14 16 payload));
            sm = sm + ucast (Uint16 (subslice 16 18 payload));
            sm = sm + ucast (Uint16 (subslice 18 20 payload));
            sm = sm + ucast (Uint16 (subslice 20 22 payload));
            sm = sm + ucast (Uint16 (subslice 22 24 payload));
            sm = sm + ucast (Uint16 (subslice 24 26 payload));
            sm = sm + ucast (Uint16 (subslice 26 28 payload));
            sm = sm + ucast (Uint16 (subslice 28 30 payload));
            sm = sm + ucast (Uint16 (subslice 30 32 payload))
        in tix_add32 sm (drop 32 payload)
      else (sm, payload))"
  by auto
termination by (relation "measure (\<lambda>(_, p). length p)") auto

function tix_add8 :: "u32 \<Rightarrow> bytes \<Rightarrow> u32 \<times> bytes" where
  "tix_add8 sm payload =
     (if 8 \<le> length payload then
        let v = Uint64 (take 8 payload);
            sm = sm + ucast (drop_bit 48 v);
            sm = sm + ucast (drop_bit 32 v AND 0xffff);
            sm = sm + ucast (drop_bit 16 v AND 0xffff);
            sm = sm + ucast (v AND 0xffff)
        in tix_add8 sm (drop 8 payload)
      else (sm, payload))"
  by auto
termination by (relation "measure (\<lambda>(_, p). length p)") auto

function tix_add2 :: "u32 \<Rightarrow> bytes \<Rightarrow> u32 \<times> bytes" where
  "tix_add2 sm payload =
     (if 1 < length payload then tix_add2 (sm + ucast (Uint16 (take 2 payload))) (drop 2 payload)
      else (sm, payload))"
  by auto
termination by (relation "measure (\<lambda>(_, p). length p)") auto

declare tix_add32.simps [simp del] tix_add8.simps [simp del] tix_add2.simps [simp del]

definition tix_checksumAddBytes :: "u32 \<Rightarrow> bytes \<Rightarrow> u32" where
  "tix_checksumAddBytes sm payload =
     (let (sm, payload) = tix_add32 sm payload;
          (sm, payload) = tix_add8 sm payload;
          (sm, payload) = tix_add2 sm payload
      in if length payload = 1 then sm + push_bit 8 (ucast (payload ! 0)) else sm)"

function tix_checksumFold :: "u32 \<Rightarrow> u16" where
  "tix_checksumFold sm =
     (if sm > 0xffff then tix_checksumFold ((sm AND 0xffff) + drop_bit 16 sm) else NOT (ucast sm))"
  by auto

lemma carry_loop_guard: "0xffff < (s :: u32) \<longleftrightarrow> drop_bit 16 s \<noteq> 0"
  unfolding high_half_iff by (auto simp: word_less_nat_alt)

termination tix_checksumFold
  by (relation "measure unat") (auto simp: carry_loop_guard intro: carry_step_less)

declare tix_checksumFold.simps [simp del]

definition tix_checksum :: "bytes \<Rightarrow> u16" where
  "tix_checksum payload = tix_checksumFold (tix_checksumAddBytes 0 payload)"

text \<open>The TCP checksum skips its own field, bytes 16 and 17.\<close>

definition tix_tcpChecksum :: "bytes \<Rightarrow> bytes \<Rightarrow> bytes \<Rightarrow> u16" where
  "tix_tcpChecksum src dst tcp =
     (let sm = tix_checksumAddBytes 0 src;
          sm = tix_checksumAddBytes sm dst;
          sm = sm + 6;
          sm = sm + word_of_nat (length tcp)
      in if length tcp \<le> 16 then tix_checksumFold (tix_checksumAddBytes sm tcp)
         else
           let sm = tix_checksumAddBytes sm (take 16 tcp);
               sm = (if length tcp > 18 then tix_checksumAddBytes sm (drop 18 tcp) else sm)
           in tix_checksumFold sm)"

definition tix_tcpPseudoHeaderSeed :: "bytes \<Rightarrow> bytes \<Rightarrow> nat \<Rightarrow> u16" where
  "tix_tcpPseudoHeaderSeed src dst tcpLen =
     (let sm = tix_checksumAddBytes 0 src;
          sm = tix_checksumAddBytes sm dst;
          sm = sm + 6;
          sm = sm + word_of_nat tcpLen
      in NOT (tix_checksumFold sm))"

text \<open>The unrolled loops agree with the plain loop, also when the accumulator wraps around.\<close>

lemma add_step:
  assumes "i + 2 \<le> length p"
  shows "kudp_checksumAddBytes s (drop i p) =
    kudp_checksumAddBytes (s + ucast (Uint16 (subslice i (i + 2) p))) (drop (i + 2) p)"
proof -
  obtain a b rest where d: "drop i p = a # b # rest"
    using assms by (metis Cons_nth_drop_Suc Suc_eq_plus1 Suc_le_lessD add_2_eq_Suc' less_SucI not_less_eq)
  then have "drop (i + 2) p = rest" by (metis drop_drop add.commute drop_Suc_Cons drop_0 numeral_2_eq_2)
  with d show ?thesis by (simp add: subslice_def)
qed

lemma tix_add32_eq:
  "tix_add32 s p = (s', p') \<Longrightarrow> kudp_checksumAddBytes s p = kudp_checksumAddBytes s' p'"
proof (induction s p rule: tix_add32.induct)
  case (1 s p)
  show ?case
  proof (cases "32 \<le> length p")
    case True
    then have "kudp_checksumAddBytes s p = kudp_checksumAddBytes (s + ucast (Uint16 (subslice 0 2 p))) (drop 2 p)"
      using add_step [of 0 p s] by (simp add: numeral_2_eq_2)
    with 1 True show ?thesis by (simp add: tix_add32.simps [of s p] Let_def add_step)
  next
    case False
    with 1(2) show ?thesis by (simp add: tix_add32.simps [of s p])
  qed
qed


lemma be_nat_append: "be_nat (xs @ ys) = be_nat xs * 256 ^ length ys + be_nat ys"
  by (induction xs) (simp_all add: power_add algebra_simps)

lemma four_digits:
  fixes a b c d :: nat
  assumes "b < 65536" and "c < 65536" and "d < 65536" and n: "n = ((a * 65536 + b) * 65536 + c) * 65536 + d"
  shows "n div 281474976710656 = a" "n div 4294967296 mod 65536 = b" "n div 65536 mod 65536 = c"
    "n mod 65536 = d"
proof -
  have digit: "(m * 65536 + k) div 65536 = m" "(m * 65536 + k) mod 65536 = k" if "k < 65536" for m k :: nat
    using that by simp_all
  have c1: "n div 65536 = (a * 65536 + b) * 65536 + c" "n mod 65536 = d"
    unfolding n by (rule digit [OF assms(3)])+
  have c2: "n div 65536 div 65536 = a * 65536 + b" unfolding c1 by (rule digit [OF assms(2)])
  have c3: "n div 65536 div 65536 div 65536 = a" unfolding c2 by (rule digit [OF assms(1)])
  show "n mod 65536 = d" by (rule c1)
  show "n div 281474976710656 = a" using c3 by (simp add: div_mult2_eq [symmetric])
  show "n div 4294967296 mod 65536 = b" using c2 digit(2) [OF assms(1), of a] by (simp add: div_mult2_eq [symmetric])
  show "n div 65536 mod 65536 = c" unfolding c1 by (rule digit [OF assms(2)])
qed

lemma unat_and_ffff: "unat (v AND 0xffff :: u64) = unat v mod 65536"
  using take_bit_eq_mask [of 16 v] unsigned_take_bit_eq [where ?'b = 64, where ?'a = nat, of 16 v]
  by (simp add: mask_eq_exp_minus_1 take_bit_eq_mod)

lemma unat_Uint16_exact: "length bs = 2 \<Longrightarrow> unat (Uint16 bs) = be_nat bs"
  using be_nat_bound [of bs] by (simp add: Uint16_def unat_of_nat)

lemma Uint64_halves:
  assumes "8 \<le> length p"
  shows "ucast (drop_bit 48 (Uint64 (take 8 p))) = (ucast (Uint16 (subslice 0 2 p)) :: u32)"
    "ucast (drop_bit 32 (Uint64 (take 8 p)) AND 0xffff) = (ucast (Uint16 (subslice 2 4 p)) :: u32)"
    "ucast (drop_bit 16 (Uint64 (take 8 p)) AND 0xffff) = (ucast (Uint16 (subslice 4 6 p)) :: u32)"
    "ucast (Uint64 (take 8 p) AND 0xffff) = (ucast (Uint16 (subslice 6 8 p)) :: u32)"
proof -
  define v where "v = Uint64 (take 8 p)"
  define a b c d where "a = unat (Uint16 (subslice 0 2 p))" and "b = unat (Uint16 (subslice 2 4 p))"
    and "c = unat (Uint16 (subslice 4 6 p))" and "d = unat (Uint16 (subslice 6 8 p))"
  have lt: "a < 65536" "b < 65536" "c < 65536" "d < 65536"
    by (simp_all add: a_def b_def c_def d_def unat_u16_less)
  have "take 8 p = subslice 0 2 p @ subslice 2 4 p @ subslice 4 6 p @ subslice 6 8 p"
    by (simp add: subslice_append subslice_append_assoc) (simp add: subslice_def)
  then have "be_nat (take 8 p) = ((a * 65536 + b) * 65536 + c) * 65536 + d"
    using assms by (simp add: be_nat_append unat_Uint16_exact a_def b_def c_def d_def)
  moreover have "unat v = be_nat (take 8 p)"
    using be_nat_bound [of "take 8 p"] assms by (simp add: v_def Uint64_def unat_of_nat)
  ultimately have "unat v = ((a * 65536 + b) * 65536 + c) * 65536 + d" by (simp only:)
  note parts = four_digits [OF lt(2-4) this]
  have shift: "unat (drop_bit k v) = unat v div 2 ^ k" for k
    using unat_drop_bit_eq [of k v] by (simp add: drop_bit_eq_div)
  have u32: "unat (ucast x :: u32) = unat x" if "unat x < 65536" for x :: u64
    using that by (simp add: unsigned_ucast_eq take_bit_eq_mod)
  have u16: "unat (ucast x :: u32) = unat x" for x :: u16
    using unat_u16_less [of x] by (simp add: unsigned_ucast_eq take_bit_eq_mod)
  show "ucast (drop_bit 48 (Uint64 (take 8 p))) = (ucast (Uint16 (subslice 0 2 p)) :: u32)"
    "ucast (drop_bit 32 (Uint64 (take 8 p)) AND 0xffff) = (ucast (Uint16 (subslice 2 4 p)) :: u32)"
    "ucast (drop_bit 16 (Uint64 (take 8 p)) AND 0xffff) = (ucast (Uint16 (subslice 4 6 p)) :: u32)"
    "ucast (Uint64 (take 8 p) AND 0xffff) = (ucast (Uint16 (subslice 6 8 p)) :: u32)"
    unfolding v_def [symmetric] word_unat_eq_iff
    using lt parts
    by (simp_all add: u32 u16 unat_and_ffff shift a_def b_def c_def d_def)
qed

lemma tix_add8_eq:
  "tix_add8 s p = (s', p') \<Longrightarrow> kudp_checksumAddBytes s p = kudp_checksumAddBytes s' p'"
proof (induction s p rule: tix_add8.induct)
  case (1 s p)
  show ?case
  proof (cases "8 \<le> length p")
    case True
    then have "kudp_checksumAddBytes s p = kudp_checksumAddBytes (s + ucast (Uint16 (subslice 0 2 p))) (drop 2 p)"
      using add_step [of 0 p s] by (simp add: numeral_2_eq_2)
    with 1 True show ?thesis
      by (simp add: tix_add8.simps [of s p] Let_def add_step Uint64_halves)
  next
    case False
    with 1(2) show ?thesis by (simp add: tix_add8.simps [of s p])
  qed
qed

lemma tix_add2_eq:
  "tix_add2 s p = (s', p') \<Longrightarrow>
   kudp_checksumAddBytes s p = kudp_checksumAddBytes s' p' \<and> length p' \<le> 1"
proof (induction s p rule: tix_add2.induct)
  case (1 s p)
  show ?case
  proof (cases "1 < length p")
    case True
    then have "kudp_checksumAddBytes s p = kudp_checksumAddBytes (s + ucast (Uint16 (take 2 p))) (drop 2 p)"
      using add_step [of 0 p s] by (simp add: numeral_2_eq_2 subslice_def)
    with 1 True show ?thesis by (simp add: tix_add2.simps [of s p])
  next
    case False
    with 1(2) show ?thesis by (simp add: tix_add2.simps [of s p])
  qed
qed

lemma tix_checksumAddBytes_eq: "tix_checksumAddBytes s p = kudp_checksumAddBytes s p"
proof -
  obtain s1 p1 s2 p2 s3 p3 where *: "tix_add32 s p = (s1, p1)" "tix_add8 s1 p1 = (s2, p2)"
    "tix_add2 s2 p2 = (s3, p3)" by (metis prod.exhaust)
  then have "kudp_checksumAddBytes s p = kudp_checksumAddBytes s3 p3" "length p3 \<le> 1"
    using tix_add32_eq [OF *(1)] tix_add8_eq [OF *(2)] tix_add2_eq [OF *(3)] by simp_all
  with * show ?thesis
    by (cases p3) (auto simp: tix_checksumAddBytes_def)
qed

interpretation tix_ck: inet_checksum tix_checksumAddBytes tix_checksumFold
proof unfold_locales
  show "unat (tix_checksumAddBytes s bs) = unat s + bsum bs" if "unat s + bsum bs < 4294967296" for s bs
    using that by (simp add: tix_checksumAddBytes_eq kudp_checksumAddBytes_spec)
  show "unat (tix_checksumFold s) = 65535 - oc (unat s)" for s
    by (rule fold_loop_spec) (use tix_checksumFold.simps in \<open>simp add: carry_loop_guard\<close>)
qed


section \<open>Frames\<close>

record tix_frame =
  tf_Flags :: u8
  tf_FlowID :: u64
  tf_Epoch :: u64
  tf_Sequence :: u64
  tf_FragmentIndex :: u16
  tf_FragmentCount :: u16
  tf_Payload :: bytes

datatype tix_error =
    TPayloadTooLarge | TPayloadInvalid | TBufferTooSmall
  | TTooShort | TBadMagic | TBadVersion u8 | TBadHeaderLength nat | TLengthMismatch
  | TUnknownFlags u8 | TGSOFlags u8 | TGSOMetadata u16 u16
  | TIndexNeedsCount u16 | TFragmentNeedsCount | TIndexOutsideCount u16 u16 | TPartialMetadata
  | TInnerTooShort | TInnerNotIPv4 | TInnerHeaderLength nat | TInnerNotTCP
  | TInnerTotalLength nat | TInnerTCPHeaderLength nat
  | TSeedMismatch u16 u16 | TInnerChecksum u16 u16 | TGSONoPayload | TGSOSegments u16 u16 nat nat
  | TNotIPv4Underlay | TPortsRequired | TPacketTooLarge
  | TNotIPv4 | TNotTCP u8 | TBadTotalLength nat | TBadDataOffset nat
  | TErrChecksumIPv4 | TErrChecksumTCP

definition tix_Magic :: u32 where "tix_Magic = 0x54495854"
definition tix_Version :: u8 where "tix_Version = 1"
abbreviation (input) tix_HeaderLen :: nat where "tix_HeaderLen \<equiv> 40"
abbreviation (input) tix_MaxPayload :: nat where "tix_MaxPayload \<equiv> 65536"

definition FlagEncrypted :: u8 where "FlagEncrypted = 1"
definition FlagKernelOpened :: u8 where "FlagKernelOpened = 2"
definition FlagCryptoFragment :: u8 where "FlagCryptoFragment = 4"
definition FlagInnerIPv4 :: u8 where "FlagInnerIPv4 = 8"
definition FlagInnerTCPChecksumPartial :: u8 where "FlagInnerTCPChecksumPartial = 16"
definition FlagInnerGSO :: u8 where "FlagInnerGSO = 32"
definition KnownFlags :: u8 where
  "KnownFlags = FlagEncrypted OR FlagKernelOpened OR FlagCryptoFragment OR FlagInnerIPv4 OR
     FlagInnerTCPChecksumPartial OR FlagInnerGSO"

definition validateFrameFlags :: "u8 \<Rightarrow> u16 \<Rightarrow> u16 \<Rightarrow> tix_error + unit" where
  "validateFrameFlags flags fragmentIndex fragmentCount =
     (if flags AND NOT KnownFlags \<noteq> 0 then Inl (TUnknownFlags (flags AND NOT KnownFlags))
      else if flags AND FlagInnerGSO \<noteq> 0 then
        if flags AND (FlagInnerIPv4 OR FlagInnerTCPChecksumPartial) \<noteq> FlagInnerIPv4 OR FlagInnerTCPChecksumPartial \<or>
           flags AND (FlagEncrypted OR FlagKernelOpened OR FlagCryptoFragment) \<noteq> 0
        then Inl (TGSOFlags flags)
        else if fragmentIndex = 0 \<or> fragmentCount < 2 then Inl (TGSOMetadata fragmentIndex fragmentCount)
        else Inr ()
      else if fragmentCount = 0 \<and> fragmentIndex \<noteq> 0 then Inl (TIndexNeedsCount fragmentIndex)
      else if fragmentCount = 0 \<and> flags AND FlagCryptoFragment \<noteq> 0 then Inl TFragmentNeedsCount
      else if fragmentCount \<noteq> 0 \<and> fragmentIndex \<ge> fragmentCount
        then Inl (TIndexOutsideCount fragmentIndex fragmentCount)
      else if flags AND FlagInnerTCPChecksumPartial = 0 then Inr ()
      else if flags AND FlagInnerIPv4 = 0 \<or> flags AND FlagCryptoFragment \<noteq> 0 \<or>
              flags AND (FlagEncrypted OR FlagKernelOpened) = FlagEncrypted OR FlagKernelOpened \<or>
              fragmentIndex \<noteq> 0 \<or> fragmentCount \<noteq> 0
        then Inl TPartialMetadata
      else Inr ())"

definition innerTCPMeta :: "bytes \<Rightarrow> tix_error + (bytes \<times> bytes \<times> nat \<times> nat)" where
  "innerTCPMeta packet =
     (if length packet < 40 then Inl TInnerTooShort
      else if drop_bit 4 (packet ! 0) \<noteq> 4 then Inl TInnerNotIPv4
      else let ipHeaderLen = unat (packet ! 0 AND 0x0f) * 4 in
        if ipHeaderLen < 20 \<or> length packet < ipHeaderLen + 20 then Inl (TInnerHeaderLength ipHeaderLen)
        else if packet ! 9 \<noteq> 6 \<or> Uint16 (subslice 6 8 packet) AND 0x3fff \<noteq> 0 then Inl TInnerNotTCP
        else let totalLen = unat (Uint16 (subslice 2 4 packet)) in
          if totalLen \<noteq> length packet \<or> totalLen < ipHeaderLen + 20 then Inl (TInnerTotalLength totalLen)
          else let tcp = subslice ipHeaderLen totalLen packet;
                   tcpHeaderSize = unat (drop_bit 4 (tcp ! 12)) * 4 in
            if tcpHeaderSize < 20 \<or> length tcp < tcpHeaderSize then Inl (TInnerTCPHeaderLength tcpHeaderSize)
            else Inr (subslice 12 16 packet, subslice 16 20 packet, ipHeaderLen, totalLen))"

definition ValidateInnerTCPChecksumPartial :: "bytes \<Rightarrow> tix_error + unit" where
  "ValidateInnerTCPChecksumPartial packet =
     (case innerTCPMeta packet of
        Inl e \<Rightarrow> Inl e
      | Inr (src, dst, ipHeaderLen, totalLen) \<Rightarrow>
          let tcp = subslice ipHeaderLen totalLen packet;
              seed = tix_tcpPseudoHeaderSeed src dst (length tcp);
              got = Uint16 (subslice 16 18 tcp)
          in if got \<noteq> seed then Inl (TSeedMismatch got seed) else Inr ())"

definition ValidateInnerTCPChecksum :: "bytes \<Rightarrow> tix_error + unit" where
  "ValidateInnerTCPChecksum packet =
     (case innerTCPMeta packet of
        Inl e \<Rightarrow> Inl e
      | Inr (src, dst, ipHeaderLen, totalLen) \<Rightarrow>
          let tcp = subslice ipHeaderLen totalLen packet;
              got = Uint16 (subslice 16 18 tcp);
              want = tix_tcpChecksum src dst tcp
          in if got \<noteq> want then Inl (TInnerChecksum got want) else Inr ())"

definition CompleteInnerTCPChecksumPartial :: "bytes \<Rightarrow> tix_error + bytes" where
  "CompleteInnerTCPChecksumPartial packet =
     (case ValidateInnerTCPChecksumPartial packet of
        Inl e \<Rightarrow> Inl e
      | Inr _ \<Rightarrow>
          (case innerTCPMeta packet of
             Inl e \<Rightarrow> Inl e
           | Inr (src, dst, ipHeaderLen, totalLen) \<Rightarrow>
               let tcp = PutUint16 16 0 (subslice ipHeaderLen totalLen packet);
                   tcp = PutUint16 16 (tix_tcpChecksum src dst tcp) tcp
               in Inr (overwrite ipHeaderLen tcp packet)))"

definition ValidateInnerTCPGSO :: "bytes \<Rightarrow> u16 \<Rightarrow> u16 \<Rightarrow> tix_error + unit" where
  "ValidateInnerTCPGSO packet gsoSize gsoSegs =
     (case ValidateInnerTCPChecksumPartial packet of
        Inl e \<Rightarrow> Inl e
      | Inr _ \<Rightarrow>
          (case innerTCPMeta packet of
             Inl e \<Rightarrow> Inl e
           | Inr (_, _, ipHeaderLen, totalLen) \<Rightarrow>
               if gsoSize = 0 \<or> gsoSegs < 2 then Inl (TGSOMetadata gsoSize gsoSegs)
               else
                 let tcp = subslice ipHeaderLen totalLen packet;
                     tcpHeaderLen = unat (drop_bit 4 (tcp ! 12)) * 4;
                     payloadLen = int (length tcp) - int tcpHeaderLen
                 in if payloadLen \<le> 0 then Inl TGSONoPayload
                    else
                      let wantSegs = (nat payloadLen + unat gsoSize - 1) div unat gsoSize in
                      if wantSegs < 2 \<or> wantSegs \<noteq> unat gsoSegs
                      then Inl (TGSOSegments gsoSize gsoSegs (nat payloadLen) wantSegs)
                      else Inr ()))"

definition tix_FrameWireLen :: "int \<Rightarrow> tix_error + int" where
  "tix_FrameWireLen payloadLen =
     (if payloadLen > int tix_MaxPayload then Inl TPayloadTooLarge
      else if payloadLen < 0 then Inl TPayloadInvalid
      else Inr (int tix_HeaderLen + payloadLen))"

text \<open>The payload check both directions apply after the flags.\<close>

definition tix_payload_check :: "u8 \<Rightarrow> u16 \<Rightarrow> u16 \<Rightarrow> bytes \<Rightarrow> tix_error + unit" where
  "tix_payload_check flags fragmentIndex fragmentCount payload =
     (if flags AND FlagInnerGSO \<noteq> 0 then ValidateInnerTCPGSO payload fragmentIndex fragmentCount
      else if flags AND FlagInnerTCPChecksumPartial \<noteq> 0 \<and> flags AND FlagEncrypted = 0
        then ValidateInnerTCPChecksumPartial payload
      else Inr ())"

definition tix_MarshalBinaryInto :: "tix_frame \<Rightarrow> bytes \<Rightarrow> tix_error + (nat \<times> bytes)" where
  "tix_MarshalBinaryInto frame wire =
     (if length (tf_Payload frame) > tix_MaxPayload then Inl TPayloadTooLarge
      else case validateFrameFlags (tf_Flags frame) (tf_FragmentIndex frame) (tf_FragmentCount frame) of
        Inl e \<Rightarrow> Inl e
      | Inr _ \<Rightarrow>
        (case tix_payload_check (tf_Flags frame) (tf_FragmentIndex frame) (tf_FragmentCount frame) (tf_Payload frame) of
           Inl e \<Rightarrow> Inl e
         | Inr _ \<Rightarrow>
           let wireLen = tix_HeaderLen + length (tf_Payload frame) in
           if length wire < wireLen then Inl TBufferTooSmall
           else
             let w = take wireLen wire;
                 w = PutUint32 0 tix_Magic w;
                 w = PutByte 4 tix_Version w;
                 w = PutByte 5 (tf_Flags frame) w;
                 w = PutUint16 6 (word_of_nat tix_HeaderLen) w;
                 w = PutUint64 8 (tf_FlowID frame) w;
                 w = PutUint64 16 (tf_Epoch frame) w;
                 w = PutUint64 24 (tf_Sequence frame) w;
                 w = PutUint32 32 (word_of_nat (length (tf_Payload frame))) w;
                 w = PutUint16 36 (tf_FragmentIndex frame) w;
                 w = PutUint16 38 (tf_FragmentCount frame) w;
                 w = overwrite tix_HeaderLen (tf_Payload frame) w
             in Inr (wireLen, w @ drop wireLen wire)))"

definition tix_MarshalBinary :: "tix_frame \<Rightarrow> tix_error + bytes" where
  "tix_MarshalBinary frame =
     (case tix_FrameWireLen (int (length (tf_Payload frame))) of
        Inl e \<Rightarrow> Inl e
      | Inr wireLen \<Rightarrow>
          (case tix_MarshalBinaryInto frame (replicate (nat wireLen) 0) of
             Inl e \<Rightarrow> Inl e
           | Inr (_, wire) \<Rightarrow> Inr wire))"

definition parseFramePrefix :: "bytes \<Rightarrow> tix_error + (tix_frame \<times> nat)" where
  "parseFramePrefix wire =
     (if length wire < tix_HeaderLen then Inl TTooShort
      else if Uint32 (subslice 0 4 wire) \<noteq> tix_Magic then Inl TBadMagic
      else if wire ! 4 \<noteq> tix_Version then Inl (TBadVersion (wire ! 4))
      else let headerLen = unat (Uint16 (subslice 6 8 wire)) in
        if headerLen \<noteq> tix_HeaderLen then Inl (TBadHeaderLength headerLen)
        else
          let flags = wire ! 5;
              fragmentIndex = Uint16 (subslice 36 38 wire);
              fragmentCount = Uint16 (subslice 38 40 wire)
          in case validateFrameFlags flags fragmentIndex fragmentCount of
               Inl e \<Rightarrow> Inl e
             | Inr _ \<Rightarrow>
               let payloadLen = unat (Uint32 (subslice 32 36 wire)) in
               if payloadLen > tix_MaxPayload then Inl TPayloadTooLarge
               else let wireLen = tix_HeaderLen + payloadLen in
                 if length wire < wireLen then Inl TLengthMismatch
                 else let payload = subslice tix_HeaderLen wireLen wire in
                   case tix_payload_check flags fragmentIndex fragmentCount payload of
                     Inl e \<Rightarrow> Inl e
                   | Inr _ \<Rightarrow>
                       Inr (\<lparr>tf_Flags = flags, tf_FlowID = Uint64 (subslice 8 16 wire),
                             tf_Epoch = Uint64 (subslice 16 24 wire),
                             tf_Sequence = Uint64 (subslice 24 32 wire),
                             tf_FragmentIndex = fragmentIndex, tf_FragmentCount = fragmentCount,
                             tf_Payload = payload\<rparr>, wireLen))"

definition tix_parseFrame :: "bytes \<Rightarrow> tix_error + tix_frame" where
  "tix_parseFrame wire =
     (case parseFramePrefix wire of
        Inl e \<Rightarrow> Inl e
      | Inr (frame, nxt) \<Rightarrow> if nxt \<noteq> length wire then Inl TLengthMismatch else Inr frame)"

lemma parseFramePrefix_progress: "parseFramePrefix wire = Inr (f, n) \<Longrightarrow> 40 \<le> n \<and> n \<le> length wire"
  by (auto simp: parseFramePrefix_def Let_def split: if_splits sum.splits)

text \<open>The loop of \<open>ParseFrameStreamNoCopyInto\<close>, on the part of the buffer after the cursor.\<close>

function parseFrameStream :: "bytes \<Rightarrow> tix_error + tix_frame list" where
  "parseFrameStream wire =
     (if wire = [] then Inr []
      else case parseFramePrefix wire of
        Inl e \<Rightarrow> Inl e
      | Inr (frame, nxt) \<Rightarrow>
          (case parseFrameStream (drop nxt wire) of
             Inl e \<Rightarrow> Inl e
           | Inr frames \<Rightarrow> Inr (frame # frames)))"
  by auto
termination
  by (relation "measure length") (auto dest: parseFramePrefix_progress)

declare parseFrameStream.simps [simp del]


definition tix_header :: "tix_frame \<Rightarrow> bytes" where
  "tix_header f = be32 tix_Magic @ [tix_Version, tf_Flags f] @ be16 40 @
     be64 (tf_FlowID f) @ be64 (tf_Epoch f) @ be64 (tf_Sequence f) @
     be32 (word_of_nat (length (tf_Payload f))) @ be16 (tf_FragmentIndex f) @ be16 (tf_FragmentCount f)"

text \<open>The frames that pass the sender's and the receiver's rules.\<close>

definition tix_valid :: "tix_frame \<Rightarrow> bool" where
  "tix_valid f \<longleftrightarrow> length (tf_Payload f) \<le> 65536 \<and>
     validateFrameFlags (tf_Flags f) (tf_FragmentIndex f) (tf_FragmentCount f) = Inr () \<and>
     tix_payload_check (tf_Flags f) (tf_FragmentIndex f) (tf_FragmentCount f) (tf_Payload f) = Inr ()"

lemma length_tix_header [simp]: "length (tix_header f) = 40"
  by (simp add: tix_header_def)

lemma tix_header_not_Nil [simp]: "tix_header f \<noteq> []"
  by (simp add: tix_header_def)

lemma tix_MarshalBinaryInto_Inr:
  "tix_MarshalBinaryInto f wire = Inr (n, wire') \<longleftrightarrow>
     tix_valid f \<and> n = 40 + length (tf_Payload f) \<and> n \<le> length wire \<and>
     wire' = tix_header f @ tf_Payload f @ drop n wire"
proof (cases "tix_valid f \<and> 40 + length (tf_Payload f) \<le> length wire")
  case True
  then have "tix_MarshalBinaryInto f wire =
      Inr (40 + length (tf_Payload f), tix_header f @ tf_Payload f @ drop (40 + length (tf_Payload f)) wire)"
    by (simp add: tix_valid_def tix_MarshalBinaryInto_def tix_header_def Let_def wire_simps)
  with True show ?thesis by auto
next
  case False
  then show ?thesis
    by (auto simp: tix_valid_def tix_MarshalBinaryInto_def not_le split: sum.splits)
qed

lemma tix_MarshalBinary_Inr:
  "tix_MarshalBinary f = Inr wire \<longleftrightarrow> tix_valid f \<and> wire = tix_header f @ tf_Payload f"
proof -
  let ?n = "40 + length (tf_Payload f)"
  have len: "nat (40 + int (length (tf_Payload f))) = ?n" by simp
  have into: "tix_MarshalBinaryInto f (replicate ?n 0) = Inr (n, w) \<longleftrightarrow>
      tix_valid f \<and> n = ?n \<and> w = tix_header f @ tf_Payload f" for n w
    using tix_MarshalBinaryInto_Inr [of f "replicate ?n 0" n w] by auto
  show ?thesis
  proof (cases "tix_valid f")
    case True
    with into [of ?n "tix_header f @ tf_Payload f"] show ?thesis
      by (auto simp: tix_MarshalBinary_def tix_FrameWireLen_def tix_valid_def len)
  next
    case False
    with into show ?thesis
      by (auto simp: tix_MarshalBinary_def tix_FrameWireLen_def len split: sum.splits)
  qed
qed

lemma parseFramePrefix_header:
  assumes "tix_valid f"
  shows "parseFramePrefix (tix_header f @ tf_Payload f @ rest) = Inr (f, 40 + length (tf_Payload f))"
proof -
  define w where "w = tix_header f @ tf_Payload f @ rest"
  have "length (tf_Payload f) \<le> 65536" using assms by (simp add: tix_valid_def)
  then have "Uint32 (subslice 0 4 w) = tix_Magic" "w ! 4 = tix_Version" "w ! 5 = tf_Flags f"
    "unat (Uint16 (subslice 6 8 w)) = 40" "Uint64 (subslice 8 16 w) = tf_FlowID f"
    "Uint64 (subslice 16 24 w) = tf_Epoch f" "Uint64 (subslice 24 32 w) = tf_Sequence f"
    "unat (Uint32 (subslice 32 36 w)) = length (tf_Payload f)"
    "Uint16 (subslice 36 38 w) = tf_FragmentIndex f" "Uint16 (subslice 38 40 w) = tf_FragmentCount f"
    "subslice 40 (40 + length (tf_Payload f)) w = tf_Payload f" "40 + length (tf_Payload f) \<le> length w"
    by (simp_all add: w_def tix_header_def wire_simps nth_append unat_of_nat)
  then have "parseFramePrefix w = Inr (f, 40 + length (tf_Payload f))"
    using assms by (simp add: parseFramePrefix_def Let_def tix_valid_def)
  then show ?thesis by (simp add: w_def)
qed

lemma parseFramePrefix_wire:
  assumes "parseFramePrefix wire = Inr (f, n)"
  shows "tix_valid f" "n = 40 + length (tf_Payload f)" "wire = tix_header f @ tf_Payload f @ drop n wire"
proof -
  from assms have len: "40 \<le> length wire" "n \<le> length wire" "n = 40 + length (tf_Payload f)"
    and pay: "length (tf_Payload f) \<le> 65536" "unat (Uint32 (subslice 32 36 wire)) = length (tf_Payload f)"
    and ok: "tix_valid f"
    and fields: "Uint32 (subslice 0 4 wire) = tix_Magic" "wire ! 4 = tix_Version" "wire ! 5 = tf_Flags f"
      "unat (Uint16 (subslice 6 8 wire)) = 40" "Uint64 (subslice 8 16 wire) = tf_FlowID f"
      "Uint64 (subslice 16 24 wire) = tf_Epoch f" "Uint64 (subslice 24 32 wire) = tf_Sequence f"
      "Uint16 (subslice 36 38 wire) = tf_FragmentIndex f" "Uint16 (subslice 38 40 wire) = tf_FragmentCount f"
      "subslice 40 n wire = tf_Payload f"
    by (auto simp: parseFramePrefix_def tix_valid_def Let_def split: if_splits sum.splits)
  show "tix_valid f" "n = 40 + length (tf_Payload f)" by (rule ok len(3))+
  have "be32 tix_Magic = subslice 0 4 wire" "be16 40 = subslice 6 8 wire"
    "be64 (tf_FlowID f) = subslice 8 16 wire" "be64 (tf_Epoch f) = subslice 16 24 wire"
    "be64 (tf_Sequence f) = subslice 24 32 wire"
    "be32 (word_of_nat (length (tf_Payload f))) = subslice 32 36 wire"
    "be16 (tf_FragmentIndex f) = subslice 36 38 wire" "be16 (tf_FragmentCount f) = subslice 38 40 wire"
    using len(1) fields pay
    by (auto intro!: be16.enc_eq_slice be32.enc_eq_slice be64.enc_eq_slice simp: word_unat_eq_iff unat_of_nat)
  moreover have "[tix_Version, tf_Flags f] = subslice 4 6 wire"
    using len(1) fields(2,3) subslice_append [of 4 5 6 wire] subslice_single [of 4 wire] subslice_single [of 5 wire]
    by simp
  ultimately have "tix_header f = subslice 0 40 wire"
    by (simp add: tix_header_def subslice_append subslice_append_assoc)
  then show "wire = tix_header f @ tf_Payload f @ drop n wire"
    using fields(10) len(3) subslice_append_assoc [of 0 40 n wire "drop n wire"] subslice_to_end [of n wire]
    by (metis append_assoc le_add1 zero_le)
qed


section \<open>Inner TCP checksums\<close>

lemma tix_tcpChecksum_ignores_field:
  "18 \<le> length tcp \<Longrightarrow> tix_tcpChecksum src dst (PutUint16 16 c tcp) = tix_tcpChecksum src dst tcp"
  by (simp add: tix_tcpChecksum_def Let_def take_overwrite_before drop_overwrite_after)

lemma innerTCPMeta_Inr:
  assumes "innerTCPMeta p = Inr (src, dst, ihl, n)"
  shows "n = length p" "20 \<le> ihl" "ihl + 20 \<le> n" "ihl = unat (p ! 0 AND 0x0f) * 4"
    "src = subslice 12 16 p" "dst = subslice 16 20 p" "n \<le> 65535"
proof -
  show "n = length p" "20 \<le> ihl" "ihl + 20 \<le> n" "ihl = unat (p ! 0 AND 0x0f) * 4"
    "src = subslice 12 16 p" "dst = subslice 16 20 p"
    using assms by (auto simp: innerTCPMeta_def Let_def split: if_splits)
  show "n \<le> 65535"
    using assms unat_u16_less [of "Uint16 (subslice 2 4 p)"]
    by (auto simp: innerTCPMeta_def Let_def split: if_splits)
qed

lemma innerTCPMeta_cong:
  assumes meta: "innerTCPMeta p = Inr (src, dst, ihl, n)" and len: "length p' = length p"
    and head: "take 20 p' = take 20 p" and off: "p' ! (ihl + 12) = p ! (ihl + 12)"
  shows "innerTCPMeta p' = Inr (src, dst, ihl, n)"
proof -
  note m = innerTCPMeta_Inr [OF meta]
  have sub: "subslice a b p' = subslice a b p" if "b \<le> 20" for a b
    using that head by (metis drop_take min.absorb1 subslice_def take_take)
  have nth: "p' ! i = p ! i" if "i < 20" for i
    using that head by (metis nth_take)
  have "subslice ihl n p' ! 12 = subslice ihl n p ! 12"
    using off m len by (simp add: subslice_def)
  then show ?thesis
    using meta m nth [of 0] nth [of 9] sub len
    by (auto simp: innerTCPMeta_def Let_def split: if_splits)
qed

lemma CompleteInner_Inr:
  assumes "CompleteInnerTCPChecksumPartial p = Inr p'"
  obtains src dst ihl where "innerTCPMeta p = Inr (src, dst, ihl, length p)"
    "p' = PutUint16 (ihl + 16) (tix_tcpChecksum src dst (drop ihl p)) p"
proof -
  obtain src dst ihl n where meta: "innerTCPMeta p = Inr (src, dst, ihl, n)"
    and p': "p' = overwrite ihl (PutUint16 16 (tix_tcpChecksum src dst (PutUint16 16 0 (subslice ihl n p)))
        (PutUint16 16 0 (subslice ihl n p))) p"
    using assms by (auto simp: CompleteInnerTCPChecksumPartial_def Let_def split: sum.splits)
  note m = innerTCPMeta_Inr [OF meta]
  have tcp: "subslice ihl n p = drop ihl p" "18 \<le> length (drop ihl p)" using m by (simp_all add: subslice_def)
  have "overwrite ihl (PutUint16 16 c (PutUint16 16 0 (drop ihl p))) p = PutUint16 (ihl + 16) c p" for c
    using m(1-3) take_add [of ihl 16 p] by (simp add: overwrite_def drop_take add.commute)
  with p' tcp have "p' = PutUint16 (ihl + 16) (tix_tcpChecksum src dst (drop ihl p)) p"
    by (simp add: tix_tcpChecksum_ignores_field)
  with meta m(1) that show ?thesis by blast
qed


text \<open>The pseudo-header seed and the completed checksum as sums.\<close>

definition tix_seed :: "bytes \<Rightarrow> bytes \<Rightarrow> nat \<Rightarrow> u32" where
  "tix_seed src dst n = tix_checksumAddBytes (tix_checksumAddBytes 0 src) dst + 6 + word_of_nat n"

lemma unat_tix_seed:
  assumes "length src = 4" and "length dst = 4" and "n \<le> 65535"
  shows "unat (tix_seed src dst n) = bsum src + bsum dst + 6 + n"
proof -
  have b: "bsum src \<le> 131070" "bsum dst \<le> 131070"
    using bsum_bound [of src] bsum_bound [of dst] assms by simp_all
  then have "unat (tix_checksumAddBytes (tix_checksumAddBytes 0 src) dst) = bsum src + bsum dst"
    by (simp add: tix_ck.addBytes_spec)
  with b assms(3) show ?thesis
    by (simp add: tix_seed_def unat_word_ariths unat_of_nat)
qed

lemma tix_tcp_sum_bound:
  assumes "length src = 4" and "length dst = 4" and "length tcp \<le> 65535"
  shows "unat (tix_seed src dst (length tcp)) + bsum tcp < 4294901760"
proof -
  have "(length tcp + 1) div 2 \<le> 32768" using assms(3) by simp
  then have "65535 * ((length tcp + 1) div 2) \<le> 65535 * 32768" by (rule mult_le_mono2)
  with bsum_bound [of tcp] have "bsum tcp \<le> 2147450880" by simp
  moreover have "bsum src \<le> 131070" "bsum dst \<le> 131070"
    using bsum_bound [of src] bsum_bound [of dst] assms by simp_all
  ultimately show ?thesis using assms by (simp add: unat_tix_seed)
qed

text \<open>The checksum over the segment with its field zeroed.\<close>

lemma tix_tcpChecksum_seed:
  assumes "length src = 4" and "length dst = 4" and len: "18 \<le> length tcp" "length tcp \<le> 65535"
    and zero: "Uint16 (drop 16 tcp) = 0"
  shows "tix_tcpChecksum src dst tcp = tix_checksumFold (tix_checksumAddBytes (tix_seed src dst (length tcp)) tcp)"
proof -
  let ?s = "tix_seed src dst (length tcp)"
  have "bsum (drop 16 tcp) = bsum (take 2 (drop 16 tcp)) + bsum (drop 18 tcp)"
    using len(1) bsum_split [of 2 "drop 16 tcp"] by simp
  moreover have "bsum (take 2 (drop 16 tcp)) = 0"
    using len(1) zero bsum_Uint16 [of "drop 16 tcp"] by simp
  ultimately have sum: "bsum tcp = bsum (take 16 tcp) + bsum (drop 18 tcp)"
    using len(1) bsum_split [of 16 tcp] by simp
  have bound: "unat ?s + bsum tcp < 4294901760"
    by (rule tix_tcp_sum_bound [OF assms(1,2) len(2)])
  have "unat (tix_checksumAddBytes (tix_checksumAddBytes ?s (take 16 tcp)) (drop 18 tcp)) = unat ?s + bsum tcp"
    using bound sum by (simp add: tix_ck.addBytes_spec)
  also have "\<dots> = unat (tix_checksumAddBytes ?s tcp)"
    using bound by (simp add: tix_ck.addBytes_spec)
  finally have eq: "tix_checksumAddBytes (tix_checksumAddBytes ?s (take 16 tcp)) (drop 18 tcp) =
      tix_checksumAddBytes ?s tcp"
    by (simp add: word_unat_eq_iff)
  have "tix_checksumAddBytes (tix_checksumAddBytes ?s (take 16 tcp)) (drop 18 tcp) =
      tix_checksumAddBytes ?s (take 16 tcp)" if "length tcp \<le> 18"
    using that by (simp add: tix_checksumAddBytes_eq)
  with eq len(1) show ?thesis
    by (auto simp: tix_tcpChecksum_def tix_seed_def Let_def)
qed

text \<open>So a segment whose field holds \<open>tix_tcpChecksum\<close> verifies for a receiver that sums all of it.\<close>

lemma tix_tcpChecksum_verifies:
  assumes "length src = 4" and "length dst = 4" and len: "18 \<le> length tcp" "length tcp \<le> 65535"
  shows "tix_checksumFold (tix_checksumAddBytes (tix_seed src dst (length tcp))
    (PutUint16 16 (tix_tcpChecksum src dst tcp) tcp)) = 0"
proof -
  let ?z = "PutUint16 16 0 tcp"
  have z: "length ?z = length tcp" "Uint16 (drop 16 ?z) = 0"
    using len(1) be16.get_put [of 16 tcp 0] by simp_all
  have "tix_tcpChecksum src dst tcp = tix_checksumFold (tix_checksumAddBytes (tix_seed src dst (length tcp)) ?z)"
    using tix_tcpChecksum_seed [OF assms(1,2), of ?z] len z tix_tcpChecksum_ignores_field [of tcp src dst 0] by simp
  then have "tix_checksumFold (tix_checksumAddBytes (tix_seed src dst (length tcp))
      (PutUint16 16 (tix_tcpChecksum src dst tcp) ?z)) = 0"
    using len z tix_tcp_sum_bound [OF assms(1,2), of ?z]
    by (intro tix_ck.stored_checksum_verifies) simp_all
  then show ?thesis using len(1) by (simp add: overwrite_def)
qed


section \<open>TCP-shaped IPv4 packets\<close>

record tcp_packet =
  tp_SourceIP :: Addr
  tp_DestinationIP :: Addr
  tp_SourcePort :: u16
  tp_DestinationPort :: u16
  tp_Sequence :: u32
  tp_Acknowledgment :: u32
  tp_Payload :: bytes

definition TCPShapedIPv4WireLen :: "int \<Rightarrow> tix_error + int" where
  "TCPShapedIPv4WireLen payloadLen =
     (if payloadLen < 0 then Inl TPayloadInvalid
      else let totalLen = 20 + 20 + payloadLen in
        if totalLen > 0xffff then Inl TPacketTooLarge else Inr totalLen)"

definition prepareTCPShapedIPv4 ::
  "tcp_packet \<Rightarrow> int \<Rightarrow> bytes \<Rightarrow> tix_error + (bytes \<times> bytes \<times> bytes \<times> nat)" where
  "prepareTCPShapedIPv4 packet payloadLen wire =
     (if \<not> Is4 (tp_SourceIP packet) \<or> \<not> Is4 (tp_DestinationIP packet) then Inl TNotIPv4Underlay
      else if tp_SourcePort packet = 0 \<or> tp_DestinationPort packet = 0 then Inl TPortsRequired
      else case TCPShapedIPv4WireLen payloadLen of
        Inl e \<Rightarrow> Inl e
      | Inr n \<Rightarrow>
          if int (length wire) < n then Inl TBufferTooSmall
          else
            let totalLen = nat n;
                w = take totalLen wire;
                w = PutByte 0 0x45 w;
                w = PutByte 1 0 w;
                w = PutUint16 2 (word_of_nat totalLen) w;
                w = PutUint16 4 0 w;
                w = PutUint16 6 0x4000 w;
                w = PutByte 8 64 w;
                w = PutByte 9 6 w;
                w = PutUint16 10 0 w;
                src = As4 (tp_SourceIP packet);
                dst = As4 (tp_DestinationIP packet);
                w = overwrite 12 src w;
                w = overwrite 16 dst w;
                w = PutUint16 10 (tix_checksum (take 20 w)) w;
                w = PutUint16 20 (tp_SourcePort packet) w;
                w = PutUint16 22 (tp_DestinationPort packet) w;
                w = PutUint32 24 (tp_Sequence packet) w;
                w = PutUint32 28 (tp_Acknowledgment packet) w;
                w = PutByte 32 0x50 w;
                w = PutByte 33 0x18 w;
                w = PutUint16 34 0xffff w;
                w = PutUint16 36 0 w;
                w = PutUint16 38 0 w
            in Inr (w, src, dst, totalLen))"

definition MarshalTCPShapedIPv4Into :: "tcp_packet \<Rightarrow> bytes \<Rightarrow> tix_error + (nat \<times> bytes)" where
  "MarshalTCPShapedIPv4Into packet wire =
     (case prepareTCPShapedIPv4 packet (int (length (tp_Payload packet))) wire of
        Inl e \<Rightarrow> Inl e
      | Inr (w, src, dst, totalLen) \<Rightarrow>
          let tcp = overwrite 20 (tp_Payload packet) (drop 20 w);
              tcp = PutUint16 16 (tix_tcpChecksum src dst tcp) tcp
          in Inr (totalLen, take 20 w @ tcp @ drop totalLen wire))"

definition MarshalTCPShapedIPv4 :: "tcp_packet \<Rightarrow> tix_error + bytes" where
  "MarshalTCPShapedIPv4 packet =
     (case TCPShapedIPv4WireLen (int (length (tp_Payload packet))) of
        Inl e \<Rightarrow> Inl e
      | Inr totalLen \<Rightarrow>
          (case MarshalTCPShapedIPv4Into packet (replicate (nat totalLen) 0) of
             Inl e \<Rightarrow> Inl e
           | Inr (_, wire) \<Rightarrow> Inr wire))"

definition marshalTCPShapedIPv4FrameInto ::
  "tcp_packet \<Rightarrow> tix_frame \<Rightarrow> bytes \<Rightarrow> bool \<Rightarrow> tix_error + (nat \<times> bytes)" where
  "marshalTCPShapedIPv4FrameInto packet frame wire skipTCPChecksum =
     (case tix_FrameWireLen (int (length (tf_Payload frame))) of
        Inl e \<Rightarrow> Inl e
      | Inr frameLen \<Rightarrow>
          (case prepareTCPShapedIPv4 packet frameLen wire of
             Inl e \<Rightarrow> Inl e
           | Inr (w, src, dst, totalLen) \<Rightarrow>
               (case tix_MarshalBinaryInto frame (drop 40 w) of
                  Inl e \<Rightarrow> Inl e
                | Inr (_, body) \<Rightarrow>
                    let tcp = subslice 20 40 w @ body;
                        tcp = (if skipTCPChecksum then tcp
                               else PutUint16 16 (tix_tcpChecksum src dst tcp) tcp)
                    in Inr (totalLen, take 20 w @ tcp @ drop totalLen wire))))"

definition parseTCPShapedIPv4 :: "bytes \<Rightarrow> bool \<Rightarrow> tix_error + tcp_packet" where
  "parseTCPShapedIPv4 wire skipTCPChecksum =
     (if length wire < 40 then Inl TTooShort
      else if drop_bit 4 (wire ! 0) \<noteq> 4 then Inl TNotIPv4
      else let ihl = unat (wire ! 0 AND 0x0f) * 4 in
        if ihl < 20 \<or> length wire < ihl + 20 then Inl (TBadHeaderLength ihl)
        else if wire ! 9 \<noteq> 6 then Inl (TNotTCP (wire ! 9))
        else let totalLen = unat (Uint16 (subslice 2 4 wire)) in
          if totalLen < ihl + 20 \<or> totalLen > length wire then Inl (TBadTotalLength totalLen)
          else if tix_checksum (take ihl wire) \<noteq> 0 then Inl TErrChecksumIPv4
          else let tcp = subslice ihl totalLen wire; dataOffset = unat (drop_bit 4 (tcp ! 12)) * 4 in
            if dataOffset < 20 \<or> length tcp < dataOffset then Inl (TBadDataOffset dataOffset)
            else
              let src = AddrFrom4 (subslice 12 16 wire);
                  dst = AddrFrom4 (subslice 16 20 wire)
              in if \<not> skipTCPChecksum \<and> Uint16 (subslice 16 18 tcp) \<noteq> tix_tcpChecksum (As4 src) (As4 dst) tcp
                 then Inl TErrChecksumTCP
                 else Inr \<lparr>tp_SourceIP = src, tp_DestinationIP = dst,
                           tp_SourcePort = Uint16 (subslice 0 2 tcp),
                           tp_DestinationPort = Uint16 (subslice 2 4 tcp),
                           tp_Sequence = Uint32 (subslice 4 8 tcp),
                           tp_Acknowledgment = Uint32 (subslice 8 12 tcp),
                           tp_Payload = drop dataOffset tcp\<rparr>)"

text \<open>The two headers as the concatenation of their fields.\<close>

definition tix_ip_header :: "u16 \<Rightarrow> tcp_packet \<Rightarrow> nat \<Rightarrow> bytes" where
  "tix_ip_header c p totalLen = [0x45, 0] @ be16 (word_of_nat totalLen) @ be16 0 @ be16 0x4000 @
     [64, 6] @ be16 c @ As4 (tp_SourceIP p) @ As4 (tp_DestinationIP p)"

definition tix_tcp_header :: "u16 \<Rightarrow> tcp_packet \<Rightarrow> bytes" where
  "tix_tcp_header c p = be16 (tp_SourcePort p) @ be16 (tp_DestinationPort p) @ be32 (tp_Sequence p) @
     be32 (tp_Acknowledgment p) @ [0x50, 0x18] @ be16 0xffff @ be16 c @ be16 0"

definition tix_sendable :: "tcp_packet \<Rightarrow> nat \<Rightarrow> bool" where
  "tix_sendable p n \<longleftrightarrow> Is4 (tp_SourceIP p) \<and> Is4 (tp_DestinationIP p) \<and>
     tp_SourcePort p \<noteq> 0 \<and> tp_DestinationPort p \<noteq> 0 \<and> 40 + n \<le> 0xffff"

definition tix_ip_checksum :: "tcp_packet \<Rightarrow> nat \<Rightarrow> u16" where
  "tix_ip_checksum p totalLen = tix_checksum (tix_ip_header 0 p totalLen)"

lemma length_tix_headers [simp]:
  "length (tix_ip_header c p n) = 20" "length (tix_tcp_header c p) = 20"
  by (simp_all add: tix_ip_header_def tix_tcp_header_def)

lemma PutUint16_tix_headers [simp]:
  "PutUint16 10 c (tix_ip_header d p n @ rest) = tix_ip_header c p n @ rest"
  "PutUint16 16 c (tix_tcp_header d p @ rest) = tix_tcp_header c p @ rest"
  by (simp_all add: tix_ip_header_def tix_tcp_header_def wire_simps)

lemma prepareTCPShapedIPv4_eq:
  assumes "tix_sendable p n" and "40 + n \<le> length wire"
  shows "prepareTCPShapedIPv4 p (int n) wire =
    Inr (tix_ip_header (tix_ip_checksum p (40 + n)) p (40 + n) @ tix_tcp_header 0 p @ subslice 40 (40 + n) wire,
         As4 (tp_SourceIP p), As4 (tp_DestinationIP p), 40 + n)"
proof -
  have len: "nat (40 + int n) = 40 + n" by simp
  show ?thesis
    using assms
    by (simp add: tix_sendable_def prepareTCPShapedIPv4_def TCPShapedIPv4WireLen_def Let_def len
        tix_ip_checksum_def tix_ip_header_def tix_tcp_header_def wire_simps drop_take)
qed

lemma prepareTCPShapedIPv4_Inr:
  assumes "prepareTCPShapedIPv4 p (int n) wire = Inr r"
  shows "tix_sendable p n" "40 + n \<le> length wire"
proof -
  show ok: "tix_sendable p n"
  proof (rule ccontr)
    assume "\<not> tix_sendable p n"
    then consider "\<not> (Is4 (tp_SourceIP p) \<and> Is4 (tp_DestinationIP p))"
      | "Is4 (tp_SourceIP p)" "Is4 (tp_DestinationIP p)" "tp_SourcePort p = 0 \<or> tp_DestinationPort p = 0"
      | "Is4 (tp_SourceIP p)" "Is4 (tp_DestinationIP p)" "tp_SourcePort p \<noteq> 0" "tp_DestinationPort p \<noteq> 0"
        "0xffff < 40 + n"
      unfolding tix_sendable_def by fastforce
    then show False
      using assms by cases (simp_all add: prepareTCPShapedIPv4_def TCPShapedIPv4WireLen_def)
  qed
  show "40 + n \<le> length wire"
  proof (rule ccontr)
    assume "\<not> 40 + n \<le> length wire"
    then show False
      using assms ok by (simp add: prepareTCPShapedIPv4_def TCPShapedIPv4WireLen_def tix_sendable_def)
  qed
qed


definition tix_tcp_ck :: "tcp_packet \<Rightarrow> bytes \<Rightarrow> u16" where
  "tix_tcp_ck p body = tix_tcpChecksum (As4 (tp_SourceIP p)) (As4 (tp_DestinationIP p)) (tix_tcp_header 0 p @ body)"

definition tix_wire :: "tcp_packet \<Rightarrow> u16 \<Rightarrow> bytes \<Rightarrow> bytes" where
  "tix_wire p c body =
     tix_ip_header (tix_ip_checksum p (40 + length body)) p (40 + length body) @ tix_tcp_header c p @ body"

lemma length_tix_wire [simp]: "length (tix_wire p c body) = 40 + length body"
  by (simp add: tix_wire_def)

lemma tix_tcpChecksum_any_field:
  "tix_tcpChecksum src dst (tix_tcp_header c p @ body) = tix_tcpChecksum src dst (tix_tcp_header 0 p @ body)"
  using tix_tcpChecksum_ignores_field [of "tix_tcp_header 0 p @ body" src dst c] by simp

lemma marshalTCPShapedIPv4FrameInto_Inr:
  assumes "marshalTCPShapedIPv4FrameInto p f wire skip = Inr (n, wire')"
  shows "tix_sendable p (40 + length (tf_Payload f))" "tix_valid f"
    "n = 80 + length (tf_Payload f)" "n \<le> length wire"
    "wire' = tix_wire p (if skip then 0 else tix_tcp_ck p (tix_header f @ tf_Payload f)) (tix_header f @ tf_Payload f)
       @ drop n wire"
proof -
  let ?n = "length (tf_Payload f)" and ?body = "tix_header f @ tf_Payload f"
  obtain q where prep: "prepareTCPShapedIPv4 p (int (40 + ?n)) wire = Inr q"
    using assms by (auto simp: marshalTCPShapedIPv4FrameInto_def tix_FrameWireLen_def split: sum.splits if_splits)
  note ok = prepareTCPShapedIPv4_Inr [OF prep]
  have q: "prepareTCPShapedIPv4 p (40 + int ?n) wire =
    Inr (tix_ip_header (tix_ip_checksum p (80 + ?n)) p (80 + ?n) @ tix_tcp_header 0 p @ subslice 40 (80 + ?n) wire,
         As4 (tp_SourceIP p), As4 (tp_DestinationIP p), 80 + ?n)"
    using prepareTCPShapedIPv4_eq [OF ok] by simp
  have len: "?n \<le> 65536" using ok(1) by (simp add: tix_sendable_def)
  show "tix_sendable p (40 + ?n)" by (rule ok)
  obtain k body where body: "tix_MarshalBinaryInto f (subslice 40 (80 + ?n) wire) = Inr (k, body)"
    using assms q len by (auto simp: marshalTCPShapedIPv4FrameInto_def tix_FrameWireLen_def split: sum.splits)
  then have v: "tix_valid f" "body = ?body"
    using ok(2) by (auto simp: tix_MarshalBinaryInto_Inr)
  show "tix_valid f" by (rule v)
  have "marshalTCPShapedIPv4FrameInto p f wire skip =
      Inr (80 + ?n, tix_wire p (if skip then 0 else tix_tcp_ck p ?body) ?body @ drop (80 + ?n) wire)"
    using q body v(2) len
    by (simp add: marshalTCPShapedIPv4FrameInto_def tix_FrameWireLen_def tix_wire_def tix_tcp_ck_def Let_def subslice_def)
  with assms ok(2) show "n = 80 + ?n" "n \<le> length wire"
    "wire' = tix_wire p (if skip then 0 else tix_tcp_ck p ?body) ?body @ drop n wire" by auto
qed

lemma tix_ip_checksum_verifies: "tix_checksum (tix_ip_header (tix_ip_checksum p n) p n) = 0"
proof -
  let ?h = "tix_ip_header 0 p n"
  have "bsum ?h < 4294901760" using bsum_bound [of ?h] by simp
  moreover have "Uint16 (drop 10 ?h) = 0" by (simp add: tix_ip_header_def)
  ultimately have "tix_checksum (PutUint16 10 (tix_ip_checksum p n) ?h) = 0"
    using tix_ck.stored_checksum_verifies [of 10 ?h 0 "tix_ip_checksum p n"]
    by (simp add: tix_checksum_def tix_ip_checksum_def)
  then show ?thesis using PutUint16_tix_headers(1) [of _ 0 p n "[]"] by simp
qed

lemma tix_parse_wire:
  assumes "tix_sendable p (length body)"
  shows "parseTCPShapedIPv4 (tix_wire p c body @ trail) skip =
    (if \<not> skip \<and> c \<noteq> tix_tcp_ck p body then Inl TErrChecksumTCP else Inr (p\<lparr>tp_Payload := body\<rparr>))"
proof -
  define w where "w = tix_wire p c body @ trail"
  define t where "t = tix_tcp_header c p @ body"
  have n: "length body \<le> 65495" and ip: "Is4 (tp_SourceIP p)" "Is4 (tp_DestinationIP p)"
    using assms by (simp_all add: tix_sendable_def)
  have head: "w ! 0 = 0x45" "w ! 9 = 6" "subslice 12 16 w = As4 (tp_SourceIP p)"
    "subslice 16 20 w = As4 (tp_DestinationIP p)"
    by (simp_all add: w_def tix_wire_def tix_ip_header_def wire_simps nth_append)
  have total: "unat (Uint16 (subslice 2 4 w)) = 40 + length body" "length w = 40 + length body + length trail"
    using n by (simp_all add: w_def tix_wire_def tix_ip_header_def wire_simps unat_of_nat del: of_nat_add)
  have ck: "tix_checksum (take 20 w) = 0"
    by (simp add: w_def tix_wire_def tix_ip_checksum_verifies)
  have tcp: "subslice 20 (40 + length body) w = t" "length t = 20 + length body"
    by (simp_all add: w_def t_def tix_wire_def wire_simps)
  have fields: "t ! 12 = 0x50" "Uint16 (subslice 16 18 t) = c" "Uint16 (subslice 0 2 t) = tp_SourcePort p"
    "Uint16 (subslice 2 4 t) = tp_DestinationPort p" "Uint32 (subslice 4 8 t) = tp_Sequence p"
    "Uint32 (subslice 8 12 t) = tp_Acknowledgment p" "drop 20 t = body"
    by (simp_all add: t_def tix_tcp_header_def wire_simps nth_append)
  have sum: "tix_tcpChecksum (As4 (tp_SourceIP p)) (As4 (tp_DestinationIP p)) t = tix_tcp_ck p body"
    by (simp add: t_def tix_tcp_ck_def tix_tcpChecksum_any_field [of _ _ c])
  have "parseTCPShapedIPv4 w skip =
    (if \<not> skip \<and> c \<noteq> tix_tcp_ck p body then Inl TErrChecksumTCP else Inr (p\<lparr>tp_Payload := body\<rparr>))"
    using ip by (simp add: parseTCPShapedIPv4_def head total ck tcp fields sum Let_def)
  then show ?thesis by (simp add: w_def)
qed


section \<open>Properties\<close>

text \<open>
  The unrolled checksum loop (32, 8 and 2 bytes at a time) computes, for every starting
  accumulator and every input, exactly what the plain two-byte loop computes, including when
  the 32-bit accumulator wraps around.
\<close>
theorem tix_checksum_unrolled_equiv: "tix_checksumAddBytes s p = kudp_checksumAddBytes s p"
  by (rule tix_checksumAddBytes_eq)

text \<open>
  C13: stream framing.  \<open>ParseFrameStreamNoCopy\<close> accepts a byte string exactly when it is the
  concatenation of frames that \<open>MarshalBinary\<close> produces, and then returns those frames in order.
\<close>
theorem tix_stream_codec:
  "parseFrameStream wire = Inr fs \<longleftrightarrow>
     (\<exists>ws. list_all2 (\<lambda>f w. tix_MarshalBinary f = Inr w) fs ws \<and> wire = concat ws)"
proof
  show "parseFrameStream wire = Inr fs \<Longrightarrow>
     \<exists>ws. list_all2 (\<lambda>f w. tix_MarshalBinary f = Inr w) fs ws \<and> wire = concat ws"
  proof (induction wire arbitrary: fs rule: parseFrameStream.induct)
    case (1 wire)
    show ?case
    proof (cases "wire = []")
      case True
      with 1(2) show ?thesis by (auto simp: parseFrameStream.simps intro: exI [of _ "[]"])
    next
      case False
      then obtain f n fs' where step: "parseFramePrefix wire = Inr (f, n)"
        "parseFrameStream (drop n wire) = Inr fs'" "fs = f # fs'"
        using 1(2) by (subst (asm) parseFrameStream.simps) (auto split: sum.splits)
      then obtain ws where "list_all2 (\<lambda>f w. tix_MarshalBinary f = Inr w) fs' ws" "drop n wire = concat ws"
        using 1(1) [OF False step(1)] by auto
      moreover have "tix_MarshalBinary f = Inr (tix_header f @ tf_Payload f)"
        "wire = (tix_header f @ tf_Payload f) @ drop n wire"
        using parseFramePrefix_wire [OF step(1)] by (auto simp: tix_MarshalBinary_Inr)
      ultimately show ?thesis
        using step(3) by (intro exI [of _ "(tix_header f @ tf_Payload f) # ws"]) simp
    qed
  qed
next
  assume "\<exists>ws. list_all2 (\<lambda>f w. tix_MarshalBinary f = Inr w) fs ws \<and> wire = concat ws"
  then obtain ws where ws: "list_all2 (\<lambda>f w. tix_MarshalBinary f = Inr w) fs ws" "wire = concat ws" by blast
  from ws(1) have "parseFrameStream (concat ws) = Inr fs"
  proof induction
    case Nil
    then show ?case by (simp add: parseFrameStream.simps)
  next
    case (Cons f fs w ws)
    then have "tix_valid f" "w = tix_header f @ tf_Payload f" by (auto simp: tix_MarshalBinary_Inr)
    then show ?case
      using Cons.IH parseFramePrefix_header [of f "concat ws"]
      by (subst parseFrameStream.simps) simp
  qed
  with ws(2) show "parseFrameStream wire = Inr fs" by simp
qed


text \<open>
  C17: a frame marshalled into a TCP-shaped IPv4 packet, with its TCP checksum, is accepted by
  the checking parser, which returns the header fields that were sent and a payload that
  parses to the frame; without the checksum the parser that skips it accepts the packet.
  The bytes of the buffer after the packet are untouched.
\<close>
theorem tix_packet_roundtrip:
  assumes "marshalTCPShapedIPv4FrameInto p f wire skip = Inr (n, wire')"
  shows "\<exists>q. parseTCPShapedIPv4 (take n wire') skip = Inr q \<and> parseTCPShapedIPv4 (take n wire') True = Inr q \<and>
    tix_parseFrame (tp_Payload q) = Inr f \<and> q = p\<lparr>tp_Payload := tp_Payload q\<rparr> \<and>
    n = 80 + length (tf_Payload f) \<and> drop n wire' = drop n wire \<and> length wire' = length wire"
proof -
  let ?body = "tix_header f @ tf_Payload f"
  note m = marshalTCPShapedIPv4FrameInto_Inr [OF assms]
  have ok: "tix_sendable p (length ?body)" using m(1) by simp
  have "take n wire' = tix_wire p (if skip then 0 else tix_tcp_ck p ?body) ?body"
    using m(3,5) by simp
  then have "parseTCPShapedIPv4 (take n wire') skip = Inr (p\<lparr>tp_Payload := ?body\<rparr>)"
    "parseTCPShapedIPv4 (take n wire') True = Inr (p\<lparr>tp_Payload := ?body\<rparr>)"
    using tix_parse_wire [OF ok, of _ "[]"] by (cases skip; simp)+
  moreover have "tix_parseFrame ?body = Inr f"
    using parseFramePrefix_header [OF m(2), of "[]"] by (simp add: tix_parseFrame_def)
  ultimately show ?thesis using m(3-5) by simp
qed

theorem tix_packet_roundtrip_witness:
  "\<exists>n wire' q. marshalTCPShapedIPv4FrameInto
       \<lparr>tp_SourceIP = V4 0x0a000001, tp_DestinationIP = V4 0x0a000002, tp_SourcePort = 443,
        tp_DestinationPort = 8443, tp_Sequence = 5, tp_Acknowledgment = 6, tp_Payload = []\<rparr>
       \<lparr>tf_Flags = 1, tf_FlowID = 9, tf_Epoch = 2, tf_Sequence = 77, tf_FragmentIndex = 0, tf_FragmentCount = 0,
        tf_Payload = [1, 2, 3]\<rparr> (replicate 90 0xee) False = Inr (n, wire') \<and>
     parseTCPShapedIPv4 (take n wire') False = Inr q \<and> tp_Sequence q = 5"
proof -
  let ?p = "\<lparr>tp_SourceIP = V4 0x0a000001, tp_DestinationIP = V4 0x0a000002, tp_SourcePort = 443,
    tp_DestinationPort = 8443, tp_Sequence = 5, tp_Acknowledgment = 6, tp_Payload = []\<rparr>"
  let ?f = "\<lparr>tf_Flags = 1, tf_FlowID = 9, tf_Epoch = 2, tf_Sequence = 77, tf_FragmentIndex = 0, tf_FragmentCount = 0,
    tf_Payload = [1, 2, 3]\<rparr>"
  have "validateFrameFlags 1 0 0 = Inr ()" "tix_payload_check 1 0 0 [1, 2, 3] = Inr ()" by code_simp+
  then have v: "tix_valid ?f" by (simp add: tix_valid_def)
  have "prepareTCPShapedIPv4 ?p (int 43) (replicate 90 0xee) =
      Inr (tix_ip_header (tix_ip_checksum ?p 83) ?p 83 @ tix_tcp_header 0 ?p @ replicate 43 0xee,
        As4 (V4 0x0a000001), As4 (V4 0x0a000002), 83)"
    by (subst prepareTCPShapedIPv4_eq) (simp_all add: tix_sendable_def subslice_def)
  then obtain n wire' where w: "marshalTCPShapedIPv4FrameInto ?p ?f (replicate 90 0xee) False = Inr (n, wire')"
    using v tix_MarshalBinaryInto_Inr [of ?f "replicate 43 0xee" 43 "tix_header ?f @ [1, 2, 3]"]
    by (auto simp: marshalTCPShapedIPv4FrameInto_def tix_FrameWireLen_def Let_def)
  from tix_packet_roundtrip [OF w] obtain q where
    "parseTCPShapedIPv4 (take n wire') False = Inr q" "q = ?p\<lparr>tp_Payload := tp_Payload q\<rparr>" by blast
  with w show ?thesis by (metis tcp_packet.select_convs(5) tcp_packet.update_convs(7))
qed

text \<open>
  C19: completing a CHECKSUM_PARTIAL packet for user-space delivery.  When
  \<open>CompleteInnerTCPChecksumPartial\<close> succeeds, the TCP header starts at the offset the packet's
  IHL field gives (IP options included), the packet keeps its length and every byte other
  than the two checksum bytes of that header, it passes \<open>ValidateInnerTCPChecksum\<close>, and a TCP
  receiver's check succeeds: the end-around-carry sum of the 16-bit words of the addresses,
  the protocol number, the segment length and the segment is 0xffff.
\<close>
theorem tix_complete_checksum_valid:
  assumes "CompleteInnerTCPChecksumPartial p = Inr p'"
  shows "let ihl = 4 * unat (p ! 0 AND 0x0f) in
    20 \<le> ihl \<and> ihl + 20 \<le> length p \<and> length p' = length p \<and>
    take (ihl + 16) p' = take (ihl + 16) p \<and> drop (ihl + 18) p' = drop (ihl + 18) p \<and>
    oc (bsum (subslice 12 16 p) + bsum (subslice 16 20 p) + 6 + (length p - ihl) + bsum (drop ihl p')) = 65535 \<and>
    ValidateInnerTCPChecksum p' = Inr ()"
proof -
  from assms obtain src dst ihl where meta: "innerTCPMeta p = Inr (src, dst, ihl, length p)"
    and p': "p' = PutUint16 (ihl + 16) (tix_tcpChecksum src dst (drop ihl p)) p"
    by (rule CompleteInner_Inr)
  let ?c = "tix_tcpChecksum src dst (drop ihl p)"
  note m = innerTCPMeta_Inr [OF meta]
  have len: "length p' = length p" using p' m by simp
  have seg: "drop ihl p' = PutUint16 16 ?c (drop ihl p)"
    unfolding p' using m by (simp add: overwrite_def drop_take add.commute)
  have "take 20 p' = take 20 p" "p' ! (ihl + 12) = p ! (ihl + 12)"
    using m by (simp_all add: p' take_overwrite_before nth_overwrite)
  then have meta': "innerTCPMeta p' = Inr (src, dst, ihl, length p')"
    using innerTCPMeta_cong [OF meta len] len by simp
  have "subslice ihl (length p') p' = drop ihl p'" by (simp add: subslice_def)
  then have "subslice ihl (length p') p' = PutUint16 16 ?c (drop ihl p)" by (simp only: seg)
  moreover have "Uint16 (subslice 16 18 (PutUint16 16 ?c (drop ihl p))) = ?c"
    using m subslice_overwrite_same [of 16 "be16 ?c" "drop ihl p"] by simp
  ultimately have "ValidateInnerTCPChecksum p' = Inr ()"
    using m by (simp add: ValidateInnerTCPChecksum_def meta' tix_tcpChecksum_ignores_field Let_def)
  moreover have "oc (bsum src + bsum dst + 6 + (length p - ihl) + bsum (drop ihl p')) = 65535"
  proof -
    have l: "length src = 4" "length dst = 4" "length (drop ihl p') \<le> 65535" "length (drop ihl p') = length p - ihl"
      using m len by simp_all
    have "tix_checksumFold (tix_checksumAddBytes (tix_seed src dst (length p - ihl)) (drop ihl p')) = 0"
      using tix_tcpChecksum_verifies [of src dst "drop ihl p"] m seg by simp
    moreover have "unat (tix_checksumAddBytes (tix_seed src dst (length p - ihl)) (drop ihl p')) =
        bsum src + bsum dst + 6 + (length p - ihl) + bsum (drop ihl p')"
      using tix_tcp_sum_bound [OF l(1-3)] unat_tix_seed [OF l(1,2), of "length p - ihl"] l(3,4)
      by (simp add: tix_ck.addBytes_spec)
    ultimately show ?thesis by (simp add: tix_ck.foldSum_eq_0_iff oc_full_iff)
  qed
  moreover have "take (ihl + 16) p' = take (ihl + 16) p" "drop (ihl + 18) p' = drop (ihl + 18) p"
    using m by (simp_all add: p' take_overwrite_before drop_overwrite_after)
  moreover have "ihl = 4 * unat (p ! 0 AND 0x0f)" using m(4) by simp
  ultimately show ?thesis unfolding Let_def using m len by simp
qed


theorem tix_complete_checksum_valid_witness:
  "\<exists>p'. CompleteInnerTCPChecksumPartial
       [0x45, 0, 0, 40, 0, 0, 0x40, 0, 64, 6, 0, 0, 10, 0, 0, 1, 10, 0, 0, 2,
        0x01, 0xbb, 0x20, 0xfb, 0, 0, 0, 1, 0, 0, 0, 2, 0x50, 0x10, 0xff, 0xff, 0x14, 0x1d, 0, 0] = Inr p' \<and>
     ValidateInnerTCPChecksum p' = Inr () \<and> take 36 p' = [0x45, 0, 0, 40, 0, 0, 0x40, 0, 64, 6, 0, 0, 10, 0, 0, 1, 10, 0, 0, 2,
        0x01, 0xbb, 0x20, 0xfb, 0, 0, 0, 1, 0, 0, 0, 2, 0x50, 0x10, 0xff, 0xff]"
proof -
  let ?p = "[0x45, 0, 0, 40, 0, 0, 0x40, 0, 64, 6, 0, 0, 10, 0, 0, 1, 10, 0, 0, 2,
    0x01, 0xbb, 0x20, 0xfb, 0, 0, 0, 1, 0, 0, 0, 2, 0x50, 0x10, 0xff, 0xff, 0x14, 0x1d, 0, 0] :: bytes"
  have meta: "innerTCPMeta ?p = Inr ([10, 0, 0, 1], [10, 0, 0, 2], 20, 40)"
    by code_simp
  have seed: "tix_tcpPseudoHeaderSeed [10, 0, 0, 1] [10, 0, 0, 2] (length (drop 20 ?p)) = 0x141d" "Uint16 [0x14, 0x1d] = 0x141d"
    by code_simp+
  have "\<not> isl (CompleteInnerTCPChecksumPartial ?p)"
    using seed
    by (simp add: CompleteInnerTCPChecksumPartial_def ValidateInnerTCPChecksumPartial_def meta subslice_def Let_def)
  then obtain p' where p': "CompleteInnerTCPChecksumPartial ?p = Inr p'"
    by (cases "CompleteInnerTCPChecksumPartial ?p") auto
  with tix_complete_checksum_valid [OF p'] show ?thesis by (simp add: Let_def)
qed

end
