(* ===== verification/GoStrings.thy ===== *)
theory GoStrings
  imports Prelude
begin

text \<open>
  The part of the Go package \<^verbatim>\<open>strings\<close> the sources use to normalise names.  A Go string is
  its UTF-8 byte sequence, here a HOL \<open>string\<close> whose characters are the bytes.

  \<open>TrimSpace\<close> removes the Unicode white space runes at both ends.  \<open>ToUpper\<close> and \<open>ToLower\<close> map
  ASCII letters and the non-ASCII runes whose image is an ASCII letter (U+0131, U+017F,
  U+0130, U+212A); every other non-ASCII rune keeps a non-ASCII image in Go and is left
  alone here.  The sources only compare the results with ASCII literals, where the two agree.
\<close>

definition utf8 :: "nat list \<Rightarrow> string" where "utf8 bs = map char_of bs"

definition space_runes :: "string list" where
  "space_runes =
     map utf8 ([[9], [10], [11], [12], [13], [32], [0xC2, 0x85], [0xC2, 0xA0], [0xE1, 0x9A, 0x80]] @
       map (\<lambda>b. [0xE2, 0x80, b]) ([0x80..<0x8B] @ [0xA8, 0xA9, 0xAF]) @
       [[0xE2, 0x81, 0x9F], [0xE3, 0x80, 0x80]])"

definition is_prefix :: "'a list \<Rightarrow> 'a list \<Rightarrow> bool" where
  "is_prefix p s \<longleftrightarrow> take (length p) s = p"

fun strip_one :: "string list \<Rightarrow> string \<Rightarrow> string option" where
  "strip_one [] s = None"
| "strip_one (p # ps) s = (if p \<noteq> [] \<and> is_prefix p s then Some (drop (length p) s) else strip_one ps s)"

lemma strip_one_shorter: "strip_one ps s = Some t \<Longrightarrow> length t < length s"
  by (induction ps) (auto simp: is_prefix_def intro!: diff_less split: if_splits)

function strip_all :: "string list \<Rightarrow> string \<Rightarrow> string" where
  "strip_all ps s = (case strip_one ps s of None \<Rightarrow> s | Some t \<Rightarrow> strip_all ps t)"
  by auto
termination by (relation "measure (\<lambda>(_, s). length s)") (auto dest: strip_one_shorter)

declare strip_all.simps [simp del]

definition TrimSpace :: "string \<Rightarrow> string" where
  "TrimSpace s = rev (strip_all (map rev space_runes) (rev (strip_all space_runes s)))"

definition upper_char :: "char \<Rightarrow> char" where
  "upper_char c = (let n = of_char c :: nat in if 97 \<le> n \<and> n \<le> 122 then char_of (n - 32) else c)"

definition lower_char :: "char \<Rightarrow> char" where
  "lower_char c = (let n = of_char c :: nat in if 65 \<le> n \<and> n \<le> 90 then char_of (n + 32) else c)"

fun ToUpper :: "string \<Rightarrow> string" where
  "ToUpper (a # b # s) =
     (if [a, b] = utf8 [0xC4, 0xB1] then CHR ''I'' # ToUpper s
      else if [a, b] = utf8 [0xC5, 0xBF] then CHR ''S'' # ToUpper s
      else upper_char a # ToUpper (b # s))"
| "ToUpper [a] = [upper_char a]"
| "ToUpper [] = []"

fun ToLower :: "string \<Rightarrow> string" where
  "ToLower (a # b # s) =
     (if [a, b] = utf8 [0xC4, 0xB0] then CHR ''i'' # ToLower s
      else if [a, b] = utf8 [0xE2, 0x84] \<and> is_prefix (utf8 [0xAA]) s then CHR ''k'' # ToLower (drop 1 s)
      else lower_char a # ToLower (b # s))"
| "ToLower [a] = [lower_char a]"
| "ToLower [] = []"

text \<open>The environment of the process: \<^verbatim>\<open>os.Getenv\<close> as a function, empty for a variable that is not set.\<close>

type_synonym environment = "string \<Rightarrow> string"

text \<open>The bytes of a string literal.\<close>

definition str_bytes :: "string \<Rightarrow> bytes" where
  "str_bytes s = map of_char s"

lemma length_str_bytes [simp]: "length (str_bytes s) = length s"
  by (simp add: str_bytes_def)

text \<open>Removing the space runes at one end is idempotent.\<close>

lemma strip_all_stuck: "strip_one ps (strip_all ps s) = None"
proof (induction ps s rule: strip_all.induct)
  case (1 ps s)
  then show ?case by (subst strip_all.simps) (auto split: option.splits)
qed

lemma strip_all_id: "strip_one ps s = None \<Longrightarrow> strip_all ps s = s"
  by (subst strip_all.simps) simp

lemma strip_all_idem: "strip_all ps (strip_all ps s) = strip_all ps s"
  by (rule strip_all_id) (rule strip_all_stuck)


text \<open>
  Decimal integers: \<open>FormatNat\<close> is the verb \<^verbatim>\<open>%d\<close> on a non-negative number and \<open>Atoi\<close> is
  \<^verbatim>\<open>strconv.Atoi\<close> (an optional sign, at least one digit, the range of a 64-bit \<^verbatim>\<open>int\<close>).
\<close>

fun FormatNat :: "nat \<Rightarrow> string" where
  "FormatNat n = (if n < 10 then [char_of (48 + n)] else FormatNat (n div 10) @ [char_of (48 + n mod 10)])"

declare FormatNat.simps [simp del]

definition is_digit :: "char \<Rightarrow> bool" where
  "is_digit c \<longleftrightarrow> 48 \<le> (of_char c :: nat) \<and> (of_char c :: nat) \<le> 57"

definition digits_value :: "string \<Rightarrow> nat" where
  "digits_value s = foldl (\<lambda>v c. 10 * v + (of_char c - 48)) 0 s"

definition Atoi :: "string \<Rightarrow> int option" where
  "Atoi s =
     (let signed = s \<noteq> [] \<and> (hd s = CHR ''-'' \<or> hd s = CHR ''+'');
          digits = (if signed then tl s else s);
          v = (if signed \<and> hd s = CHR ''-'' then - int (digits_value digits) else int (digits_value digits))
      in if digits = [] \<or> \<not> list_all is_digit digits \<or> v < - (2 ^ 63) \<or> 2 ^ 63 \<le> v
         then None else Some v)"

lemma digits_value_FormatNat: "digits_value (FormatNat n) = n"
proof (induction n rule: less_induct)
  case (less n)
  show ?case
  proof (cases "n < 10")
    case True
    then show ?thesis by (subst FormatNat.simps) (simp add: digits_value_def)
  next
    case False
    then have "digits_value (FormatNat (n div 10)) = n div 10" by (intro less) simp
    with False show ?thesis
      by (subst FormatNat.simps) (simp add: digits_value_def)
  qed
qed

lemma FormatNat_inject [simp]: "FormatNat m = FormatNat n \<longleftrightarrow> m = n"
  by (metis digits_value_FormatNat)

end
