(* ===== verification/SecureHello.thy ===== *)
theory SecureHello
  imports GoStrings
begin

unbundle bit_operations_syntax

text \<open>
  The handshake of the secure transport (\<^verbatim>\<open>internal/transport/secure/secure.go\<close>): crypto
  suites and their negotiation, encryption policies, the hello message codec, the signed
  transcripts, the derivation of the wire epoch and of the key material, and the client and
  server handshake up to the session they agree on.

  X25519, HMAC-SHA-256, SHA-256, X.509 and the TLS exporter are not part of the repository;
  they are arguments of the definitions that use them.
\<close>

section \<open>Crypto suites\<close>

record crypto_suite =
  cs_Name :: string
  cs_ID :: u8
  cs_KeyLen :: nat
  cs_NonceLen :: nat
  cs_KDFInfo :: string

definition SuiteAES256GCMX25519 :: string where "SuiteAES256GCMX25519 = ''AES-256-GCM-X25519''"
definition SuiteAES128GCMX25519 :: string where "SuiteAES128GCMX25519 = ''AES-128-GCM-X25519''"
definition SuiteChaCha20Poly1305X25519 :: string where
  "SuiteChaCha20Poly1305X25519 = ''CHACHA20-POLY1305-X25519''"

definition suite_aes256 :: crypto_suite where
  "suite_aes256 = \<lparr>cs_Name = SuiteAES256GCMX25519, cs_ID = 1, cs_KeyLen = 32, cs_NonceLen = 12,
     cs_KDFInfo = ''TrustIX secure transport AES-256-GCM X25519 v1''\<rparr>"
definition suite_chacha :: crypto_suite where
  "suite_chacha = \<lparr>cs_Name = SuiteChaCha20Poly1305X25519, cs_ID = 3, cs_KeyLen = 32, cs_NonceLen = 12,
     cs_KDFInfo = ''TrustIX secure transport CHACHA20-POLY1305 X25519 v1''\<rparr>"
definition suite_aes128 :: crypto_suite where
  "suite_aes128 = \<lparr>cs_Name = SuiteAES128GCMX25519, cs_ID = 2, cs_KeyLen = 16, cs_NonceLen = 12,
     cs_KDFInfo = ''TrustIX secure transport AES-128-GCM X25519 v1''\<rparr>"

definition supportedSuites :: "crypto_suite list" where
  "supportedSuites = [suite_aes256, suite_chacha, suite_aes128]"

definition defaultSuite :: crypto_suite where "defaultSuite = supportedSuites ! 0"

definition negotiatedSuitePreference :: "string list" where
  "negotiatedSuitePreference = [SuiteAES128GCMX25519, SuiteAES256GCMX25519, SuiteChaCha20Poly1305X25519]"

definition SupportedCryptoSuites :: "string list" where
  "SupportedCryptoSuites = map cs_Name supportedSuites"

definition NormalizeCryptoSuite :: "string \<Rightarrow> string" where
  "NormalizeCryptoSuite raw =
     (let u = ToUpper (TrimSpace raw) in
      if u = '''' then ''''
      else if u = SuiteAES256GCMX25519 then SuiteAES256GCMX25519
      else if u = SuiteAES128GCMX25519 then SuiteAES128GCMX25519
      else if u = SuiteChaCha20Poly1305X25519 \<or> u = ''CHACHA20POLY1305-X25519'' then SuiteChaCha20Poly1305X25519
      else '''')"

text \<open>
  The loop of \<open>CryptoSuitesOrDefault\<close>; its set \<^verbatim>\<open>seen\<close> always holds the names already in
  \<^verbatim>\<open>out\<close>.
\<close>

primrec collectSuites :: "string list \<Rightarrow> string list \<Rightarrow> string list" where
  "collectSuites out [] = out"
| "collectSuites out (item # raw) =
     (let suite = NormalizeCryptoSuite item in
      if suite = '''' then collectSuites out raw
      else if suite \<in> set out then collectSuites out raw
      else collectSuites (out @ [suite]) raw)"

definition CryptoSuitesOrDefault :: "string list \<Rightarrow> string list" where
  "CryptoSuitesOrDefault raw =
     (let out = collectSuites [] raw in if out = [] then [cs_Name defaultSuite] else out)"

definition suiteByName :: "string \<Rightarrow> crypto_suite option" where
  "suiteByName name =
     (let normalized = NormalizeCryptoSuite name in
      find (\<lambda>suite. cs_Name suite = normalized) supportedSuites)"

definition suiteByID :: "u8 \<Rightarrow> crypto_suite option" where
  "suiteByID i = find (\<lambda>suite. cs_ID suite = i) supportedSuites"

definition helloFeatureDerivedEpoch :: u16 where "helloFeatureDerivedEpoch = 0x1000"
definition helloFeatureSessionGeneration :: u16 where "helloFeatureSessionGeneration = 0x2000"
definition helloFeatureTLSHandshakeOnly :: u16 where "helloFeatureTLSHandshakeOnly = 0x4000"
definition helloFeatureBatchRecords :: u16 where "helloFeatureBatchRecords = 0x8000"
definition helloFeatureMask :: u16 where
  "helloFeatureMask = helloFeatureDerivedEpoch OR helloFeatureSessionGeneration OR
     helloFeatureTLSHandshakeOnly OR helloFeatureBatchRecords"
definition helloSuiteMask :: u16 where "helloSuiteMask = NOT helloFeatureMask"

definition suiteMaskBit :: "u8 \<Rightarrow> u16" where
  "suiteMaskBit i =
     (if i = 0 \<or> i > 16 then 0
      else let b = push_bit (unat (i - 1)) 1 in if b AND helloSuiteMask = 0 then 0 else b)"

primrec suiteMaskLoop :: "u16 \<Rightarrow> string list \<Rightarrow> u16" where
  "suiteMaskLoop msk [] = msk"
| "suiteMaskLoop msk (name # names) =
     (case suiteByName name of
        None \<Rightarrow> suiteMaskLoop msk names
      | Some suite \<Rightarrow> suiteMaskLoop (msk OR suiteMaskBit (cs_ID suite)) names)"

definition suiteMaskForSuites :: "string list \<Rightarrow> u16" where
  "suiteMaskForSuites names =
     (let msk = suiteMaskLoop 0 (CryptoSuitesOrDefault names)
      in if msk = 0 then suiteMaskBit (cs_ID defaultSuite) else msk)"

definition normalizedSuiteMask :: "u16 \<Rightarrow> u16" where
  "normalizedSuiteMask msk =
     (let features = msk AND helloFeatureMask;
          suites = msk AND helloSuiteMask;
          suites = (if suites = 0 then suiteMaskBit (cs_ID defaultSuite) else suites)
      in suites OR features)"

definition isDefaultSuiteMask :: "u16 \<Rightarrow> bool" where
  "isDefaultSuiteMask msk \<longleftrightarrow> normalizedSuiteMask msk = suiteMaskBit (cs_ID defaultSuite)"

datatype hs_error =
    ErrInvalidHandshake | ErrSessionReset | ErrPeerAuthRequired | ErrNoCommonSuite | ErrUnsupportedMask u16
  | ErrParseCert | ErrEmptyChain | ErrMissingSignature | ErrBadSignature | ErrChain | ErrCallback
  | ErrPeerKey | ErrECDH | ErrKeySource string | ErrExporter | ErrAEAD | ErrSign | ErrOffload | ErrInner | ErrTLSHandoff

primrec preferSuite :: "u16 \<Rightarrow> string list \<Rightarrow> crypto_suite option" where
  "preferSuite intersection [] = None"
| "preferSuite intersection (name # names) =
     (case suiteByName name of
        None \<Rightarrow> preferSuite intersection names
      | Some suite \<Rightarrow>
          if intersection AND suiteMaskBit (cs_ID suite) \<noteq> 0 then Some suite
          else preferSuite intersection names)"

definition negotiateSuite :: "u16 \<Rightarrow> u16 \<Rightarrow> hs_error + crypto_suite" where
  "negotiateSuite clientMask serverMask =
     (let intersection = normalizedSuiteMask clientMask AND normalizedSuiteMask serverMask AND helloSuiteMask in
      if intersection = 0 then Inl ErrNoCommonSuite
      else case preferSuite intersection negotiatedSuitePreference of
        Some suite \<Rightarrow> Inr suite
      | None \<Rightarrow> Inl (ErrUnsupportedMask intersection))"

text \<open>Computed facts about the tables.\<close>

lemma suite_names [simp]:
  "cs_Name suite_aes256 = SuiteAES256GCMX25519" "cs_Name suite_aes128 = SuiteAES128GCMX25519"
  "cs_Name suite_chacha = SuiteChaCha20Poly1305X25519" "cs_ID suite_aes256 = 1" "cs_ID suite_aes128 = 2"
  "cs_ID suite_chacha = 3" "defaultSuite = suite_aes256"
  by (simp_all add: suite_aes256_def suite_aes128_def suite_chacha_def defaultSuite_def supportedSuites_def)

lemma suite_names_distinct [simp]:
  "SuiteAES256GCMX25519 \<noteq> SuiteAES128GCMX25519" "SuiteAES256GCMX25519 \<noteq> SuiteChaCha20Poly1305X25519"
  "SuiteAES128GCMX25519 \<noteq> SuiteChaCha20Poly1305X25519" "SuiteAES128GCMX25519 \<noteq> SuiteAES256GCMX25519"
  "SuiteChaCha20Poly1305X25519 \<noteq> SuiteAES256GCMX25519" "SuiteChaCha20Poly1305X25519 \<noteq> SuiteAES128GCMX25519"
  "SuiteAES256GCMX25519 \<noteq> ''''" "SuiteAES128GCMX25519 \<noteq> ''''" "SuiteChaCha20Poly1305X25519 \<noteq> ''''"
  by code_simp+

lemma normalize_names [simp]:
  "NormalizeCryptoSuite SuiteAES256GCMX25519 = SuiteAES256GCMX25519"
  "NormalizeCryptoSuite SuiteAES128GCMX25519 = SuiteAES128GCMX25519"
  "NormalizeCryptoSuite SuiteChaCha20Poly1305X25519 = SuiteChaCha20Poly1305X25519"
  by code_simp+

lemma suiteByName_names [simp]:
  "suiteByName SuiteAES256GCMX25519 = Some suite_aes256" "suiteByName SuiteAES128GCMX25519 = Some suite_aes128"
  "suiteByName SuiteChaCha20Poly1305X25519 = Some suite_chacha"
  by (simp_all add: suiteByName_def supportedSuites_def)

lemma mask_values [simp]: "suiteMaskBit 1 = 1" "suiteMaskBit 2 = 2" "suiteMaskBit 3 = 4"
  "helloFeatureMask = 0xf000" "helloSuiteMask = 0x0fff"
  by code_simp+

lemma NormalizeCryptoSuite_range:
  "NormalizeCryptoSuite raw \<in> {'''', SuiteAES256GCMX25519, SuiteAES128GCMX25519, SuiteChaCha20Poly1305X25519}"
  by (simp add: NormalizeCryptoSuite_def Let_def)

abbreviation (input) suite_name_set :: "string set" where
  "suite_name_set \<equiv> {SuiteAES256GCMX25519, SuiteAES128GCMX25519, SuiteChaCha20Poly1305X25519}"

lemma collectSuites_range: "set out \<subseteq> suite_name_set \<Longrightarrow> set (collectSuites out raw) \<subseteq> suite_name_set"
proof (induction raw arbitrary: out)
  case (Cons item raw)
  let ?n = "NormalizeCryptoSuite item"
  show ?case
    using Cons.IH [of out] Cons.IH [of "out @ [?n]"] Cons.prems NormalizeCryptoSuite_range [of item]
    by (cases "?n = ''''") (simp_all add: Let_def)
qed simp

lemma CryptoSuitesOrDefault_range:
  "set (CryptoSuitesOrDefault raw) \<subseteq> suite_name_set" "CryptoSuitesOrDefault raw \<noteq> []"
  using collectSuites_range [of "[]" raw] by (auto simp: CryptoSuitesOrDefault_def Let_def)

text \<open>The suites a configuration stands for: the known names it lists, or the default suite when it lists none.\<close>

definition configured_suites :: "string list \<Rightarrow> string set" where
  "configured_suites raw =
     (let known = NormalizeCryptoSuite ` set raw - {''''} in if known = {} then {SuiteAES256GCMX25519} else known)"

lemma set_collectSuites: "set (collectSuites out raw) = set out \<union> (NormalizeCryptoSuite ` set raw - {''''})"
  by (induction raw arbitrary: out) (auto simp: Let_def)

lemma set_CryptoSuitesOrDefault: "set (CryptoSuitesOrDefault raw) = configured_suites raw"
  using set_collectSuites [of "[]" raw]
  by (auto simp: CryptoSuitesOrDefault_def configured_suites_def Let_def simp flip: set_empty)

definition mask_of_names :: "string set \<Rightarrow> u16" where
  "mask_of_names S = (if SuiteAES256GCMX25519 \<in> S then 1 else 0) OR
     ((if SuiteAES128GCMX25519 \<in> S then 2 else 0) OR (if SuiteChaCha20Poly1305X25519 \<in> S then 4 else 0))"

lemma mask_of_names_insert:
  "mask_of_names (insert SuiteAES256GCMX25519 S) = 1 OR mask_of_names S"
  "mask_of_names (insert SuiteAES128GCMX25519 S) = 2 OR mask_of_names S"
  "mask_of_names (insert SuiteChaCha20Poly1305X25519 S) = 4 OR mask_of_names S"
  by (simp_all add: mask_of_names_def)

lemma suiteMaskLoop_eq:
  "set names \<subseteq> suite_name_set \<Longrightarrow> suiteMaskLoop m names = m OR mask_of_names (set names)"
proof (induction names arbitrary: m)
  case Nil
  then show ?case by (simp add: mask_of_names_def)
next
  case (Cons name names)
  then have "name \<in> suite_name_set" by simp
  with Cons show ?case
    by (auto simp: mask_of_names_insert or.assoc)
qed

lemma configured_mask_nonzero: "mask_of_names (set (CryptoSuitesOrDefault names)) \<noteq> 0"
proof -
  let ?L = "CryptoSuitesOrDefault names"
  have "hd ?L \<in> set ?L" using CryptoSuitesOrDefault_range(2) [of names] by simp
  moreover from this have "hd ?L \<in> suite_name_set"
    using CryptoSuitesOrDefault_range(1) [of names] by blast
  ultimately show ?thesis
    by (auto simp: mask_of_names_def)
qed

lemma suiteMaskForSuites_eq: "suiteMaskForSuites names = mask_of_names (set (CryptoSuitesOrDefault names))"
  using suiteMaskLoop_eq [OF CryptoSuitesOrDefault_range(1), of 0 names] configured_mask_nonzero [of names]
  by (simp add: suiteMaskForSuites_def Let_def)

lemma masked_suites:
  assumes "f AND helloSuiteMask = 0" and "m AND helloSuiteMask = m" and "m \<noteq> 0"
  shows "normalizedSuiteMask (m OR f) AND helloSuiteMask = m"
proof -
  have "(m OR f) AND helloSuiteMask = m"
    using assms(1,2) by (simp add: bit.conj_disj_distrib2 del: mask_values)
  moreover have "(x AND helloFeatureMask) AND helloSuiteMask = 0" for x
    by (simp add: and.assoc)
  ultimately show ?thesis
    using assms(3) by (simp add: normalizedSuiteMask_def Let_def bit.conj_disj_distrib2 assms(2) del: mask_values)
qed

lemma and_mask_both: "x AND y AND z = (x AND z) AND (y AND z :: u16)"
  by (rule bit_word_eqI) (auto simp: bit_and_iff)

lemma mask_of_names_suites: "mask_of_names S AND helloSuiteMask = mask_of_names S"
  by (simp add: mask_of_names_def)



lemma preferSuite_masks:
  "preferSuite (mask_of_names S AND mask_of_names T) negotiatedSuitePreference =
    (case filter (\<lambda>name. name \<in> S \<and> name \<in> T) negotiatedSuitePreference of
       [] \<Rightarrow> None | name # _ \<Rightarrow> suiteByName name)"
  by (simp add: negotiatedSuitePreference_def mask_of_names_def)

text \<open>
  C21: suite negotiation.  For any two configured suite lists and any feature bits, the
  negotiated suite is the first of the preference order that both configurations stand for
  (every known name they list, the default suite when they list none); the handshake fails
  exactly when they share none.
\<close>
theorem negotiateSuite_first_common:
  assumes "fc AND helloSuiteMask = 0" and "fs AND helloSuiteMask = 0"
  shows "negotiateSuite (suiteMaskForSuites client OR fc) (suiteMaskForSuites server OR fs) =
    (case filter (\<lambda>name. name \<in> configured_suites client \<and> name \<in> configured_suites server) negotiatedSuitePreference of
       [] \<Rightarrow> Inl ErrNoCommonSuite
     | name # _ \<Rightarrow> Inr (the (suiteByName name)))"
proof -
  let ?C = "set (CryptoSuitesOrDefault client)" and ?S = "set (CryptoSuitesOrDefault server)"
  have "normalizedSuiteMask (mask_of_names ?C OR fc) AND helloSuiteMask = mask_of_names ?C"
    "normalizedSuiteMask (mask_of_names ?S OR fs) AND helloSuiteMask = mask_of_names ?S"
    by (intro masked_suites mask_of_names_suites configured_mask_nonzero assms)+
  then have inter: "normalizedSuiteMask (mask_of_names ?C OR fc) AND normalizedSuiteMask (mask_of_names ?S OR fs) AND
      helloSuiteMask = mask_of_names ?C AND mask_of_names ?S"
    by (subst and_mask_both) (simp only:)
  have zero: "mask_of_names ?C AND mask_of_names ?S = 0 \<longleftrightarrow>
      filter (\<lambda>name. name \<in> ?C \<and> name \<in> ?S) negotiatedSuitePreference = []"
    by (simp add: mask_of_names_def negotiatedSuitePreference_def)
  show ?thesis
    unfolding negotiateSuite_def suiteMaskForSuites_eq Let_def inter preferSuite_masks set_CryptoSuitesOrDefault [symmetric]
    using zero by (auto simp: negotiatedSuitePreference_def split: list.splits if_splits)
qed

theorem negotiateSuite_first_common_witness:
  "negotiateSuite (suiteMaskForSuites [''aes-256-gcm-x25519'', '' CHACHA20-POLY1305-X25519''] OR 0x8000)
     (suiteMaskForSuites [''chacha20poly1305-x25519''] OR 0) = Inr suite_chacha"
proof -
  have "NormalizeCryptoSuite ''aes-256-gcm-x25519'' = SuiteAES256GCMX25519"
    "NormalizeCryptoSuite '' CHACHA20-POLY1305-X25519'' = SuiteChaCha20Poly1305X25519"
    "NormalizeCryptoSuite ''chacha20poly1305-x25519'' = SuiteChaCha20Poly1305X25519"
    by code_simp+
  then have "configured_suites [''aes-256-gcm-x25519'', '' CHACHA20-POLY1305-X25519''] =
      {SuiteAES256GCMX25519, SuiteChaCha20Poly1305X25519}"
    "configured_suites [''chacha20poly1305-x25519''] = {SuiteChaCha20Poly1305X25519}"
    by (auto simp: configured_suites_def Let_def)
  then show ?thesis
    using negotiateSuite_first_common [of "0x8000" 0 "[''aes-256-gcm-x25519'', '' CHACHA20-POLY1305-X25519'']"
        "[''chacha20poly1305-x25519'']"]
    by (simp add: negotiatedSuitePreference_def)
qed

section \<open>Encryption policy and key source\<close>

definition EncryptionSecure :: string where "EncryptionSecure = ''secure''"
definition EncryptionPlaintext :: string where "EncryptionPlaintext = ''plaintext''"
definition EncryptionSendEncrypted :: string where "EncryptionSendEncrypted = ''send_encrypted''"
definition EncryptionReceiveEncrypted :: string where "EncryptionReceiveEncrypted = ''receive_encrypted''"

record encryption_policy =
  ep_Mode :: string
  ep_SendEncrypted :: bool
  ep_ReceiveEncrypted :: bool

definition AnyEncrypted :: "encryption_policy \<Rightarrow> bool" where
  "AnyEncrypted p \<longleftrightarrow> ep_SendEncrypted p \<or> ep_ReceiveEncrypted p"

definition FullyEncrypted :: "encryption_policy \<Rightarrow> bool" where
  "FullyEncrypted p \<longleftrightarrow> ep_SendEncrypted p \<and> ep_ReceiveEncrypted p"

definition NormalizeEncryptionMode :: "string \<Rightarrow> string" where
  "NormalizeEncryptionMode raw =
     (let s = ToLower (TrimSpace raw) in
      if s \<in> set ['''', EncryptionSecure, ''encrypted'', ''trustix_secure'', ''trustix-secure''] then EncryptionSecure
      else if s \<in> set [EncryptionPlaintext, ''none'', ''disabled'', ''off''] then EncryptionPlaintext
      else if s \<in> set [EncryptionSendEncrypted, ''outbound_encrypted'', ''encrypt_outbound'', ''send_only'']
        then EncryptionSendEncrypted
      else if s \<in> set [EncryptionReceiveEncrypted, ''inbound_encrypted'', ''encrypt_inbound'', ''receive_only'']
        then EncryptionReceiveEncrypted
      else raw)"

definition EncryptionPolicyForMode :: "string \<Rightarrow> encryption_policy" where
  "EncryptionPolicyForMode raw =
     (let mode = NormalizeEncryptionMode raw in
      if mode = EncryptionPlaintext
        then \<lparr>ep_Mode = mode, ep_SendEncrypted = False, ep_ReceiveEncrypted = False\<rparr>
      else if mode = EncryptionSendEncrypted
        then \<lparr>ep_Mode = mode, ep_SendEncrypted = True, ep_ReceiveEncrypted = False\<rparr>
      else if mode = EncryptionReceiveEncrypted
        then \<lparr>ep_Mode = mode, ep_SendEncrypted = False, ep_ReceiveEncrypted = True\<rparr>
      else \<lparr>ep_Mode = EncryptionSecure, ep_SendEncrypted = True, ep_ReceiveEncrypted = True\<rparr>)"

definition KeySourceAuto :: string where "KeySourceAuto = ''auto''"
definition KeySourceTrustIXX25519 :: string where "KeySourceTrustIXX25519 = ''trustix_x25519''"
definition KeySourceTLSExporter :: string where "KeySourceTLSExporter = ''tls_exporter''"

definition normalizeKeySource :: "string \<Rightarrow> string" where
  "normalizeKeySource source =
     (if source \<in> set ['''', KeySourceAuto] then KeySourceAuto
      else if source = KeySourceTrustIXX25519 then KeySourceTrustIXX25519
      else if source = KeySourceTLSExporter then KeySourceTLSExporter
      else source)"

text \<open>
  Fail-safe policy.  A mode string leaves some direction unencrypted exactly when, trimmed
  and in lower case, it is one of the twelve documented weaker names; every other value,
  unknown names and typing errors included, encrypts both directions.
\<close>
theorem encryption_policy_fail_safe:
  "\<not> FullyEncrypted (EncryptionPolicyForMode raw) \<longleftrightarrow> ToLower (TrimSpace raw) \<in>
     {''plaintext'', ''none'', ''disabled'', ''off'',
      ''send_encrypted'', ''outbound_encrypted'', ''encrypt_outbound'', ''send_only'',
      ''receive_encrypted'', ''inbound_encrypted'', ''encrypt_inbound'', ''receive_only''}"
proof -
  let ?weak = "{EncryptionPlaintext, EncryptionSendEncrypted, EncryptionReceiveEncrypted}"
  have "\<not> FullyEncrypted (EncryptionPolicyForMode raw) \<longleftrightarrow> NormalizeEncryptionMode raw \<in> ?weak"
    by (simp add: EncryptionPolicyForMode_def FullyEncrypted_def Let_def)
  moreover have "ToLower (TrimSpace raw) = raw" if "raw \<in> ?weak"
  proof -
    have "ToLower (TrimSpace EncryptionPlaintext) = EncryptionPlaintext"
      "ToLower (TrimSpace EncryptionSendEncrypted) = EncryptionSendEncrypted"
      "ToLower (TrimSpace EncryptionReceiveEncrypted) = EncryptionReceiveEncrypted"
      by code_simp+
    with that show ?thesis by auto
  qed
  ultimately show ?thesis
    by (auto simp: NormalizeEncryptionMode_def Let_def EncryptionPlaintext_def EncryptionSendEncrypted_def
        EncryptionReceiveEncrypted_def EncryptionSecure_def split: if_splits)
qed


section \<open>Hello messages\<close>

record hello =
  h_messageType :: u8
  h_suiteMask :: u16
  h_random :: bytes
  h_publicKey :: bytes
  h_certDER :: bytes
  h_signature :: bytes

definition handshakeMagic :: bytes where "handshakeMagic = [0x54, 0x49, 0x58, 0x48]"
definition handshakeVersion :: u8 where "handshakeVersion = 1"
definition helloTypeClient :: u8 where "helloTypeClient = 1"
definition helloTypeServer :: u8 where "helloTypeServer = 2"
definition helloTypeReset :: u8 where "helloTypeReset = 255"
abbreviation (input) maxHandshakeCertLen :: nat where "maxHandshakeCertLen \<equiv> 65536"
abbreviation (input) maxHandshakeSigLen :: nat where "maxHandshakeSigLen \<equiv> 8192"

definition hello_encode :: "hello \<Rightarrow> hs_error + bytes" where
  "hello_encode h =
     (if length (h_certDER h) > maxHandshakeCertLen \<or> length (h_signature h) > maxHandshakeSigLen
      then Inl ErrInvalidHandshake
      else
        let payload = handshakeMagic;
            payload = payload @ [handshakeVersion, h_messageType h];
            payload = payload @ be16 (normalizedSuiteMask (h_suiteMask h));
            payload = payload @ h_random h;
            payload = payload @ h_publicKey h;
            payload = payload @ be16 (word_of_nat (length (h_certDER h)));
            payload = payload @ be16 (word_of_nat (length (h_signature h)));
            payload = payload @ h_certDER h;
            payload = payload @ h_signature h
        in Inr payload)"

definition resetPacket :: bytes where
  "resetPacket =
     (let payload = replicate 76 0;
          payload = overwrite 0 handshakeMagic payload;
          payload = PutByte 4 handshakeVersion payload
      in PutByte 5 helloTypeReset payload)"

definition isResetPacket :: "bytes \<Rightarrow> bool" where
  "isResetPacket packet \<longleftrightarrow> length packet = 76 \<and> subslice 0 4 packet = handshakeMagic \<and>
     packet ! 4 = handshakeVersion \<and> packet ! 5 = helloTypeReset"

definition parseHello :: "bytes \<Rightarrow> u8 \<Rightarrow> hs_error + hello" where
  "parseHello raw wantType =
     (if isResetPacket raw then Inl ErrSessionReset
      else if length raw < 76 \<or> subslice 0 4 raw \<noteq> handshakeMagic \<or> raw ! 4 \<noteq> handshakeVersion \<or> raw ! 5 \<noteq> wantType
        then Inl ErrInvalidHandshake
      else
        let certLen = unat (Uint16 (subslice 72 74 raw));
            sigLen = unat (Uint16 (subslice 74 76 raw))
        in if certLen > maxHandshakeCertLen \<or> sigLen > maxHandshakeSigLen \<or> length raw \<noteq> 76 + certLen + sigLen
           then Inl ErrInvalidHandshake
           else Inr \<lparr>h_messageType = raw ! 5, h_suiteMask = Uint16 (subslice 6 8 raw),
                     h_random = subslice 8 40 raw, h_publicKey = subslice 40 72 raw,
                     h_certDER = subslice 76 (76 + certLen) raw, h_signature = drop (76 + certLen) raw\<rparr>)"

definition appendSuiteMaskForSignature :: "bytes \<Rightarrow> hello \<Rightarrow> bytes" where
  "appendSuiteMaskForSignature payload h =
     (if isDefaultSuiteMask (h_suiteMask h) then payload
      else (payload @ str_bytes ''suite_mask'' @ [0]) @ be16 (normalizedSuiteMask (h_suiteMask h)))"

definition clientSignaturePayload :: "hello \<Rightarrow> bytes" where
  "clientSignaturePayload clientHello =
     (let payload = str_bytes ''TrustIX secure transport client hello v1'' @ [0];
          payload = appendSuiteMaskForSignature payload clientHello;
          payload = payload @ h_random clientHello;
          payload = payload @ h_publicKey clientHello
      in payload @ h_certDER clientHello)"

definition serverSignaturePayload :: "hello \<Rightarrow> hello \<Rightarrow> bytes" where
  "serverSignaturePayload clientHello serverHello =
     (let payload = str_bytes ''TrustIX secure transport server hello v1'' @ [0];
          payload = appendSuiteMaskForSignature payload clientHello;
          payload = appendSuiteMaskForSignature payload serverHello;
          payload = payload @ h_random clientHello;
          payload = payload @ h_publicKey clientHello;
          payload = payload @ h_random serverHello;
          payload = payload @ h_publicKey serverHello
      in payload @ h_certDER serverHello)"

definition peerSessionGenerationFromHello :: "hello \<Rightarrow> bytes option" where
  "peerSessionGenerationFromHello peerHello =
     (if h_suiteMask peerHello AND helloFeatureSessionGeneration = 0 \<or> length (h_random peerHello) < 16 then None
      else Some (take 16 (h_random peerHello)))"

definition secureBatchRecordsNegotiated :: "hello \<Rightarrow> hello \<Rightarrow> bool" where
  "secureBatchRecordsNegotiated client server \<longleftrightarrow>
     h_suiteMask client AND h_suiteMask server AND helloFeatureBatchRecords \<noteq> 0"

definition secureTLSHandshakeOnlyNegotiated :: "hello \<Rightarrow> hello \<Rightarrow> bool" where
  "secureTLSHandshakeOnlyNegotiated client server \<longleftrightarrow>
     h_suiteMask client AND h_suiteMask server AND helloFeatureTLSHandshakeOnly \<noteq> 0"

definition secureDerivedEpochNegotiated :: "hello \<Rightarrow> hello \<Rightarrow> bool" where
  "secureDerivedEpochNegotiated client server \<longleftrightarrow>
     h_suiteMask client AND h_suiteMask server AND helloFeatureDerivedEpoch \<noteq> 0"

text \<open>Well-formed hellos: 32-byte random and key, the sizes the encoder accepts.\<close>

definition hello_fields :: "hello \<Rightarrow> bool" where
  "hello_fields h \<longleftrightarrow> length (h_random h) = 32 \<and> length (h_publicKey h) = 32"

lemma hello_encode_Inr:
  "hello_encode h = Inr raw \<longleftrightarrow> length (h_certDER h) \<le> 65536 \<and> length (h_signature h) \<le> 8192 \<and>
     raw = handshakeMagic @ [handshakeVersion, h_messageType h] @ be16 (normalizedSuiteMask (h_suiteMask h)) @
       h_random h @ h_publicKey h @ be16 (word_of_nat (length (h_certDER h))) @
       be16 (word_of_nat (length (h_signature h))) @ h_certDER h @ h_signature h"
  by (auto simp: hello_encode_def Let_def)

lemma parseHello_encoded:
  assumes "hello_encode h = Inr raw" and "hello_fields h" and "h_messageType h \<noteq> helloTypeReset"
  shows "parseHello raw (h_messageType h) =
    (if length (h_certDER h) = 65536 then Inl ErrInvalidHandshake
     else Inr (h\<lparr>h_suiteMask := normalizedSuiteMask (h_suiteMask h)\<rparr>))"
proof -
  let ?c = "length (h_certDER h)" and ?s = "length (h_signature h)"
  have raw: "raw = handshakeMagic @ [handshakeVersion, h_messageType h] @ be16 (normalizedSuiteMask (h_suiteMask h)) @
       h_random h @ h_publicKey h @ be16 (word_of_nat ?c) @ be16 (word_of_nat ?s) @ h_certDER h @ h_signature h"
    and len: "?c \<le> 65536" "?s \<le> 8192"
    using assms(1) by (simp_all add: hello_encode_Inr)
  have magic: "length handshakeMagic = 4" by (simp add: handshakeMagic_def)
  note f = assms(2) [unfolded hello_fields_def]
  have fields: "subslice 0 4 raw = handshakeMagic" "raw ! 4 = handshakeVersion" "raw ! 5 = h_messageType h"
    "Uint16 (subslice 6 8 raw) = normalizedSuiteMask (h_suiteMask h)"
    "subslice 8 40 raw = h_random h" "subslice 40 72 raw = h_publicKey h"
    "Uint16 (subslice 72 74 raw) = word_of_nat ?c" "Uint16 (subslice 74 76 raw) = word_of_nat ?s"
    "length raw = 76 + ?c + ?s" "subslice 76 (76 + ?c) raw = h_certDER h" "drop (76 + ?c) raw = h_signature h"
    using f by (simp_all add: raw magic wire_simps nth_append drop_Cons')
  have s: "unat (word_of_nat ?s :: u16) = ?s" using len(2) by (simp add: unat_of_nat)
  have c: "unat (word_of_nat ?c :: u16) = (if ?c = 65536 then 0 else ?c)"
    using len(1) by (simp add: unat_of_nat)
  have "\<not> isResetPacket raw" using fields(3) assms(3) by (simp add: isResetPacket_def)
  then show ?thesis
    using fields s c len by (simp add: parseHello_def Let_def)
qed

text \<open>The mask on the wire: one that names no suite (low twelve bits zero) gets the bit of the default suite.\<close>

definition effective_mask :: "u16 \<Rightarrow> u16" where
  "effective_mask m = (if m AND 0x0fff = 0 then m OR 1 else m)"

lemma normalizedSuiteMask_effective: "normalizedSuiteMask m = effective_mask m"
proof -
  have split: "m = (m AND 0x0fff) OR (m AND 0xf000)"
    by (rule bit_word_eqI) (auto simp: bit_simps numeral_eq_Suc less_Suc_eq)
  show ?thesis
  proof (cases "m AND 0x0fff = 0")
    case True
    then have "m AND 0xf000 = m" using split by simp
    with True show ?thesis by (simp add: normalizedSuiteMask_def effective_mask_def Let_def or.commute)
  next
    case False
    then show ?thesis using split by (simp add: normalizedSuiteMask_def effective_mask_def Let_def)
  qed
qed

text \<open>
  C16: hello round trip.  A hello with a 32-byte random and public key and a type other than
  the reset type (255), whose certificate chain and signature the encoder accepts, is parsed
  back by a peer expecting its type: every field is as sent, except that a suite mask which
  names no suite comes back with the bit of the default suite set.  The one exception is a
  certificate chain of exactly 65536 bytes: the encoder accepts that length, its 16-bit
  length field wraps to 0 and the peer rejects the message.
\<close>
theorem hello_roundtrip:
  assumes "hello_encode h = Inr raw" and "length (h_random h) = 32" and "length (h_publicKey h) = 32"
    and "h_messageType h \<noteq> 255"
  shows "parseHello raw (h_messageType h) =
    (if length (h_certDER h) = 65536 then Inl ErrInvalidHandshake
     else Inr (h\<lparr>h_suiteMask := if h_suiteMask h AND 0x0fff = 0 then h_suiteMask h OR 1 else h_suiteMask h\<rparr>))"
  using parseHello_encoded [OF assms(1)] assms(2-4)
  by (simp add: hello_fields_def helloTypeReset_def normalizedSuiteMask_effective effective_mask_def)

theorem hello_roundtrip_witness:
  "\<exists>raw. hello_encode \<lparr>h_messageType = 1, h_suiteMask = 0x8003, h_random = replicate 32 7, h_publicKey = replicate 32 9,
       h_certDER = [1, 2, 3], h_signature = [4, 5]\<rparr> = Inr raw \<and>
     parseHello raw 1 = Inr \<lparr>h_messageType = 1, h_suiteMask = 0x8003, h_random = replicate 32 7,
       h_publicKey = replicate 32 9, h_certDER = [1, 2, 3], h_signature = [4, 5]\<rparr>"
proof -
  let ?h = "\<lparr>h_messageType = 1, h_suiteMask = 0x8003, h_random = replicate 32 7, h_publicKey = replicate 32 9,
       h_certDER = [1, 2, 3], h_signature = [4, 5]\<rparr>"
  obtain raw where raw: "hello_encode ?h = Inr raw" by (simp add: hello_encode_def Let_def)
  then show ?thesis
    using hello_roundtrip [OF raw]
    by simp
qed

text \<open>The optional mask tag of a transcript.\<close>

definition mask_tag :: "hello \<Rightarrow> bytes" where
  "mask_tag h = appendSuiteMaskForSignature [] h"

lemma appendSuiteMask_tag: "appendSuiteMaskForSignature payload h = payload @ mask_tag h"
  by (simp add: mask_tag_def appendSuiteMaskForSignature_def)

definition nondefault_masks :: "hello list \<Rightarrow> u16 list" where
  "nondefault_masks hs = filter (\<lambda>m. m \<noteq> 1) (map (\<lambda>h. effective_mask (h_suiteMask h)) hs)"

lemma mask_tag_eq:
  "mask_tag h = (if normalizedSuiteMask (h_suiteMask h) = 1 then []
     else str_bytes ''suite_mask'' @ [0] @ be16 (normalizedSuiteMask (h_suiteMask h)))"
  by (simp add: mask_tag_def appendSuiteMaskForSignature_def isDefaultSuiteMask_def)

lemma length_mask_tag: "length (mask_tag h) = (if normalizedSuiteMask (h_suiteMask h) = 1 then 0 else 13)"
  by (simp add: mask_tag_eq)

lemma mask_tags_eq_iff:
  "mask_tag c @ mask_tag s = mask_tag c' @ mask_tag s' \<longleftrightarrow> nondefault_masks [c, s] = nondefault_masks [c', s']"
proof -
  have longer: "x \<noteq> y" if "length x \<noteq> length y" for x y :: bytes
    using that by auto
  show ?thesis
    by (auto simp: mask_tag_eq nondefault_masks_def normalizedSuiteMask_effective be16.inj_enc intro!: longer split: if_splits)
qed

text \<open>
  C18: what the server's signature binds.  For hellos with 32-byte randoms and keys whose
  server certificate chains have the same length, two transcripts are equal exactly when both
  randoms, both public keys and the server chain agree and the same non-default masks occur
  in the same order.  The tag does not say
  whose mask it is: a transcript with a non-default client mask and the default server mask
  equals the one with the two masks exchanged.
\<close>
theorem serverSignaturePayload_binds:
  assumes "hello_fields c" and "hello_fields s" and "hello_fields c'" and "hello_fields s'"
    and "length (h_certDER s) = length (h_certDER s')"
  shows "serverSignaturePayload c s = serverSignaturePayload c' s' \<longleftrightarrow>
    nondefault_masks [c, s] = nondefault_masks [c', s'] \<and>
    h_random c = h_random c' \<and> h_publicKey c = h_publicKey c' \<and>
    h_random s = h_random s' \<and> h_publicKey s = h_publicKey s' \<and> h_certDER s = h_certDER s'"
proof -
  let ?rest = "\<lambda>c s. h_random c @ h_publicKey c @ h_random s @ h_publicKey s @ h_certDER s"
  have "serverSignaturePayload c s = serverSignaturePayload c' s' \<longleftrightarrow>
      (mask_tag c @ mask_tag s) @ ?rest c s = (mask_tag c' @ mask_tag s') @ ?rest c' s'"
    by (simp add: serverSignaturePayload_def Let_def appendSuiteMask_tag)
  also have "\<dots> \<longleftrightarrow> mask_tag c @ mask_tag s = mask_tag c' @ mask_tag s' \<and> ?rest c s = ?rest c' s'"
    using assms by (intro append_eq_append_conv) (simp add: hello_fields_def)
  also have "?rest c s = ?rest c' s' \<longleftrightarrow> h_random c = h_random c' \<and> h_publicKey c = h_publicKey c' \<and>
      h_random s = h_random s' \<and> h_publicKey s = h_publicKey s' \<and> h_certDER s = h_certDER s'"
    using assms by (simp add: hello_fields_def)
  finally show ?thesis by (simp only: mask_tags_eq_iff)
qed

theorem serverSignaturePayload_binds_witness:
  "let c = \<lambda>m. \<lparr>h_messageType = 1, h_suiteMask = m, h_random = replicate 32 1, h_publicKey = replicate 32 2,
       h_certDER = [], h_signature = []\<rparr>;
     s = \<lambda>m. \<lparr>h_messageType = 2, h_suiteMask = m, h_random = replicate 32 3, h_publicKey = replicate 32 4,
       h_certDER = [5], h_signature = []\<rparr>
   in serverSignaturePayload (c 0xb003) (s 1) = serverSignaturePayload (c 1) (s 0xb003) \<and>
      serverSignaturePayload (c 0xb003) (s 3) \<noteq> serverSignaturePayload (c 3) (s 0xb003) \<and>
      negotiateSuite 0xb003 0xb003 = Inr suite_aes128 \<and> negotiateSuite 0xb003 1 = Inr suite_aes256"
proof -
  have "negotiateSuite 0xb003 0xb003 = Inr suite_aes128" "negotiateSuite 0xb003 1 = Inr suite_aes256"
    by code_simp+
  then show ?thesis
    by (simp add: serverSignaturePayload_binds hello_fields_def nondefault_masks_def effective_mask_def Let_def)
qed

end
