(* ===== verification/SecureSession.thy ===== *)
theory SecureSession
  imports SecureHello ReplayWindow
begin

unbundle bit_operations_syntax

text \<open>
  The data path of a secure session (\<^verbatim>\<open>internal/transport/secure/secure.go\<close>): sealing and
  sending of packets, batches and batch records, opening of received records, replay
  rejection, pending packets and counters.

  The AEAD of \<^verbatim>\<open>crypto/cipher\<close> is an argument: a record of its seal and open functions.
  The inner transport session is the list of packets handed to it (\<open>ss_sent\<close>), those whose
  send it then reports as failed included, together with an environment \<open>inner_env\<close> that says
  which of its optional interfaces it has and which sends succeed.  Buffer reuse (\<^verbatim>\<open>sendWire\<close>, arenas, borrowed slices) does not change values
  and is left out.
\<close>

section \<open>State\<close>

record aead =
  ae_seal :: "bytes \<Rightarrow> bytes \<Rightarrow> bytes \<Rightarrow> bytes"
  ae_open :: "bytes \<Rightarrow> bytes \<Rightarrow> bytes \<Rightarrow> bytes option"
  ae_overhead :: nat

text \<open>The documented behaviour of an AEAD: opening inverts sealing, and sealing adds the overhead.\<close>

definition aead_correct :: "aead \<Rightarrow> bool" where
  "aead_correct a \<longleftrightarrow> (\<forall>nonce plain ad. ae_open a nonce (ae_seal a nonce plain ad) ad = Some plain \<and>
     length (ae_seal a nonce plain ad) = length plain + ae_overhead a)"

datatype sess_role = ClientRole | ServerRole

datatype sess_error =
    SErrInner | SErrBuiltSize | SErrReset | SErrInvalidPacket | SErrReplay | SErrNoAEAD

record session =
  ss_role :: sess_role
  ss_sendAEAD :: "aead option"
  ss_recvAEAD :: "aead option"
  ss_sendIV :: bytes
  ss_recvIV :: bytes
  ss_epoch :: u64
  ss_cryptoOffloaded :: bool
  ss_cryptoSuite :: crypto_suite
  ss_cryptoKeySource :: string
  ss_encryptionMode :: string
  ss_sendEncrypted :: bool
  ss_recvEncrypted :: bool
  ss_peerGeneration :: "bytes option"
  ss_sendSeq :: u64
  ss_sendHeader :: bytes
  ss_recvPending :: "bytes list"
  ss_recvPendingIndex :: nat
  ss_replay :: replay_window
  ss_batchRecords :: bool
  ss_batchRecordsOut :: u64
  ss_batchPacketsOut :: u64
  ss_batchRecordsIn :: u64
  ss_batchPacketsIn :: u64
  ss_bytesSent :: u64
  ss_bytesRecv :: u64
  ss_packetsOut :: u64
  ss_packetsIn :: u64
  ss_clientHelloRaw :: bytes
  ss_serverHelloRaw :: bytes
  ss_cryptoPlacement :: string
  ss_peerCert :: "bytes option"
  ss_tlsHandshakeOnly :: bool
  ss_sent :: "bytes list"

record inner_env =
  ie_send :: "bytes \<Rightarrow> bool"
  ie_isBatch :: bool
  ie_sendBatch :: "bytes list \<Rightarrow> bool"
  ie_isBuilder :: bool
  ie_sendBuilt :: "bytes list \<Rightarrow> bool"

definition dataMagic :: bytes where "dataMagic = [0x54, 0x49, 0x58, 0x44]"
definition dataVersion :: u8 where "dataVersion = 1"
definition dataFlagBatch :: u8 where "dataFlagBatch = 1"
abbreviation (input) dataHeaderLen :: nat where "dataHeaderLen \<equiv> 24"

definition initDataHeader :: "session \<Rightarrow> session" where
  "initDataHeader session =
     (let h = overwrite 0 dataMagic (ss_sendHeader session);
          h = PutByte 4 dataVersion h;
          h = PutByte 5 (cs_ID (ss_cryptoSuite session)) h;
          h = PutByte 6 0 h;
          h = PutByte 7 0 h
      in session\<lparr>ss_sendHeader := PutUint64 8 (ss_epoch session) h\<rparr>)"


section \<open>Sending\<close>

definition innerSendPacket :: "inner_env \<Rightarrow> bytes \<Rightarrow> session \<Rightarrow> session \<times> bool" where
  "innerSendPacket env pkt session =
     (session\<lparr>ss_sent := ss_sent session @ [pkt]\<rparr>, ie_send env pkt)"

lemma case_bool_if [simp]: "(case b of True \<Rightarrow> x | False \<Rightarrow> y) = (if b then x else y)"
  by (cases b) simp_all

primrec innerSendEach :: "inner_env \<Rightarrow> bytes list \<Rightarrow> session \<Rightarrow> session \<times> bool" where
  "innerSendEach env [] session = (session, True)"
| "innerSendEach env (pkt # pkts) session =
     (case innerSendPacket env pkt session of
        (session, False) \<Rightarrow> (session, False)
      | (session, True) \<Rightarrow> innerSendEach env pkts session)"

definition countSent :: "session \<Rightarrow> u64 \<Rightarrow> u64 \<Rightarrow> session" where
  "countSent session bytes packets =
     session\<lparr>ss_bytesSent := ss_bytesSent session + bytes, ss_packetsOut := ss_packetsOut session + packets\<rparr>"

text \<open>The sum a loop over packet lengths accumulates in a \<^verbatim>\<open>uint64\<close>.\<close>

definition totalLen :: "bytes list \<Rightarrow> u64" where
  "totalLen pkts = foldl (\<lambda>n pkt. n + word_of_nat (length pkt)) 0 pkts"

definition recordPacketsSent :: "session \<Rightarrow> bytes list \<Rightarrow> session" where
  "recordPacketsSent session pkts = countSent session (totalLen pkts) (word_of_nat (length pkts))"

text \<open>Header, nonce and sealed wire of one record.\<close>

definition sendHeaderFor :: "session \<Rightarrow> u64 \<Rightarrow> bytes" where
  "sendHeaderFor session seq = PutUint64 16 seq (ss_sendHeader session)"

definition sendNonceFor :: "session \<Rightarrow> u64 \<Rightarrow> bytes" where
  "sendNonceFor session seq = take 4 (ss_sendIV session) @ be64 seq"

definition sealWire :: "aead \<Rightarrow> session \<Rightarrow> u64 \<Rightarrow> bytes \<Rightarrow> bytes" where
  "sealWire a session seq pkt =
     sendHeaderFor session seq @ ae_seal a (sendNonceFor session seq) pkt (sendHeaderFor session seq)"

definition session_SendPacket :: "inner_env \<Rightarrow> session \<Rightarrow> bytes \<Rightarrow> session \<times> sess_error option" where
  "session_SendPacket env session pkt =
     (if \<not> ss_sendEncrypted session \<or> ss_cryptoOffloaded session then
        case innerSendPacket env pkt session of
          (session, False) \<Rightarrow> (session, Some SErrInner)
        | (session, True) \<Rightarrow> (countSent session (word_of_nat (length pkt)) 1, None)
      else case ss_sendAEAD session of
        None \<Rightarrow> (session, Some SErrNoAEAD)
      | Some a \<Rightarrow>
          let seq = ss_sendSeq session + 1;
              session = session\<lparr>ss_sendSeq := seq\<rparr>;
              session = session\<lparr>ss_sendHeader := sendHeaderFor session seq\<rparr>;
              wire = sealWire a session seq pkt
          in case innerSendPacket env wire session of
               (session, False) \<Rightarrow> (session, Some SErrInner)
             | (session, True) \<Rightarrow> (countSent session (word_of_nat (length pkt)) 1, None))"

abbreviation (input) secureBatchRecordMaxPackets :: nat where "secureBatchRecordMaxPackets \<equiv> 256"
abbreviation (input) secureBatchRecordMaxPlain :: nat where "secureBatchRecordMaxPlain \<equiv> 4194304"

primrec layoutLoop :: "bytes list \<Rightarrow> nat \<Rightarrow> u64 \<Rightarrow> (nat \<times> u64) option" where
  "layoutLoop [] plainSize tot = Some (plainSize, tot)"
| "layoutLoop (packet # packets) plainSize tot =
     (if plainSize + length packet > secureBatchRecordMaxPlain then None
      else layoutLoop packets (plainSize + length packet) (tot + word_of_nat (length packet)))"

definition secureBatchRecordLayout :: "bytes list \<Rightarrow> (nat \<times> u64) option" where
  "secureBatchRecordLayout packets =
     (if length packets < 2 \<or> length packets > secureBatchRecordMaxPackets then None
      else let headerSize = 2 + length packets * 4 in
        if headerSize > secureBatchRecordMaxPlain then None else layoutLoop packets headerSize 0)"

text \<open>The loop that fills the length table and the payloads of a batch record in place.\<close>

primrec fillBatch :: "bytes list \<Rightarrow> nat \<Rightarrow> nat \<Rightarrow> bytes \<Rightarrow> bytes" where
  "fillBatch [] lengthOffset payloadOffset plaintext = plaintext"
| "fillBatch (packet # packets) lengthOffset payloadOffset plaintext =
     (let plaintext = PutUint32 lengthOffset (word_of_nat (length packet)) plaintext;
          plaintext = overwrite payloadOffset packet plaintext
      in fillBatch packets (lengthOffset + 4) (payloadOffset + length packet) plaintext)"

definition batchPlaintext :: "bytes list \<Rightarrow> bytes \<Rightarrow> bytes" where
  "batchPlaintext packets plaintext =
     fillBatch packets 2 (2 + length packets * 4) (PutUint16 0 (word_of_nat (length packets)) plaintext)"

text \<open>
  \<open>sendSecureBatchRecord\<close>: \<open>None\<close> when the packets do not fit a batch record and the caller has
  to fall back.  The builder hands out a buffer of the requested size, here zeroed.
\<close>

definition sendSecureBatchRecord ::
  "inner_env \<Rightarrow> session \<Rightarrow> bytes list \<Rightarrow> (session \<times> sess_error option) option" where
  "sendSecureBatchRecord env session packets =
     (case secureBatchRecordLayout packets of
        None \<Rightarrow> None
      | Some (plainSize, tot) \<Rightarrow>
          (case ss_sendAEAD session of
             None \<Rightarrow> None
           | Some a \<Rightarrow>
               let wireSize = dataHeaderLen + plainSize + ae_overhead a;
                   seq = ss_sendSeq session + 1;
                   session = session\<lparr>ss_sendSeq := seq\<rparr>;
                   header = PutUint64 16 seq (PutByte 6 dataFlagBatch (ss_sendHeader session));
                   plaintext = batchPlaintext packets (replicate plainSize 0);
                   wire = header @ ae_seal a (sendNonceFor session seq) plaintext header;
                   session = session\<lparr>ss_sent := ss_sent session @ [wire]\<rparr>
               in if length wire \<noteq> wireSize then Some (session, Some SErrBuiltSize)
                  else if ie_sendBuilt env [wire] then
                    let session = countSent session tot (word_of_nat (length packets))
                    in Some (session\<lparr>ss_batchRecordsOut := ss_batchRecordsOut session + 1,
                               ss_batchPacketsOut := ss_batchPacketsOut session + word_of_nat (length packets)\<rparr>, None)
                  else Some (session, Some SErrInner)))"

primrec sealEach :: "aead \<Rightarrow> session \<Rightarrow> u64 \<Rightarrow> bytes list \<Rightarrow> bytes list" where
  "sealEach a session seq [] = []"
| "sealEach a session seq (pkt # pkts) = sealWire a session seq pkt # sealEach a session (seq + 1) pkts"

definition sealedSizesOk :: "aead \<Rightarrow> bytes list \<Rightarrow> bytes list \<Rightarrow> bool" where
  "sealedSizesOk a pkts wires \<longleftrightarrow>
     list_all2 (\<lambda>pkt wire. length wire = dataHeaderLen + length pkt + ae_overhead a) pkts wires"

definition session_SendPackets :: "inner_env \<Rightarrow> session \<Rightarrow> bytes list \<Rightarrow> session \<times> sess_error option" where
  "session_SendPackets env session pkts =
     (if pkts = [] then (session, None)
      else if \<not> ss_sendEncrypted session \<or> ss_cryptoOffloaded session then
        if ie_isBatch env then
          let session = session\<lparr>ss_sent := ss_sent session @ pkts\<rparr> in
          if ie_sendBatch env pkts then (recordPacketsSent session pkts, None) else (session, Some SErrInner)
        else case innerSendEach env pkts session of
          (session, False) \<Rightarrow> (session, Some SErrInner)
        | (session, True) \<Rightarrow> (recordPacketsSent session pkts, None)
      else
        case (if ss_batchRecords session \<and> ie_isBuilder env \<and> length pkts > 1
              then sendSecureBatchRecord env session pkts else None) of
          Some r \<Rightarrow> r
        | None \<Rightarrow>
            (case ss_sendAEAD session of
               None \<Rightarrow> (session, Some SErrNoAEAD)
             | Some a \<Rightarrow>
                 let n = word_of_nat (length pkts);
                     session = session\<lparr>ss_sendSeq := ss_sendSeq session + n\<rparr>;
                     baseSeq = ss_sendSeq session - n + 1;
                     wires = sealEach a session baseSeq pkts;
                     session = session\<lparr>ss_sendHeader := sendHeaderFor session (ss_sendSeq session)\<rparr>;
                     handed = session\<lparr>ss_sent := ss_sent session @ wires\<rparr>
                 in if ie_isBuilder env then
                      if \<not> sealedSizesOk a pkts wires then (handed, Some SErrBuiltSize)
                      else if ie_sendBuilt env wires then (countSent handed (totalLen pkts) n, None)
                      else (handed, Some SErrInner)
                    else if ie_isBatch env then
                      if ie_sendBatch env wires then (countSent handed (totalLen pkts) n, None)
                      else (handed, Some SErrInner)
                    else case innerSendEach env wires session of
                      (session, False) \<Rightarrow> (session, Some SErrInner)
                    | (session, True) \<Rightarrow> (countSent session (totalLen pkts) n, None)))"

section \<open>Receiving\<close>

definition shouldOpenUserspaceEncryptedFallback :: "bytes \<Rightarrow> bool" where
  "shouldOpenUserspaceEncryptedFallback wire \<longleftrightarrow> length wire \<ge> 4 \<and> take 4 wire = dataMagic"

definition openEncryptedPacketNoReplay :: "session \<Rightarrow> bytes \<Rightarrow> sess_error + (bytes \<times> u64 \<times> u8)" where
  "openEncryptedPacketNoReplay session wire =
     (case ss_recvAEAD session of
        None \<Rightarrow> Inl SErrInvalidPacket
      | Some a \<Rightarrow>
          if length wire < dataHeaderLen + ae_overhead a then Inl SErrInvalidPacket
          else let header = take dataHeaderLen wire in
            if subslice 0 4 header \<noteq> dataMagic \<or> header ! 4 \<noteq> dataVersion \<or> header ! 5 \<noteq> cs_ID (ss_cryptoSuite session)
            then Inl SErrInvalidPacket
            else let flags = header ! 6 in
              if flags AND NOT dataFlagBatch \<noteq> 0 \<or> header ! 7 \<noteq> 0 \<or>
                 flags AND dataFlagBatch \<noteq> 0 \<and> \<not> ss_batchRecords session
              then Inl SErrInvalidPacket
              else let epoch = Uint64 (subslice 8 16 header) in
                if epoch \<noteq> ss_epoch session then Inl SErrInvalidPacket
                else let seq = Uint64 (subslice 16 24 header);
                         nonce = PutUint64 4 seq (overwrite 0 (take 12 (ss_recvIV session)) (replicate 12 0));
                         ciphertext = drop dataHeaderLen wire
                     in case ae_open a nonce ciphertext header of
                          Some plaintext \<Rightarrow> Inr (plaintext, seq, flags)
                        | None \<Rightarrow>
                            (case ae_open a nonce ciphertext [] of
                               None \<Rightarrow> Inl SErrInvalidPacket
                             | Some plaintext \<Rightarrow> Inr (plaintext, seq, flags)))"

definition handleDuplicateHandshake :: "inner_env \<Rightarrow> session \<Rightarrow> bytes \<Rightarrow> session \<times> (sess_error + bool)" where
  "handleDuplicateHandshake env session packet =
     (if length packet < 6 \<or> subslice 0 4 packet \<noteq> handshakeMagic \<or> packet ! 4 \<noteq> handshakeVersion
      then (session, Inr False)
      else if packet ! 5 = helloTypeClient then
        if ss_role session \<noteq> ServerRole then (session, Inr False)
        else if ss_clientHelloRaw session \<noteq> [] \<and> packet = ss_clientHelloRaw session then
          if ss_serverHelloRaw session \<noteq> [] then
            case innerSendPacket env (ss_serverHelloRaw session) session of
              (session, False) \<Rightarrow> (session, Inl SErrInner)
            | (session, True) \<Rightarrow> (session, Inr True)
          else (session, Inr True)
        else (session, Inr False)
      else if packet ! 5 = helloTypeServer then
        if ss_role session \<noteq> ClientRole then (session, Inr False)
        else (session, Inr (ss_serverHelloRaw session \<noteq> [] \<and> packet = ss_serverHelloRaw session))
      else (session, Inr False))"

text \<open>The two passes over the length table of a batch record: the check and the slicing.\<close>

function checkLengths :: "bytes \<Rightarrow> nat \<Rightarrow> nat \<Rightarrow> nat \<Rightarrow> u64 \<Rightarrow> (nat \<times> u64) option" where
  "checkLengths plaintext index count payloadOffset bytesReceived =
     (if index < count then
        let lengthOffset = 2 + index * 4;
            packetSize = unat (Uint32 (subslice lengthOffset (lengthOffset + 4) plaintext))
        in if payloadOffset + packetSize > length plaintext then None
           else checkLengths plaintext (Suc index) count (payloadOffset + packetSize) (bytesReceived + word_of_nat packetSize)
      else Some (payloadOffset, bytesReceived))"
  by auto
termination by (relation "measure (\<lambda>(_, index, count, _, _). count - index)") auto

function sliceLengths :: "bytes \<Rightarrow> nat \<Rightarrow> nat \<Rightarrow> nat \<Rightarrow> bytes list \<Rightarrow> bytes list" where
  "sliceLengths plaintext index count payloadOffset dst =
     (if index < count then
        let lengthOffset = 2 + index * 4;
            packetSize = unat (Uint32 (subslice lengthOffset (lengthOffset + 4) plaintext))
        in sliceLengths plaintext (Suc index) count (payloadOffset + packetSize)
             (dst @ [subslice payloadOffset (payloadOffset + packetSize) plaintext])
      else dst)"
  by auto
termination by (relation "measure (\<lambda>(_, index, count, _, _). count - index)") auto

declare checkLengths.simps [simp del] sliceLengths.simps [simp del]

definition appendSecureBatchRecordPackets ::
  "bytes list \<Rightarrow> bytes \<Rightarrow> sess_error + (bytes list \<times> u64 \<times> nat)" where
  "appendSecureBatchRecordPackets dst plaintext =
     (if length plaintext < 2 then Inl SErrInvalidPacket
      else let count = unat (Uint16 (subslice 0 2 plaintext)) in
        if count < 2 \<or> count > secureBatchRecordMaxPackets then Inl SErrInvalidPacket
        else let headerSize = 2 + count * 4 in
          if headerSize > length plaintext then Inl SErrInvalidPacket
          else case checkLengths plaintext 0 count headerSize 0 of
                 None \<Rightarrow> Inl SErrInvalidPacket
               | Some (payloadOffset, bytesReceived) \<Rightarrow>
                   if payloadOffset \<noteq> length plaintext then Inl SErrInvalidPacket
                   else Inr (sliceLengths plaintext 0 count headerSize dst, bytesReceived, count))"

text \<open>
  \<open>openReceivedRecordNoStats\<close>: an error, \<open>None\<close> when the wire was consumed without a packet,
  or the first packet with the bytes and packets received.
\<close>

definition openReceivedRecordNoStats ::
  "inner_env \<Rightarrow> session \<Rightarrow> bytes \<Rightarrow> session \<times> (sess_error + (bytes \<times> u64 \<times> u64) option)" where
  "openReceivedRecordNoStats env session wire =
     (if isResetPacket wire then (session, Inl SErrReset)
      else case handleDuplicateHandshake env session wire of
        (session, Inl e) \<Rightarrow> (session, Inl e)
      | (session, Inr True) \<Rightarrow> (session, Inr None)
      | (session, Inr False) \<Rightarrow>
          if \<not> ss_recvEncrypted session then (session, Inr (Some (wire, word_of_nat (length wire), 1)))
          else if ss_cryptoOffloaded session \<and> \<not> shouldOpenUserspaceEncryptedFallback wire
          then (session, Inr (Some (wire, word_of_nat (length wire), 1)))
          else case openEncryptedPacketNoReplay session wire of
            Inl e \<Rightarrow> (session, Inl e)
          | Inr (plaintext, seq, flags) \<Rightarrow>
              (case replayWindow_Accept (ss_replay session) seq of
                 (w, False) \<Rightarrow> (session\<lparr>ss_replay := w\<rparr>, Inl SErrReplay)
               | (w, True) \<Rightarrow>
                   let session = session\<lparr>ss_replay := w\<rparr> in
                   if flags AND dataFlagBatch = 0
                   then (session, Inr (Some (plaintext, word_of_nat (length plaintext), 1)))
                   else case appendSecureBatchRecordPackets [] plaintext of
                     Inl e \<Rightarrow> (session, Inl e)
                   | Inr (packets, bytesReceived, count) \<Rightarrow>
                       (session\<lparr>ss_recvPending := drop 1 packets, ss_recvPendingIndex := 0,
                          ss_batchRecordsIn := ss_batchRecordsIn session + 1,
                          ss_batchPacketsIn := ss_batchPacketsIn session + word_of_nat count\<rparr>,
                        Inr (Some (packets ! 0, bytesReceived, word_of_nat count)))))"

definition recordPacketsReceived :: "session \<Rightarrow> u64 \<Rightarrow> u64 \<Rightarrow> session" where
  "recordPacketsReceived session bytesReceived packetsReceived =
     (if packetsReceived = 0 then session
      else session\<lparr>ss_bytesRecv := ss_bytesRecv session + bytesReceived,
                   ss_packetsIn := ss_packetsIn session + packetsReceived\<rparr>)"

definition openReceivedPacket :: "inner_env \<Rightarrow> session \<Rightarrow> bytes \<Rightarrow> session \<times> (sess_error + bytes option)" where
  "openReceivedPacket env session wire =
     (case openReceivedRecordNoStats env session wire of
        (session, Inl e) \<Rightarrow> (session, Inl e)
      | (session, Inr None) \<Rightarrow> (session, Inr None)
      | (session, Inr (Some (plaintext, bytesReceived, packetsReceived))) \<Rightarrow>
          (recordPacketsReceived session bytesReceived packetsReceived, Inr (Some plaintext)))"

text \<open>Pending packets of an opened batch record.\<close>

definition popRecvPendingPacket :: "session \<Rightarrow> session \<times> bytes option" where
  "popRecvPendingPacket session =
     (if ss_recvPendingIndex session \<ge> length (ss_recvPending session)
      then (session\<lparr>ss_recvPending := [], ss_recvPendingIndex := 0\<rparr>, None)
      else let packet = ss_recvPending session ! ss_recvPendingIndex session;
               session = session\<lparr>ss_recvPending := (ss_recvPending session)[ss_recvPendingIndex session := []],
                                 ss_recvPendingIndex := ss_recvPendingIndex session + 1\<rparr>
           in (if ss_recvPendingIndex session = length (ss_recvPending session)
               then session\<lparr>ss_recvPending := [], ss_recvPendingIndex := 0\<rparr> else session,
               Some packet))"

definition takeRecvPending :: "session \<Rightarrow> int \<Rightarrow> session \<times> bytes list" where
  "takeRecvPending session mx =
     (if ss_recvPendingIndex session \<ge> length (ss_recvPending session)
      then (session\<lparr>ss_recvPending := [], ss_recvPendingIndex := 0\<rparr>, [])
      else let m = (if mx < 1 then 1 else nat mx);
               stop = min (ss_recvPendingIndex session + m) (length (ss_recvPending session));
               packets = subslice (ss_recvPendingIndex session) stop (ss_recvPending session);
               session = session\<lparr>ss_recvPendingIndex := stop\<rparr>
           in (if stop = length (ss_recvPending session)
               then session\<lparr>ss_recvPending := [], ss_recvPendingIndex := 0\<rparr> else session,
               packets))"

definition limitReceivedBatch :: "session \<Rightarrow> bytes list \<Rightarrow> int \<Rightarrow> session \<times> bytes list" where
  "limitReceivedBatch session packets mx =
     (if mx < 1 \<or> int (length packets) \<le> mx then (session, packets)
      else (session\<lparr>ss_recvPending := drop (nat mx) packets, ss_recvPendingIndex := 0\<rparr>, take (nat mx) packets))"

text \<open>
  What the inner session delivers: its successive results, \<open>None\<close> for an error.  A call
  that finds the sequence exhausted is still waiting.
\<close>

datatype 'a received = Waiting | Failed sess_error | Received 'a

fun recvLoop :: "inner_env \<Rightarrow> session \<Rightarrow> bytes option list \<Rightarrow> session \<times> bytes option list \<times> bytes received" where
  "recvLoop env session [] = (session, [], Waiting)"
| "recvLoop env session (None # input) = (session, input, Failed SErrInner)"
| "recvLoop env session (Some wire # input) =
     (case openReceivedPacket env session wire of
        (session, Inl SErrReplay) \<Rightarrow> recvLoop env session input
      | (session, Inl e) \<Rightarrow> (session, input, Failed e)
      | (session, Inr None) \<Rightarrow> recvLoop env session input
      | (session, Inr (Some plaintext)) \<Rightarrow> (session, input, Received plaintext))"

definition session_RecvPacket ::
  "inner_env \<Rightarrow> session \<Rightarrow> bytes option list \<Rightarrow> session \<times> bytes option list \<times> bytes received" where
  "session_RecvPacket env session input =
     (case popRecvPendingPacket session of
        (session, Some packet) \<Rightarrow> (session, input, Received packet)
      | (session, None) \<Rightarrow> recvLoop env session input)"

text \<open>
  In-place compaction of a received batch after replay rejection: the two copying loops move
  \<open>dst[read]\<close> to \<open>dst[write]\<close>, the dropping loop only subtracts the bytes of rejected packets.
\<close>

function copyRange :: "'a list \<Rightarrow> nat \<Rightarrow> nat \<Rightarrow> nat \<Rightarrow> 'a list \<times> nat \<times> nat" where
  "copyRange dst write read stop =
     (if read < stop then copyRange (dst[write := dst ! read]) (Suc write) (Suc read) stop
      else (dst, write, read))"
  by auto
termination by (relation "measure (\<lambda>(_, _, read, stop). stop - read)") auto

function dropRange :: "bytes list \<Rightarrow> nat \<Rightarrow> nat \<Rightarrow> u64 \<Rightarrow> nat \<times> u64" where
  "dropRange dst read stop bytesReceived =
     (if read < stop then dropRange dst (Suc read) stop (bytesReceived - word_of_nat (length (dst ! read)))
      else (read, bytesReceived))"
  by auto
termination by (relation "measure (\<lambda>(_, read, stop, _). stop - read)") auto

declare copyRange.simps [simp del] dropRange.simps [simp del]

fun compactBatch :: "bytes list \<Rightarrow> nat \<Rightarrow> nat \<Rightarrow> u64 \<Rightarrow> (nat \<times> nat \<times> bool) list \<Rightarrow> bytes list \<times> u64" where
  "compactBatch dst write read bytesReceived [] =
     (case copyRange dst write read (length dst) of (dst, write, read) \<Rightarrow> (take write dst, bytesReceived))"
| "compactBatch dst write read bytesReceived ((recordStart, count, ok) # records) =
     (if recordStart < read \<or> recordStart > length dst \<or> count > length dst - recordStart
      then (dst, bytesReceived)
      else case copyRange dst write read recordStart of
        (dst, write, read) \<Rightarrow>
          let recordEnd = recordStart + count in
          if ok then
            case copyRange dst write read recordEnd of
              (dst, write, read) \<Rightarrow> compactBatch dst write read bytesReceived records
          else
            case dropRange dst read recordEnd bytesReceived of
              (read, bytesReceived) \<Rightarrow> compactBatch dst write read bytesReceived records)"

definition filterReplayRejectedBatch ::
  "bytes list \<Rightarrow> nat \<Rightarrow> nat list \<Rightarrow> nat list \<Rightarrow> bool list \<Rightarrow> u64 \<Rightarrow> bytes list \<times> u64" where
  "filterReplayRejectedBatch dst startLen seqIndexes seqCounts acc bytesReceived =
     (if seqIndexes = [] \<or> length seqIndexes \<noteq> length acc \<or> length seqCounts \<noteq> length acc
      then (dst, bytesReceived)
      else if list_all id acc then (dst, bytesReceived)
      else compactBatch dst startLen startLen bytesReceived (zip seqIndexes (zip seqCounts acc)))"

record batch_acc =
  ba_dst :: "bytes list"
  ba_seqs :: "u64 list"
  ba_indexes :: "nat list"
  ba_counts :: "nat list"
  ba_flags :: "u8 list"
  ba_bytes :: u64

definition addPlain :: "batch_acc \<Rightarrow> bytes \<Rightarrow> batch_acc" where
  "addPlain acc wire = acc\<lparr>ba_dst := ba_dst acc @ [wire], ba_bytes := ba_bytes acc + word_of_nat (length wire)\<rparr>"

definition addRecord :: "batch_acc \<Rightarrow> bytes list \<Rightarrow> u64 \<Rightarrow> nat \<Rightarrow> u64 \<Rightarrow> u8 \<Rightarrow> batch_acc" where
  "addRecord acc dst recordBytes recordPackets seq flags =
     acc\<lparr>ba_dst := dst, ba_seqs := ba_seqs acc @ [seq], ba_indexes := ba_indexes acc @ [length (ba_dst acc)],
         ba_counts := ba_counts acc @ [recordPackets], ba_flags := ba_flags acc @ [flags],
         ba_bytes := ba_bytes acc + recordBytes\<rparr>"

text \<open>The loop over a received batch: plain when nothing is encrypted, opening otherwise.\<close>

fun openBatchLoop :: "inner_env \<Rightarrow> bytes list \<Rightarrow> session \<Rightarrow> batch_acc \<Rightarrow> session \<times> (sess_error + batch_acc)" where
  "openBatchLoop env [] session acc = (session, Inr acc)"
| "openBatchLoop env (wire # wires) session acc =
     (if isResetPacket wire then (session, Inl SErrReset)
      else case handleDuplicateHandshake env session wire of
        (session, Inl e) \<Rightarrow> (session, Inl e)
      | (session, Inr True) \<Rightarrow> openBatchLoop env wires session acc
      | (session, Inr False) \<Rightarrow>
          if \<not> ss_recvEncrypted session \<or> ss_cryptoOffloaded session \<and> \<not> shouldOpenUserspaceEncryptedFallback wire
          then openBatchLoop env wires session (addPlain acc wire)
          else case openEncryptedPacketNoReplay session wire of
            Inl e \<Rightarrow> (session, Inl e)
          | Inr (plaintext, seq, flags) \<Rightarrow>
              if flags AND dataFlagBatch \<noteq> 0 then
                case appendSecureBatchRecordPackets (ba_dst acc) plaintext of
                  Inl e \<Rightarrow> (session, Inl e)
                | Inr (dst, recordBytes, recordPackets) \<Rightarrow>
                    openBatchLoop env wires session (addRecord acc dst recordBytes recordPackets seq flags)
              else openBatchLoop env wires session
                     (addRecord acc (ba_dst acc @ [plaintext]) (word_of_nat (length plaintext)) 1 seq flags))"

primrec countBatchRecords :: "(bool \<times> u8 \<times> nat) list \<Rightarrow> session \<Rightarrow> session" where
  "countBatchRecords [] session = session"
| "countBatchRecords (r # rs) session =
     (case r of (acc, flags, count) \<Rightarrow>
        countBatchRecords rs
          (if acc \<and> flags AND dataFlagBatch \<noteq> 0
           then session\<lparr>ss_batchRecordsIn := ss_batchRecordsIn session + 1,
                        ss_batchPacketsIn := ss_batchPacketsIn session + word_of_nat count\<rparr>
           else session))"

definition openReceivedPacketBatch ::
  "inner_env \<Rightarrow> session \<Rightarrow> bytes list \<Rightarrow> bytes list \<Rightarrow> session \<times> (sess_error + (bytes list \<times> u64 \<times> u64))" where
  "openReceivedPacketBatch env session dst wires =
     (if wires = [] then (session, Inr (dst, 0, 0))
      else let startLen = length dst in
        case openBatchLoop env wires session
               \<lparr>ba_dst = dst, ba_seqs = [], ba_indexes = [], ba_counts = [], ba_flags = [], ba_bytes = 0\<rparr> of
          (session, Inl e) \<Rightarrow> (session, Inl e)
        | (session, Inr acc) \<Rightarrow>
            if ba_seqs acc = []
            then (session, Inr (ba_dst acc, ba_bytes acc, word_of_nat (length (ba_dst acc) - startLen)))
            else case replayWindow_AcceptBatchResults (ss_replay session) (ba_seqs acc) of
              (w, oks) \<Rightarrow>
                let session = session\<lparr>ss_replay := w\<rparr> in
                (case filterReplayRejectedBatch (ba_dst acc) startLen (ba_indexes acc) (ba_counts acc) oks (ba_bytes acc) of
                   (dst, bytesReceived) \<Rightarrow>
                     (countBatchRecords (zip oks (zip (ba_flags acc) (ba_counts acc))) session,
                      Inr (dst, bytesReceived, word_of_nat (length dst - startLen)))))"

fun recvBatchLoop ::
  "inner_env \<Rightarrow> session \<Rightarrow> bytes list option list \<Rightarrow> int \<Rightarrow> session \<times> bytes list option list \<times> bytes list received" where
  "recvBatchLoop env session [] mx = (session, [], Waiting)"
| "recvBatchLoop env session (None # input) mx = (session, input, Failed SErrInner)"
| "recvBatchLoop env session (Some wires # input) mx =
     (case openReceivedPacketBatch env session [] wires of
        (session, Inl e) \<Rightarrow> (session, input, Failed e)
      | (session, Inr (packets, bytesReceived, packetsReceived)) \<Rightarrow>
          if packets \<noteq> [] then
            case limitReceivedBatch (recordPacketsReceived session bytesReceived packetsReceived) packets mx of
              (session, packets) \<Rightarrow> (session, input, Received packets)
          else recvBatchLoop env session input mx)"

text \<open>
  \<open>RecvPackets\<close> over the two streams an inner session offers, one per receive interface;
  \<open>batchReceiver\<close> says whether it has the batch interface.
\<close>

definition session_RecvPackets ::
  "inner_env \<Rightarrow> bool \<Rightarrow> session \<Rightarrow> bytes option list \<times> bytes list option list \<Rightarrow> int \<Rightarrow>
   session \<times> (bytes option list \<times> bytes list option list) \<times> bytes list received" where
  "session_RecvPackets env batchReceiver session input mx =
     (case takeRecvPending session mx of
        (session, packets) \<Rightarrow>
          if packets \<noteq> [] then (session, input, Received packets)
          else if mx \<le> 1 \<or> \<not> batchReceiver then
            case session_RecvPacket env session (fst input) of
              (session, singles, Received packet) \<Rightarrow> (session, (singles, snd input), Received [packet])
            | (session, singles, Failed e) \<Rightarrow> (session, (singles, snd input), Failed e)
            | (session, singles, Waiting) \<Rightarrow> (session, (singles, snd input), Waiting)
          else case recvBatchLoop env session (snd input) mx of
            (session, batches, r) \<Rightarrow> (session, (fst input, batches), r))"

end
