(* ===== verification/SecureRecords.thy ===== *)
theory SecureRecords
  imports SecureSession
begin

unbundle bit_operations_syntax

text \<open>
  The receive path of the session model: the batch record codec, the in-place compaction
  after replay rejection, and the agreement of batch receive with single receive.
\<close>


section \<open>The batch record codec\<close>

definition length_table :: "bytes list \<Rightarrow> bytes" where
  "length_table packets = concat (map (\<lambda>p. be32 (word_of_nat (length p))) packets)"

text \<open>The layout of a batch record: count, length table, packets.\<close>

definition batch_layout :: "bytes list \<Rightarrow> bytes" where
  "batch_layout packets = be16 (word_of_nat (length packets)) @ length_table packets @ concat packets"

definition batchable :: "bytes list \<Rightarrow> bool" where
  "batchable packets \<longleftrightarrow> 2 \<le> length packets \<and> length packets \<le> 256 \<and> list_all (\<lambda>p. length p < 2 ^ 32) packets"

lemma length_table_simps [simp]:
  "length_table [] = []" "length_table (p # ps) = be32 (word_of_nat (length p)) @ length_table ps"
  "length (length_table ps) = 4 * length ps" "length_table (ps @ qs) = length_table ps @ length_table qs"
  by (simp_all add: length_table_def length_concat comp_def sum_list_triv)

lemma totalLen_simps [simp]: "totalLen [] = 0" "totalLen (p # ps) = word_of_nat (length p) + totalLen ps"
proof -
  have "foldl (\<lambda>n pkt. n + word_of_nat (length pkt)) a ps = a + foldl (\<lambda>n pkt. n + word_of_nat (length pkt)) (0 :: u64) ps"
    for a :: u64
  proof (induction ps arbitrary: a)
    case (Cons p ps)
    show ?case
      using Cons.IH [of "a + word_of_nat (length p)"] Cons.IH [of "word_of_nat (length p)"] by (simp add: add.assoc)
  qed simp
  from this [of "word_of_nat (length p)"] show "totalLen (p # ps) = word_of_nat (length p) + totalLen ps"
    by (simp add: totalLen_def)
qed (simp add: totalLen_def)

lemma totalLen_append [simp]: "totalLen (ps @ qs) = totalLen ps + totalLen qs"
  by (induction ps) (simp_all add: add.assoc)

lemma fillBatch_eq:
  assumes "length T = 4 * length ps" and "length R = length (concat ps)"
  shows "fillBatch ps (length A) (length A + 4 * length ps + length M) (A @ T @ M @ R) =
         A @ length_table ps @ M @ concat ps"
  using assms
proof (induction ps arbitrary: A T M R)
  case (Cons p ps)
  define t where "t = drop 4 T" define r where "r = drop (length p) R"
  let ?l = "be32 (word_of_nat (length p))"
  have len: "length t = 4 * length ps" "length r = length (concat ps)"
    using Cons.prems by (simp_all add: t_def r_def)
  have "overwrite (length A) ?l (A @ T @ M @ R) = (A @ ?l) @ t @ M @ R"
    using Cons.prems by (simp add: overwrite_def t_def)
  moreover have "overwrite (length A + 4 * length (p # ps) + length M) p ((A @ ?l) @ t @ M @ R)
      = (A @ ?l) @ t @ (M @ p) @ r"
    using len by (simp add: overwrite_def r_def)
  ultimately show ?case
    using Cons.IH [OF len, of "A @ ?l" "M @ p"] by (simp add: Let_def algebra_simps)
qed simp

lemma batchPlaintext_eq:
  assumes "length buf = 2 + 4 * length packets + length (concat packets)"
  shows "batchPlaintext packets buf = batch_layout packets"
proof -
  let ?n = "be16 (word_of_nat (length packets))"
  define T where "T = take (4 * length packets) (drop 2 buf)"
  define R where "R = drop (2 + 4 * length packets) buf"
  have "drop 2 buf = T @ R"
    using append_take_drop_id [of "4 * length packets" "drop 2 buf"] by (simp add: T_def R_def add.commute)
  then have "overwrite 0 ?n buf = ?n @ T @ [] @ R"
    by (simp add: overwrite_def numeral_2_eq_2)
  moreover have "length T = 4 * length packets" "length R = length (concat packets)"
    using assms by (simp_all add: T_def R_def)
  ultimately show ?thesis
    using fillBatch_eq [of T packets R ?n "[]"] by (simp add: batchPlaintext_def batch_layout_def mult.commute [of _ 4])
qed

lemma layoutLoop_eq:
  "layoutLoop ps n b = (if n + length (concat ps) \<le> 4194304 \<or> ps = [] then Some (n + length (concat ps), b + totalLen ps) else None)"
  by (induction ps arbitrary: n b) (auto simp: algebra_simps)

lemma secureBatchRecordLayout_Some:
  "secureBatchRecordLayout packets = Some (n, b) \<longleftrightarrow>
   2 \<le> length packets \<and> length packets \<le> 256 \<and> n = 2 + 4 * length packets + length (concat packets) \<and>
   n \<le> 4194304 \<and> b = totalLen packets"
  by (auto simp: secureBatchRecordLayout_def layoutLoop_eq Let_def)

lemma length_le_concat: "p \<in> set ps \<Longrightarrow> length p \<le> length (concat ps)"
  by (induction ps) auto

lemma layout_batchable: "secureBatchRecordLayout packets = Some (n, b) \<Longrightarrow> batchable packets"
  by (auto simp: secureBatchRecordLayout_Some batchable_def list_all_iff dest!: length_le_concat)

text \<open>Reading an encoded length table, entry by entry.\<close>

definition batch_entry :: "bytes \<Rightarrow> nat \<Rightarrow> u32" where
  "batch_entry pt i = Uint32 (subslice (2 + i * 4) (2 + i * 4 + 4) pt)"

lemma checkLengths_step:
  "checkLengths pt i n off b =
     (if i < n then if off + unat (batch_entry pt i) > length pt then None
        else checkLengths pt (Suc i) n (off + unat (batch_entry pt i)) (b + word_of_nat (unat (batch_entry pt i)))
      else Some (off, b))"
  by (subst checkLengths.simps) (simp only: batch_entry_def Let_def)

lemma sliceLengths_step:
  "sliceLengths pt i n off dst =
     (if i < n then sliceLengths pt (Suc i) n (off + unat (batch_entry pt i))
        (dst @ [subslice off (off + unat (batch_entry pt i)) pt]) else dst)"
  by (subst sliceLengths.simps) (simp only: batch_entry_def Let_def)

lemma checkLengths_encoded:
  assumes "list_all (\<lambda>p. length p < 2 ^ 32) todo"
    and "pt = be16 n @ length_table (ds @ todo) @ concat (ds @ todo)"
    and "off = 2 + 4 * length (ds @ todo) + length (concat ds)"
  shows "checkLengths pt (length ds) (length (ds @ todo)) off b = Some (length pt, b + totalLen todo) \<and>
    sliceLengths pt (length ds) (length (ds @ todo)) off dst = dst @ todo"
  using assms
proof (induction todo arbitrary: ds off b dst)
  case Nil
  then show ?case by (simp add: checkLengths_step sliceLengths_step)
next
  case (Cons p ps)
  let ?N = "length (ds @ p # ps)"
  have len: "length p < 2 ^ 32" "length pt - off \<ge> length p" "off + length (concat (p # ps)) = length pt"
    using Cons.prems by simp_all
  then have u: "unat (word_of_nat (length p) :: u32) = length p" by (simp add: unat_of_nat)
  have f: "batch_entry pt (length ds) = word_of_nat (length p)"
    using Cons.prems by (simp add: batch_entry_def subslice_def mult.commute [of _ 4])
  have g: "subslice off (off + length p) pt = p"
    using Cons.prems by (simp add: subslice_def)
  have "checkLengths pt (length ds) ?N off b = checkLengths pt (length (ds @ [p])) ?N (off + length p) (b + word_of_nat (length p))"
    using len by (subst checkLengths_step) (simp add: f u del: of_nat_unat)
  moreover have "sliceLengths pt (length ds) ?N off dst = sliceLengths pt (length (ds @ [p])) ?N (off + length p) (dst @ [p])"
    by (subst sliceLengths_step) (simp add: f g u)
  ultimately show ?case
    using Cons.prems Cons.IH [of "ds @ [p]" "off + length p"] by (simp add: add.assoc)
qed

lemma append_batch_layout:
  assumes "batchable packets"
  shows "appendSecureBatchRecordPackets dst (batch_layout packets) = Inr (dst @ packets, totalLen packets, length packets)"
proof -
  let ?pt = "batch_layout packets"
  have c: "unat (Uint16 (subslice 0 2 ?pt)) = length packets"
    using assms by (simp add: batch_layout_def subslice_def batchable_def unat_of_nat)
  have "checkLengths ?pt 0 (length packets) (2 + length packets * 4) 0 = Some (length ?pt, totalLen packets)"
    "sliceLengths ?pt 0 (length packets) (2 + length packets * 4) dst = dst @ packets"
    using assms checkLengths_encoded [of packets ?pt "word_of_nat (length packets)" "[]" "2 + length packets * 4"]
    by (simp_all add: batch_layout_def batchable_def)
  then show ?thesis
    using assms c
    by (simp add: appendSecureBatchRecordPackets_def Let_def batchable_def) (simp add: batch_layout_def)
qed

text \<open>Conversely, what the parser accepts is the layout of what it returns.\<close>

lemma checkLengths_decoded:
  assumes "checkLengths pt i n off b = Some (length pt, b')" and "i \<le> n" and "2 + 4 * n \<le> length pt" and "off \<le> length pt"
  shows "\<exists>ps. (\<forall>dst. sliceLengths pt i n off dst = dst @ ps) \<and> length ps = n - i \<and> b' = b + totalLen ps \<and>
    list_all (\<lambda>p. length p < 2 ^ 32) ps \<and> concat ps = drop off pt \<and> length_table ps = subslice (2 + 4 * i) (2 + 4 * n) pt"
  using assms
proof (induction "n - i" arbitrary: i off b)
  case 0
  then show ?case
    by (intro exI [of _ "[]"]) (simp add: checkLengths_step [of pt i] sliceLengths_step [of pt i] subslice_def)
next
  case (Suc k)
  let ?w = "batch_entry pt i"
  define p where "p = subslice off (off + unat ?w) pt"
  have less: "i < n" and k: "k = n - Suc i" using Suc.hyps(2) by simp_all
  have fits: "off + unat ?w \<le> length pt"
    and rest: "checkLengths pt (Suc i) n (off + unat ?w) (b + word_of_nat (unat ?w)) = Some (length pt, b')"
    using Suc.prems(1,4) less by (simp_all add: checkLengths_step [of pt i] split: if_splits)
  have p: "length p = unat ?w" using fits by (simp add: p_def)
  obtain ps where ps: "\<And>dst. sliceLengths pt (Suc i) n (off + unat ?w) dst = dst @ ps" "length ps = n - Suc i"
      "b' = b + word_of_nat (unat ?w) + totalLen ps" "list_all (\<lambda>p. length p < 2 ^ 32) ps"
      "concat ps = drop (off + unat ?w) pt" "length_table ps = subslice (2 + 4 * Suc i) (2 + 4 * n) pt"
    using Suc.hyps(1) [OF k rest] Suc.prems(3) less fits by auto
  have "drop off pt = p @ drop (off + unat ?w) pt"
    using append_take_drop_id [of "unat ?w" "drop off pt"] by (simp add: p_def subslice_def add.commute)
  moreover have "be32 ?w = subslice (2 + 4 * i) (2 + 4 * Suc i) pt"
    using be32.enc_dec_exact [of "subslice (2 + i * 4) (2 + i * 4 + 4) pt"] less Suc.prems(3)
    by (simp add: batch_entry_def algebra_simps)
  moreover have "sliceLengths pt i n off dst = dst @ p # ps" for dst
    using less by (subst sliceLengths_step) (simp add: ps(1) p_def)
  ultimately show ?case
    using ps p less unat_u32_less [of ?w]
    by (intro exI [of _ "p # ps"]) (simp add: subslice_append add.assoc)
qed

lemma append_batch_decoded:
  assumes "appendSecureBatchRecordPackets dst pt = Inr (out, b, n)"
  shows "\<exists>packets. batchable packets \<and> pt = batch_layout packets"
proof -
  let ?n = "unat (Uint16 (subslice 0 2 pt))"
  from assms have c: "2 \<le> length pt" "2 \<le> ?n" "?n \<le> 256" "2 + 4 * ?n \<le> length pt"
    and ck: "checkLengths pt 0 ?n (2 + 4 * ?n) 0 = Some (length pt, b)"
    by (auto simp: appendSecureBatchRecordPackets_def Let_def mult.commute [of _ 4] split: if_splits option.splits)
  obtain ps where ps: "length ps = ?n" "list_all (\<lambda>p. length p < 2 ^ 32) ps"
      "concat ps = drop (2 + 4 * ?n) pt" "length_table ps = subslice 2 (2 + 4 * ?n) pt"
    using checkLengths_decoded [OF ck] c by auto
  have "be16 (word_of_nat ?n) = subslice 0 2 pt"
    using be16.enc_dec_exact [of "subslice 0 2 pt"] c(1) by simp
  then have "pt = batch_layout ps"
    using ps c subslice_to_end [of "2 + 4 * ?n" pt] by (simp add: batch_layout_def subslice_append_assoc)
  moreover have "batchable ps" using ps(1,2) c by (simp add: batchable_def)
  ultimately show ?thesis by blast
qed

lemma append_batch_error: "appendSecureBatchRecordPackets dst pt = Inl e \<Longrightarrow> e = SErrInvalidPacket"
  by (auto simp: appendSecureBatchRecordPackets_def Let_def split: if_splits option.splits)

lemma append_batch_dst:
  "appendSecureBatchRecordPackets dst pt =
     map_sum id (\<lambda>(ps, b, n). (dst @ ps, totalLen ps, length ps)) (appendSecureBatchRecordPackets [] pt)"
proof (cases "\<exists>packets. batchable packets \<and> pt = batch_layout packets")
  case True
  then show ?thesis by (auto simp: append_batch_layout)
next
  case False
  then have "appendSecureBatchRecordPackets d pt = Inl SErrInvalidPacket" for d
    using append_batch_decoded [of d pt] append_batch_error [of d pt]
    by (cases "appendSecureBatchRecordPackets d pt") auto
  then show ?thesis by simp
qed

text \<open>
  C22: the batch record codec.  A plaintext is accepted exactly when it is the layout of
  between 2 and 256 packets, and then exactly those packets, their total length and their
  number are returned, after whatever the destination already held.
\<close>
theorem batch_record_codec:
  "appendSecureBatchRecordPackets dst pt = Inr (out, b, n) \<longleftrightarrow>
   (\<exists>packets. batchable packets \<and> pt = batch_layout packets \<and> out = dst @ packets \<and>
      b = totalLen packets \<and> n = length packets)"
  using append_batch_decoded [of dst pt] by (auto simp: append_batch_layout)


section \<open>Compaction after replay rejection\<close>

lemma copyRange_eq:
  "\<exists>junk'. length junk' = length junk \<and>
    copyRange (kept @ junk @ src @ rest) (length kept) (length kept + length junk) (length kept + length junk + length src) =
      (kept @ src @ junk' @ rest, length kept + length src, length kept + length junk + length src)"
proof (induction src arbitrary: kept junk)
  case Nil
  then show ?case by (simp add: copyRange.simps)
next
  case (Cons x src)
  define next_junk where "next_junk = tl (junk @ [x])"
  have len: "length next_junk = length junk" by (simp add: next_junk_def)
  have "(kept @ junk @ (x # src) @ rest)[length kept := x] = (kept @ [x]) @ next_junk @ src @ rest"
    by (cases junk) (simp_all add: next_junk_def list_update_append)
  moreover have "(kept @ junk @ (x # src) @ rest) ! (length kept + length junk) = x"
    by (simp add: nth_append)
  ultimately show ?case
    using Cons.IH [of next_junk "kept @ [x]"] len by (simp add: copyRange.simps [of "_ @ _"])
qed

lemma dropRange_eq:
  "dropRange (pre @ src @ rest) (length pre) (length pre + length src) b = (length pre + length src, b - totalLen src)"
proof (induction src arbitrary: pre b)
  case Nil
  then show ?case by (simp add: dropRange.simps)
next
  case (Cons x src)
  then show ?case
    using Cons.IH [of "pre @ [x]"] by (simp add: dropRange.simps [of "_ @ _"] nth_append diff_diff_eq)
qed

text \<open>
  A received batch as segments: the packets that bypass the replay window, the packets of
  a record, and whether the window accepted the record.
\<close>

type_synonym segment = "bytes list \<times> bytes list \<times> bool"

primrec segment_records :: "nat \<Rightarrow> segment list \<Rightarrow> (nat \<times> nat \<times> bool) list" where
  "segment_records off [] = []"
| "segment_records off (s # ss) =
     (case s of (gap, packets, ok) \<Rightarrow>
        (off + length gap, length packets, ok) # segment_records (off + length gap + length packets) ss)"

definition segments_all :: "segment list \<Rightarrow> bytes list" where
  "segments_all ss = concat (map (\<lambda>(gap, packets, ok). gap @ packets) ss)"

definition segments_kept :: "segment list \<Rightarrow> bytes list" where
  "segments_kept ss = concat (map (\<lambda>(gap, packets, ok). gap @ (if ok then packets else [])) ss)"

lemma segments_simps [simp]:
  "segments_all [] = []" "segments_all ((gap, packets, ok) # ss) = gap @ packets @ segments_all ss"
  "segments_kept [] = []"
  "segments_kept ((gap, packets, ok) # ss) = gap @ (if ok then packets else []) @ segments_kept ss"
  by (simp_all add: segments_all_def segments_kept_def)

lemma compactBatch_eq:
  "compactBatch (kept @ junk @ segments_all ss @ tail) (length kept) (length kept + length junk) b
      (segment_records (length kept + length junk) ss) =
   (kept @ segments_kept ss @ tail, b - totalLen (segments_all ss) + totalLen (segments_kept ss))"
proof (induction ss arbitrary: kept junk b)
  case Nil
  obtain junk' where "copyRange (kept @ junk @ tail @ []) (length kept) (length kept + length junk)
      (length kept + length junk + length tail) =
      (kept @ tail @ junk' @ [], length kept + length tail, length kept + length junk + length tail)"
    using copyRange_eq [of junk kept tail "[]"] by blast
  then show ?case by (simp add: add.assoc)
next
  case (Cons s ss)
  obtain gap ps ok where s: "s = (gap, ps, ok)" by (cases s)
  let ?rest = "segments_all ss @ tail"
  obtain junk1 where j1: "length junk1 = length junk"
    "copyRange (kept @ junk @ gap @ ps @ ?rest) (length kept) (length kept + length junk) (length kept + length junk + length gap) =
      (kept @ gap @ junk1 @ ps @ ?rest, length kept + length gap, length kept + length junk + length gap)"
    using copyRange_eq [of junk kept gap "ps @ ?rest"] by blast
  show ?case
  proof (cases ok)
    case True
    obtain junk2 where j2: "length junk2 = length junk1"
      "copyRange ((kept @ gap) @ junk1 @ ps @ ?rest) (length (kept @ gap)) (length (kept @ gap) + length junk1)
         (length (kept @ gap) + length junk1 + length ps) =
        ((kept @ gap) @ ps @ junk2 @ ?rest, length (kept @ gap) + length ps, length (kept @ gap) + length junk1 + length ps)"
      using copyRange_eq [of junk1 "kept @ gap" ps ?rest] by blast
    show ?thesis
      using Cons.IH [of "kept @ gap @ ps" junk2 b] j1 j2 True by (simp add: s Let_def ac_simps)
  next
    case False
    then show ?thesis
      using Cons.IH [of "kept @ gap" "junk1 @ ps" "b - totalLen ps"] j1
        dropRange_eq [of "kept @ gap @ junk1" ps ?rest b] by (simp add: s Let_def ac_simps)
  qed
qed

lemma length_segment_records [simp]: "length (segment_records off ss) = length ss"
  by (induction ss arbitrary: off) (auto split: prod.splits)

lemma segment_records_oks: "map (snd \<circ> snd) (segment_records off ss) = map (snd \<circ> snd) ss"
  by (induction ss arbitrary: off) (auto split: prod.splits)

lemma segments_kept_all: "list_all (snd \<circ> snd) ss \<Longrightarrow> segments_kept ss = segments_all ss"
  by (induction ss) (auto split: prod.splits)

lemma filter_batch_eq:
  assumes "recs = segment_records (length pre) ss"
  shows "filterReplayRejectedBatch (pre @ segments_all ss @ tail) (length pre)
      (map fst recs) (map (fst \<circ> snd) recs) (map (snd \<circ> snd) recs) b =
    (pre @ segments_kept ss @ tail, b - totalLen (segments_all ss) + totalLen (segments_kept ss))"
proof -
  have zip: "zip (map fst recs) (zip (map (fst \<circ> snd) recs) (map (snd \<circ> snd) recs)) = recs"
    by (induction recs) auto
  show ?thesis
  proof (cases "list_all (snd \<circ> snd) ss")
    case True
    then have "list_all id (map (snd \<circ> snd) recs)"
      using assms by (simp add: segment_records_oks list_all_iff)
    with True show ?thesis
      by (simp add: filterReplayRejectedBatch_def segments_kept_all)
  next
    case False
    then have "\<not> list_all id (map (snd \<circ> snd) recs)"
      using assms by (simp add: segment_records_oks list_all_iff)
    then show ?thesis
      using zip compactBatch_eq [of pre "[]" ss tail b] assms
      by (auto simp: filterReplayRejectedBatch_def)
  qed
qed

text \<open>
  Replay filtering of a batch.  Given a destination made of an untouched prefix,
  segments and a tail, the in-place compaction keeps the prefix, every bypassing packet, the
  packets of exactly the accepted records and the tail, in order, and the byte count drops by
  what was removed.
\<close>
theorem filterReplayRejectedBatch_spec:
  assumes "recs = segment_records (length pre) ss"
  shows "filterReplayRejectedBatch (pre @ segments_all ss @ tail) (length pre)
      (map fst recs) (map (fst \<circ> snd) recs) (map (snd \<circ> snd) recs) b =
    (pre @ segments_kept ss @ tail, b - totalLen (segments_all ss) + totalLen (segments_kept ss))"
  by (rule filter_batch_eq [OF assms])

theorem filterReplayRejectedBatch_spec_witness:
  "filterReplayRejectedBatch [[9], [1], [2, 2], [3], [4]] 1 [1, 3] [2, 1] [False, True] 5 = ([[9], [3], [4]], 2)"
  using filterReplayRejectedBatch_spec [OF refl, where pre = "[[9]]" and tail = "[[4]]" and b = 5
      and ss = "[([], [[1], [2, 2]], False), ([], [[3]], True)]"] by (simp add: eval_nat_numeral)

section \<open>Batch receive against single receive\<close>

text \<open>What one received wire amounts to, before the replay window is consulted.\<close>

datatype verdict = Handled | Bypass bytes | Opened "bytes list" u64 u8

definition classify :: "inner_env \<Rightarrow> session \<Rightarrow> bytes \<Rightarrow> session \<times> (sess_error + verdict)" where
  "classify env session wire =
     (if isResetPacket wire then (session, Inl SErrReset)
      else case handleDuplicateHandshake env session wire of
        (session, Inl e) \<Rightarrow> (session, Inl e)
      | (session, Inr True) \<Rightarrow> (session, Inr Handled)
      | (session, Inr False) \<Rightarrow>
          if \<not> ss_recvEncrypted session \<or> ss_cryptoOffloaded session \<and> \<not> shouldOpenUserspaceEncryptedFallback wire
          then (session, Inr (Bypass wire))
          else case openEncryptedPacketNoReplay session wire of
            Inl e \<Rightarrow> (session, Inl e)
          | Inr (plaintext, seq, flags) \<Rightarrow>
              if flags AND dataFlagBatch = 0 then (session, Inr (Opened [plaintext] seq flags))
              else case appendSecureBatchRecordPackets [] plaintext of
                Inl e \<Rightarrow> (session, Inl e)
              | Inr (packets, _, _) \<Rightarrow> (session, Inr (Opened packets seq flags)))"

primrec classify_all :: "inner_env \<Rightarrow> bytes list \<Rightarrow> session \<Rightarrow> session \<times> (sess_error + verdict list)" where
  "classify_all env [] s = (s, Inr [])"
| "classify_all env (w # ws) s =
     (case classify env s w of
        (s, Inl e) \<Rightarrow> (s, Inl e)
      | (s, Inr v) \<Rightarrow> (case classify_all env ws s of (s, Inl e) \<Rightarrow> (s, Inl e) | (s, Inr vs) \<Rightarrow> (s, Inr (v # vs))))"

fun add_verdict :: "batch_acc \<Rightarrow> verdict \<Rightarrow> batch_acc" where
  "add_verdict acc Handled = acc"
| "add_verdict acc (Bypass w) = addPlain acc w"
| "add_verdict acc (Opened ps q f) = addRecord acc (ba_dst acc @ ps) (totalLen ps) (length ps) q f"

lemma append_batch_facts:
  assumes "appendSecureBatchRecordPackets [] pt = Inr (ps, b, n)"
  shows "b = totalLen ps" "n = length ps" "2 \<le> n" "n \<le> 256"
proof -
  obtain qs where "batchable qs" "pt = batch_layout qs" using append_batch_decoded [OF assms] by blast
  with assms show "b = totalLen ps" "n = length ps" "2 \<le> n" "n \<le> 256"
    by (auto simp: append_batch_layout batchable_def)
qed

lemma openBatchLoop_step:
  "openBatchLoop env (w # ws) s acc =
     (case classify env s w of (s, Inl e) \<Rightarrow> (s, Inl e) | (s, Inr v) \<Rightarrow> openBatchLoop env ws s (add_verdict acc v))"
proof -
  obtain s' r where d: "handleDuplicateHandshake env s w = (s', r)" by fastforce
  consider "isResetPacket w" | e where "\<not> isResetPacket w" "r = Inl e" | "\<not> isResetPacket w" "r = Inr True"
    | "\<not> isResetPacket w" "r = Inr False" by (cases r) auto
  then show ?thesis
  proof cases
    case 4
    show ?thesis
    proof (cases "openEncryptedPacketNoReplay s' w")
      case (Inr o')
      obtain pt q f where o: "o' = (pt, q, f)" by (cases o')
      show ?thesis
        using 4 d Inr o append_batch_dst [of "ba_dst acc" pt]
        by (cases "appendSecureBatchRecordPackets [] pt") (auto simp: classify_def)
    qed (use 4 d in \<open>simp add: classify_def\<close>)
  qed (simp_all add: classify_def d)
qed

lemma openBatchLoop_classify:
  "openBatchLoop env ws s acc = apsnd (map_sum id (foldl add_verdict acc)) (classify_all env ws s)"
proof (induction ws arbitrary: s acc)
  case (Cons w ws)
  show ?case
    by (simp only: openBatchLoop_step Cons.IH) (simp split: prod.splits sum.splits)
qed simp

text \<open>The part of the state that receiving a verdict changes, apart from the pending packets.\<close>

type_synonym recv_state = "replay_window \<times> u64 \<times> u64 \<times> u64 \<times> u64"

definition put_recv :: "recv_state \<Rightarrow> session \<Rightarrow> session" where
  "put_recv st s = (case st of (r, recs, pkts, b, n) \<Rightarrow>
     s\<lparr>ss_replay := r, ss_batchRecordsIn := recs, ss_batchPacketsIn := pkts, ss_bytesRecv := b, ss_packetsIn := n\<rparr>)"

definition get_recv :: "session \<Rightarrow> recv_state" where
  "get_recv s = (ss_replay s, ss_batchRecordsIn s, ss_batchPacketsIn s, ss_bytesRecv s, ss_packetsIn s)"

lemma put_get_recv [simp]: "put_recv (get_recv s) s = s" "get_recv (put_recv st s) = st"
  by (simp_all add: put_recv_def get_recv_def split: prod.split)

lemma put_recv_fields [simp]:
  "ss_recvEncrypted (put_recv st s) = ss_recvEncrypted s" "ss_cryptoOffloaded (put_recv st s) = ss_cryptoOffloaded s"
  "ss_recvAEAD (put_recv st s) = ss_recvAEAD s" "ss_cryptoSuite (put_recv st s) = ss_cryptoSuite s"
  "ss_batchRecords (put_recv st s) = ss_batchRecords s" "ss_epoch (put_recv st s) = ss_epoch s"
  "ss_recvIV (put_recv st s) = ss_recvIV s" "ss_role (put_recv st s) = ss_role s" "ss_sent (put_recv st s) = ss_sent s"
  "ss_clientHelloRaw (put_recv st s) = ss_clientHelloRaw s" "ss_serverHelloRaw (put_recv st s) = ss_serverHelloRaw s"
  "ss_recvPending (put_recv st s) = ss_recvPending s" "ss_recvPendingIndex (put_recv st s) = ss_recvPendingIndex s"
  "(put_recv st s)\<lparr>ss_sent := xs\<rparr> = put_recv st (s\<lparr>ss_sent := xs\<rparr>)"
  by (simp_all add: put_recv_def split: prod.split)

lemma handleDuplicateHandshake_put_recv:
  "handleDuplicateHandshake env (put_recv st s) w = apfst (put_recv st) (handleDuplicateHandshake env s w)"
  by (simp add: handleDuplicateHandshake_def innerSendPacket_def)

lemma openEncryptedPacketNoReplay_put_recv:
  "openEncryptedPacketNoReplay (put_recv st s) w = openEncryptedPacketNoReplay s w"
  unfolding openEncryptedPacketNoReplay_def put_recv_fields ..

lemma classify_put_recv: "classify env (put_recv st s) w = apfst (put_recv st) (classify env s w)"
proof -
  obtain s' r where d: "handleDuplicateHandshake env s w = (s', r)" by fastforce
  consider "isResetPacket w" | e where "\<not> isResetPacket w" "r = Inl e" | "\<not> isResetPacket w" "r = Inr True"
    | "\<not> isResetPacket w" "r = Inr False" by (cases r) auto
  then show ?thesis
  proof cases
    case 4
    with d show ?thesis
      by (simp add: classify_def handleDuplicateHandshake_put_recv openEncryptedPacketNoReplay_put_recv
          split: sum.split prod.split)
  qed (simp_all add: classify_def handleDuplicateHandshake_put_recv d)
qed

fun recv_verdict :: "recv_state \<Rightarrow> verdict \<Rightarrow> recv_state \<times> bytes list" where
  "recv_verdict st Handled = (st, [])"
| "recv_verdict (r, recs, pkts, b, n) (Bypass w) = ((r, recs, pkts, b + word_of_nat (length w), n + 1), [w])"
| "recv_verdict (r, recs, pkts, b, n) (Opened ps q f) =
     (case replayWindow_Accept r q of
        (r, False) \<Rightarrow> ((r, recs, pkts, b, n), [])
      | (r, True) \<Rightarrow>
          ((r, if f AND dataFlagBatch = 0 then recs else recs + 1,
            if f AND dataFlagBatch = 0 then pkts else pkts + word_of_nat (length ps),
            b + totalLen ps, n + word_of_nat (length ps)), ps))"

primrec recv_verdicts :: "recv_state \<Rightarrow> verdict list \<Rightarrow> recv_state \<times> bytes list" where
  "recv_verdicts st [] = (st, [])"
| "recv_verdicts st (v # vs) =
     (case recv_verdict st v of (st, ps) \<Rightarrow> case recv_verdicts st vs of (st, qs) \<Rightarrow> (st, ps @ qs))"

text \<open>Repeated single receives.\<close>

primrec recvMany :: "inner_env \<Rightarrow> nat \<Rightarrow> session \<Rightarrow> bytes option list \<Rightarrow>
    session \<times> bytes option list \<times> bytes received list" where
  "recvMany env 0 s input = (s, input, [])"
| "recvMany env (Suc n) s input =
     (case session_RecvPacket env s input of (s, input, r) \<Rightarrow>
      case recvMany env n s input of (s, input, rs) \<Rightarrow> (s, input, r # rs))"

definition no_pending :: "session \<Rightarrow> bool" where
  "no_pending s \<longleftrightarrow> ss_recvPending s = [] \<and> ss_recvPendingIndex s = 0"

lemma no_pending_clear: "no_pending s \<Longrightarrow> s\<lparr>ss_recvPending := [], ss_recvPendingIndex := 0\<rparr> = s"
  by (cases s) (simp add: no_pending_def)

lemma recvMany_pending:
  "drop (ss_recvPendingIndex s) (ss_recvPending s) = P \<Longrightarrow>
   recvMany env (length P + k) s input =
     (case recvMany env k (if P = [] then s else s\<lparr>ss_recvPending := [], ss_recvPendingIndex := 0\<rparr>) input of
        (s, input, rs) \<Rightarrow> (s, input, map Received P @ rs))"
proof (induction P arbitrary: s)
  case (Cons p P)
  let ?i = "ss_recvPendingIndex s" and ?q = "ss_recvPending s"
  have i: "?i < length ?q" "?q ! ?i = p" "drop (Suc ?i) ?q = P"
    using Cons.prems by (metis drop_all leI list.distinct(1), metis hd_drop_conv_nth drop_all leI list.distinct(1) list.sel(1),
        metis drop_Suc list.sel(3) tl_drop)
  let ?s = "s\<lparr>ss_recvPending := ?q[?i := []], ss_recvPendingIndex := Suc ?i\<rparr>"
  show ?case
  proof (cases "P = []")
    case True
    then have "Suc ?i = length ?q" using i by simp
    with True i show ?thesis by (simp add: session_RecvPacket_def popRecvPendingPacket_def split: prod.split)
  next
    case False
    then have "Suc ?i \<noteq> length ?q" using i by auto
    moreover have "drop (ss_recvPendingIndex ?s) (ss_recvPending ?s) = P"
      using i by simp
    ultimately show ?thesis
      using i Cons.IH [of ?s] False by (simp add: session_RecvPacket_def popRecvPendingPacket_def split: prod.split)
  qed
qed (simp split: prod.split)

lemma handleDuplicateHandshake_frame:
  "handleDuplicateHandshake env s w = (s', r) \<Longrightarrow> \<exists>xs. s' = s\<lparr>ss_sent := xs\<rparr>"
  by (auto simp: handleDuplicateHandshake_def innerSendPacket_def split: if_splits intro: exI [of _ "ss_sent s"])

lemma session_sent_same: "s\<lparr>ss_sent := ss_sent s\<rparr> = (s :: session)"
  by (cases s) simp

lemma classify_frame:
  assumes "classify env s w = (s', r)"
  shows "\<exists>xs. s' = s\<lparr>ss_sent := xs\<rparr>"
proof -
  obtain s1 d where d: "handleDuplicateHandshake env s w = (s1, d)" by fastforce
  have "s' = s \<or> s' = s1"
    using assms d by (auto simp: classify_def split: if_splits sum.splits bool.splits)
  then show ?thesis
    using handleDuplicateHandshake_frame [OF d] by (metis session_sent_same)
qed

lemma classify_no_pending: "classify env s w = (s', r) \<Longrightarrow> no_pending s \<Longrightarrow> no_pending s'"
  by (drule classify_frame) (auto simp: no_pending_def)

lemma classify_Opened:
  assumes "classify env s w = (s', Inr (Opened ps q f))"
  shows "ps \<noteq> []" "length ps \<le> 256" "f AND dataFlagBatch = 0 \<Longrightarrow> length ps = 1"
proof -
  obtain s1 d where d: "handleDuplicateHandshake env s w = (s1, d)" by fastforce
  have "(\<exists>pt. ps = [pt]) \<or> (f AND dataFlagBatch \<noteq> 0 \<and> (\<exists>pt b n. appendSecureBatchRecordPackets [] pt = Inr (ps, b, n)))"
    using assms d by (auto simp: classify_def split: if_splits sum.splits bool.splits) blast+
  then show "ps \<noteq> []" "length ps \<le> 256" "f AND dataFlagBatch = 0 \<Longrightarrow> length ps = 1"
    using append_batch_facts by fastforce+
qed


text \<open>What a single receive does with each verdict.\<close>

lemma openReceivedPacket_Opened:
  assumes d: "\<not> isResetPacket w" "handleDuplicateHandshake env s w = (s1, Inr False)" "no_pending s1"
    and op: "openEncryptedPacketNoReplay s1 w = Inr (pt, q, f)" "ss_recvEncrypted s1"
      "(ss_cryptoOffloaded s1 \<and> \<not> shouldOpenUserspaceEncryptedFallback w) = False"
    and qs: "if f AND dataFlagBatch = 0 then qs = [pt] else \<exists>b n. appendSecureBatchRecordPackets [] pt = Inr (qs, b, n)"
    and st: "recv_verdict st (Opened qs q f) = (st', ps)"
  shows "openReceivedPacket env (put_recv st s) w =
    (case ps of [] \<Rightarrow> (put_recv st' s1, Inl SErrReplay)
     | p # rest \<Rightarrow> ((put_recv st' s1)\<lparr>ss_recvPending := rest, ss_recvPendingIndex := 0\<rparr>, Inr (Some p)))"
proof -
  obtain r recs pkts b n where st0: "st = (r, recs, pkts, b, n)" by (cases st)
  obtain r' ok where acc: "replayWindow_Accept r q = (r', ok)" by fastforce
  have rep: "ss_replay (put_recv st s1) = r" by (simp add: put_recv_def st0)
  note unf = openReceivedPacket_def openReceivedRecordNoStats_def handleDuplicateHandshake_put_recv d(1,2)
    openEncryptedPacketNoReplay_put_recv recordPacketsReceived_def rep acc op
  show ?thesis
  proof (cases "ok \<and> f AND dataFlagBatch \<noteq> 0")
    case True
    then obtain b' n' where a: "appendSecureBatchRecordPackets [] pt = Inr (qs, b', n')" using qs by auto
    obtain p rest where ps: "qs = p # rest" using append_batch_facts [OF a] by (cases qs) auto
    have "(word_of_nat n' :: u64) \<noteq> 0"
      using append_batch_facts(3,4) [OF a] by (simp add: word_unat_eq_iff unat_of_nat)
    then show ?thesis
      using True a st append_batch_facts(1,2) [OF a] ps
      by (simp add: unf Let_def) (auto simp: st0 put_recv_def acc)
  next
    case False
    then show ?thesis
      using st qs d(3)
      by (cases ok) (simp_all add: unf Let_def, auto simp: st0 put_recv_def no_pending_def acc intro: session.equality)
  qed
qed

lemma openReceivedPacket_verdict:
  assumes c: "classify env s w = (s', Inr v)" and np: "no_pending s" and st: "recv_verdict st v = (st', ps)"
  shows "openReceivedPacket env (put_recv st s) w =
    (case ps of [] \<Rightarrow> (put_recv st' s', if v = Handled then Inr None else Inl SErrReplay)
     | p # rest \<Rightarrow> ((put_recv st' s')\<lparr>ss_recvPending := rest, ss_recvPendingIndex := 0\<rparr>, Inr (Some p)))"
proof -
  obtain s1 d where d: "handleDuplicateHandshake env s w = (s1, d)" by fastforce
  have nr: "\<not> isResetPacket w" "s' = s1" and dd: "d = Inr (v = Handled)"
    using c d by (auto simp: classify_def split: if_splits sum.splits bool.splits)
  have np': "no_pending s1" using classify_no_pending [OF c np] nr by simp
  note unf = openReceivedPacket_def openReceivedRecordNoStats_def handleDuplicateHandshake_put_recv d nr dd
    recordPacketsReceived_def
  show ?thesis
  proof (cases v)
    case Handled
    then show ?thesis using st by (simp add: unf)
  next
    case (Bypass x)
    then have "x = w" "\<not> ss_recvEncrypted s1 \<or> ss_cryptoOffloaded s1 \<and> \<not> shouldOpenUserspaceEncryptedFallback w"
      using c d nr dd by (auto simp: classify_def split: if_splits sum.splits bool.splits)
    then show ?thesis
      using st np' Bypass by (cases st) (auto simp: unf, auto simp: put_recv_def no_pending_def)
  next
    case (Opened qs q f)
    obtain pt where op: "openEncryptedPacketNoReplay s1 w = Inr (pt, q, f)" "ss_recvEncrypted s1"
        "(ss_cryptoOffloaded s1 \<and> \<not> shouldOpenUserspaceEncryptedFallback w) = False"
      and qs: "if f AND dataFlagBatch = 0 then qs = [pt] else \<exists>b n. appendSecureBatchRecordPackets [] pt = Inr (qs, b, n)"
      using c d nr dd Opened by (auto simp: classify_def split: if_splits sum.splits bool.splits)
    show ?thesis
      using openReceivedPacket_Opened [OF nr(1) _ np' op qs, of env s st st' ps] d dd st Opened
      unfolding nr(2) by simp
  qed
qed

lemma no_pending_put_recv [simp]: "no_pending (put_recv st s) = no_pending s"
  by (simp add: no_pending_def)

lemma RecvPacket_no_pending: "no_pending s \<Longrightarrow> session_RecvPacket env s input = recvLoop env s input"
  by (simp add: session_RecvPacket_def popRecvPendingPacket_def no_pending_clear) (simp add: no_pending_def)

lemma recvMany_verdicts:
  "classify_all env ws s = (s', Inr vs) \<Longrightarrow> no_pending s \<Longrightarrow> recv_verdicts st vs = (st', ps) \<Longrightarrow>
   recvMany env (Suc (length ps)) (put_recv st s) (map Some ws) = (put_recv st' s', [], map Received ps @ [Waiting])"
proof (induction ws arbitrary: s st vs ps)
  case Nil
  then show ?case by (simp add: RecvPacket_no_pending)
next
  case (Cons w ws)
  obtain s1 v vs' where c: "classify env s w = (s1, Inr v)" "classify_all env ws s1 = (s', Inr vs')" "vs = v # vs'"
    using Cons.prems(1) by (auto split: prod.splits sum.splits)
  obtain st1 p1 p2 where r: "recv_verdict st v = (st1, p1)" "recv_verdicts st1 vs' = (st', p2)" "ps = p1 @ p2"
    using Cons.prems(3) c(3) by (auto split: prod.splits)
  have np: "no_pending s1" by (rule classify_no_pending [OF c(1) Cons.prems(2)])
  note IH = Cons.IH [OF c(2) np r(2)] and one = openReceivedPacket_verdict [OF c(1) Cons.prems(2) r(1)]
  show ?case
  proof (cases p1)
    case Nil
    then have "recvLoop env (put_recv st s) (map Some (w # ws)) = recvLoop env (put_recv st1 s1) (map Some ws)"
      by (simp add: one)
    then show ?thesis using IH np Cons.prems(2) r(3) Nil by (simp add: RecvPacket_no_pending)
  next
    case (Cons p rest)
    let ?s = "(put_recv st1 s1)\<lparr>ss_recvPending := rest, ss_recvPendingIndex := 0\<rparr>"
    have "session_RecvPacket env (put_recv st s) (map Some (w # ws)) = (?s, map Some ws, Received p)"
      using \<open>no_pending s\<close> Cons by (simp add: RecvPacket_no_pending one)
    moreover have "(if rest = [] then ?s else ?s\<lparr>ss_recvPending := [], ss_recvPendingIndex := 0\<rparr>) = put_recv st1 s1"
      using np by (auto simp: no_pending_def intro: session.equality)
    ultimately show ?thesis
      using recvMany_pending [of ?s rest env "Suc (length p2)" "map Some ws"] IH r(3) Cons
      by (simp del: recvMany.simps(2) add: recvMany.simps(2) [of env "Suc (length rest + length p2)"])
  qed
qed

text \<open>The records of a verdict list, and what is kept of it once the window has answered.\<close>

fun seqs_of :: "verdict list \<Rightarrow> u64 list" where
  "seqs_of (Opened ps q f # vs) = q # seqs_of vs"
| "seqs_of (_ # vs) = seqs_of vs"
| "seqs_of [] = []"

fun counts_of :: "verdict list \<Rightarrow> (u8 \<times> nat) list" where
  "counts_of (Opened ps q f # vs) = (f, length ps) # counts_of vs"
| "counts_of (_ # vs) = counts_of vs"
| "counts_of [] = []"

fun segs_of :: "bytes list \<Rightarrow> verdict list \<Rightarrow> bool list \<Rightarrow> segment list \<times> bytes list" where
  "segs_of gap (Opened ps q f # vs) oks =
     (case segs_of [] vs (tl oks) of (ss, tail) \<Rightarrow> ((gap, ps, hd oks) # ss, tail))"
| "segs_of gap (Bypass w # vs) oks = segs_of (gap @ [w]) vs oks"
| "segs_of gap (Handled # vs) oks = segs_of gap vs oks"
| "segs_of gap [] oks = ([], gap)"

lemma add_verdict_bytes:
  "ba_bytes (foldl add_verdict acc vs) - totalLen (ba_dst (foldl add_verdict acc vs)) = ba_bytes acc - totalLen (ba_dst acc)"
proof (induction vs arbitrary: acc)
  case (Cons v vs)
  have "ba_bytes (add_verdict acc v) - totalLen (ba_dst (add_verdict acc v)) = ba_bytes acc - totalLen (ba_dst acc)"
    by (cases v) (simp_all add: addPlain_def addRecord_def)
  with Cons.IH [of "add_verdict acc v"] show ?case by simp
qed simp

lemma foldl_add_verdict:
  assumes "ba_dst acc = base @ gap" and "segs_of gap vs oks = (ss, tail)" and "length oks = length (seqs_of vs)"
  defines "recs \<equiv> segment_records (length base) ss" and "res \<equiv> foldl add_verdict acc vs"
  shows "ba_dst res = base @ segments_all ss @ tail \<and> ba_indexes res = ba_indexes acc @ map fst recs \<and>
    ba_counts res = ba_counts acc @ map (fst \<circ> snd) recs \<and> oks = map (snd \<circ> snd) recs \<and>
    ba_seqs res = ba_seqs acc @ seqs_of vs \<and> ba_flags res = ba_flags acc @ map fst (counts_of vs) \<and>
    map (fst \<circ> snd) recs = map snd (counts_of vs)"
  using assms
  unfolding recs_def res_def
proof (induction gap vs oks arbitrary: acc base ss recs res rule: segs_of.induct)
  case (1 gap ps q f vs oks)
  obtain ss' where ss': "segs_of [] vs (tl oks) = (ss', tail)" "ss = (gap, ps, hd oks) # ss'"
    using 1(3) by (auto split: prod.splits)
  show ?case
    using 1(1) [OF _ ss'(1), of "add_verdict acc (Opened ps q f)" "base @ gap @ ps"] 1(2,4) ss'(2)
    by (cases oks) (simp_all add: addRecord_def algebra_simps)
next
  case (2 gap w vs oks)
  then show ?case
    using 2(1) [of "add_verdict acc (Bypass w)" base ss] by (simp add: addPlain_def algebra_simps)
qed simp_all

text \<open>Running the window over the records of a verdict list, and the counters that go with it.\<close>

fun count_record :: "u64 \<times> u64 \<Rightarrow> bool \<times> u8 \<times> nat \<Rightarrow> u64 \<times> u64" where
  "count_record (recs, pkts) (ok, f, n) =
     (if ok \<and> f AND dataFlagBatch \<noteq> 0 then (recs + 1, pkts + word_of_nat n) else (recs, pkts))"

lemma countBatchRecords_eq:
  "foldl count_record (ss_batchRecordsIn s, ss_batchPacketsIn s) rs = (a, b) \<Longrightarrow>
   countBatchRecords rs s = s\<lparr>ss_batchRecordsIn := a, ss_batchPacketsIn := b\<rparr>"
proof (induction rs arbitrary: s)
  case (Cons r rs)
  obtain ok f n where "r = (ok, f, n)" by (cases r)
  with Cons show ?case by auto
qed simp

lemma recv_verdicts_eq:
  assumes "accept_seq replayWindow_Accept (seqs_of vs) r = (r', oks)" and "segs_of gap vs oks = (ss, tail)"
  shows "\<exists>ps. segments_kept ss @ tail = gap @ ps \<and>
    recv_verdicts (r, recs, pkts, b, n) vs =
      (let (recs', pkts') = foldl count_record (recs, pkts) (zip oks (counts_of vs))
       in ((r', recs', pkts', b + totalLen ps, n + word_of_nat (length ps)), ps))"
  using assms
proof (induction gap vs oks arbitrary: r recs pkts b n ss rule: segs_of.induct)
  case (1 gap ps q f vs oks)
  obtain ss' where ss': "segs_of [] vs (tl oks) = (ss', tail)" "ss = (gap, ps, hd oks) # ss'"
    using 1(3) by (auto split: prod.splits)
  obtain r1 ok oks' where a: "replayWindow_Accept r q = (r1, ok)" "oks = ok # oks'"
      "accept_seq replayWindow_Accept (seqs_of vs) r1 = (r', oks')"
    using 1(2) by (auto split: prod.splits)
  define k where "k = (if ok then ps else [])"
  obtain recs1 pkts1 where c: "count_record (recs, pkts) (ok, f, length ps) = (recs1, pkts1)" by fastforce
  obtain recs' pkts' where f: "foldl count_record (recs1, pkts1) (zip oks' (counts_of vs)) = (recs', pkts')" by fastforce
  obtain qs where qs: "segments_kept ss' @ tail = qs"
      "recv_verdicts (r1, recs1, pkts1, b + totalLen k, n + word_of_nat (length k)) vs =
        ((r', recs', pkts', b + totalLen k + totalLen qs, n + word_of_nat (length k) + word_of_nat (length qs)), qs)"
    using 1(1) [of r1 ss' recs1 pkts1 "b + totalLen k" "n + word_of_nat (length k)"] ss'(1) a(2,3) f by auto
  have "recv_verdict (r, recs, pkts, b, n) (Opened ps q f) =
      ((r1, recs1, pkts1, b + totalLen k, n + word_of_nat (length k)), k)"
    using a(1) c unfolding k_def by (cases ok) (auto split: if_splits)
  moreover have "segments_kept ss @ tail = gap @ k @ qs"
    using qs(1) a(2) ss'(2) by (simp add: k_def)
  ultimately show ?case
    using qs(2) a(2) c f
    by (intro exI [of _ "k @ qs"]) (simp add: add.assoc del: count_record.simps recv_verdict.simps)
next
  case (2 gap w vs oks)
  obtain recs' pkts' where f: "foldl count_record (recs, pkts) (zip oks (counts_of vs)) = (recs', pkts')" by fastforce
  obtain qs where "segments_kept ss @ tail = gap @ w # qs"
      "recv_verdicts (r, recs, pkts, b + word_of_nat (length w), n + 1) vs =
        ((r', recs', pkts', b + word_of_nat (length w) + totalLen qs, n + 1 + word_of_nat (length qs)), qs)"
    using 2(1) [of r ss recs pkts "b + word_of_nat (length w)" "n + 1"] 2(2,3) f by auto
  then show ?case
    using f by (intro exI [of _ "w # qs"]) (simp add: add.assoc)
qed (auto simp: Let_def split: prod.splits)

lemma length_accept_seq: "accept_seq acc xs w = (w', oks) \<Longrightarrow> length oks = length xs"
  by (induction xs arbitrary: w oks) (auto split: prod.splits)

lemma classify_all_frame: "classify_all env ws s = (s', r) \<Longrightarrow> get_recv s' = get_recv s"
proof (induction ws arbitrary: s r)
  case (Cons w ws)
  obtain s1 r1 where c: "classify env s w = (s1, r1)" by fastforce
  then have "get_recv s1 = get_recv s" by (auto simp: get_recv_def dest!: classify_frame)
  then show ?case using Cons c by (auto split: sum.splits prod.splits)
qed simp

lemma openReceivedPacketBatch_eq:
  assumes c: "classify_all env ws s = (s', Inr vs)" and wf: "rw_wf (ss_replay s)"
    and a: "accept_seq replayWindow_Accept (seqs_of vs) (ss_replay s) = (r, oks)"
    and sg: "segs_of [] vs oks = (ss, tail)"
    and f: "foldl count_record (ss_batchRecordsIn s, ss_batchPacketsIn s) (zip oks (counts_of vs)) = (recs, pkts)"
    and ps: "segments_kept ss @ tail = ps"
  shows "openReceivedPacketBatch env s [] ws =
    (s'\<lparr>ss_replay := r, ss_batchRecordsIn := recs, ss_batchPacketsIn := pkts\<rparr>,
     Inr (ps, totalLen ps, word_of_nat (length ps)))"
proof -
  let ?acc = "\<lparr>ba_dst = [], ba_seqs = [], ba_indexes = [], ba_counts = [], ba_flags = [], ba_bytes = 0 :: u64\<rparr>"
  define res where "res = foldl add_verdict ?acc vs"
  define rs where "rs = segment_records (length ([] :: bytes list)) ss"
  have len: "length oks = length (seqs_of vs)" by (rule length_accept_seq [OF a])
  have frame: "ss_replay s' = ss_replay s" "ss_batchRecordsIn s' = ss_batchRecordsIn s" "ss_batchPacketsIn s' = ss_batchPacketsIn s"
    using classify_all_frame [OF c] by (simp_all add: get_recv_def)
  have fold: "ba_dst res = [] @ segments_all ss @ tail" "ba_indexes res = map fst rs" "ba_counts res = map (fst \<circ> snd) rs"
    "oks = map (snd \<circ> snd) rs" "ba_seqs res = seqs_of vs" "zip (ba_flags res) (ba_counts res) = counts_of vs"
    using foldl_add_verdict [of ?acc "[]" "[]" vs oks ss tail, OF _ sg len]
    by (simp_all add: res_def rs_def zip_map_fst_snd)
  have "ba_bytes res = totalLen (ba_dst res)"
    using add_verdict_bytes [of ?acc vs] by (simp add: res_def)
  then have filter: "filterReplayRejectedBatch (ba_dst res) 0 (ba_indexes res) (ba_counts res) oks (ba_bytes res) = (ps, totalLen ps)"
    using filter_batch_eq [of rs "[]" ss tail "ba_bytes res"] rs_def fold ps by (auto simp: add.commute)
  have loop: "openBatchLoop env ws s ?acc = (s', Inr res)"
    by (simp add: openBatchLoop_classify c res_def)
  show ?thesis
  proof (cases "seqs_of vs = []")
    case True
    then have "oks = []" "ss = []" using len fold(4) rs_def by (auto simp flip: length_0_conv)
    then have "s'\<lparr>ss_replay := r, ss_batchRecordsIn := recs, ss_batchPacketsIn := pkts\<rparr> = s'" "ba_dst res = ps"
      using True a f fold(1) ps frame by (auto intro: session.equality)
    moreover have "openReceivedPacketBatch env s [] ws = (s', Inr (ba_dst res, ba_bytes res, word_of_nat (length (ba_dst res))))"
    proof (cases "ws = []")
      case True
      then have "s' = s" "vs = []" using c by simp_all
      with True show ?thesis by (simp add: openReceivedPacketBatch_def res_def)
    qed (use True fold(5) loop in \<open>simp add: openReceivedPacketBatch_def\<close>)
    ultimately show ?thesis
      using \<open>ba_bytes res = _\<close> by metis
  next
    case False
    then have "ws \<noteq> []" using c by auto
    with False show ?thesis
      using a f fold(5,6) loop frame filter wf
      by (simp add: openReceivedPacketBatch_def replayWindow_AcceptBatchResults_eq countBatchRecords_eq [of "s'\<lparr>ss_replay := r\<rparr>"])
  qed
qed

text \<open>
  C10: batch and single receive agree.  When a batch of wires opens, the packets it delivers are
  exactly those that as many single receives deliver, in the same order, after which a
  single receive finds nothing left; and both paths leave the same session, replay window and
  counters included.
\<close>
theorem recv_batch_equals_single:
  assumes "openReceivedPacketBatch env s [] ws = (s1, Inr (ps, b, n))"
    and "no_pending s" and "rw_wf (ss_replay s)" and "length ps < 2 ^ 64"
  shows "recvMany env (Suc (length ps)) s (map Some ws) =
    (recordPacketsReceived s1 b n, [], map Received ps @ [Waiting])"
proof -
  obtain s' vs where c: "classify_all env ws s = (s', Inr vs)"
  proof (cases "snd (classify_all env ws s)")
    case (Inl e)
    then have "ws \<noteq> []" by auto
    with Inl assms(1) show ?thesis
      by (cases "classify_all env ws s") (simp add: openReceivedPacketBatch_def openBatchLoop_classify)
  qed (metis prod.collapse)
  obtain r oks where a: "accept_seq replayWindow_Accept (seqs_of vs) (ss_replay s) = (r, oks)" by fastforce
  obtain ss tail where sg: "segs_of [] vs oks = (ss, tail)" by fastforce
  obtain recs pkts where f: "foldl count_record (ss_batchRecordsIn s, ss_batchPacketsIn s) (zip oks (counts_of vs)) = (recs, pkts)"
    by fastforce
  note batch = openReceivedPacketBatch_eq [OF c assms(3) a sg f refl]
  then have res: "ps = segments_kept ss @ tail" "b = totalLen ps" "n = word_of_nat (length ps)"
      "s1 = s'\<lparr>ss_replay := r, ss_batchRecordsIn := recs, ss_batchPacketsIn := pkts\<rparr>"
    using assms(1) by auto
  have "recv_verdicts (get_recv s) vs = ((r, recs, pkts, ss_bytesRecv s + b, ss_packetsIn s + n), ps)"
    using recv_verdicts_eq [OF a sg, of "ss_batchRecordsIn s" "ss_batchPacketsIn s" "ss_bytesRecv s" "ss_packetsIn s"] f res
    by (auto simp: get_recv_def)
  then have "recvMany env (Suc (length ps)) s (map Some ws) =
      (put_recv (r, recs, pkts, ss_bytesRecv s + b, ss_packetsIn s + n) s', [], map Received ps @ [Waiting])"
    using recvMany_verdicts [OF c assms(2)] put_get_recv(1) [of s] by metis
  moreover have "n = 0 \<longleftrightarrow> ps = []"
    using res(3) assms(4) by (simp add: word_unat_eq_iff unat_of_nat)
  ultimately show ?thesis
    using classify_all_frame [OF c] res(2,4) by (auto simp: recordPacketsReceived_def put_recv_def get_recv_def)
qed

end
