(* ===== verification/SecureStream.thy ===== *)
theory SecureStream
  imports SecureRecords
begin

unbundle bit_operations_syntax

text \<open>
  Sender and receiver of the session model together: the records a sender emits, the
  uniqueness of their nonces, end-to-end delivery, at-most-once delivery and authenticity.
\<close>


section \<open>Records on the wire\<close>

definition data_header :: "u64 \<Rightarrow> u8 \<Rightarrow> u8 \<Rightarrow> u64 \<Rightarrow> bytes" where
  "data_header epoch suite flags seq = dataMagic @ [dataVersion, suite, flags, 0] @ be64 epoch @ be64 seq"

text \<open>A sender whose header is initialised and which encrypts in user space, with the AEAD \<open>a\<close>.\<close>

definition sealing :: "aead \<Rightarrow> session \<Rightarrow> bool" where
  "sealing a s \<longleftrightarrow> ss_sendAEAD s = Some a \<and> ss_sendEncrypted s \<and> \<not> ss_cryptoOffloaded s \<and> length (ss_sendIV s) = 12 \<and>
     length (ss_sendHeader s) = 24 \<and> take 16 (ss_sendHeader s) = take 16 (data_header (ss_epoch s) (cs_ID (ss_cryptoSuite s)) 0 0)"

text \<open>The wire of a record: its packets, sequence number and flags.\<close>

type_synonym wire_rec = "bytes list \<times> u64 \<times> u8"

definition rec_ok :: "session \<Rightarrow> wire_rec \<Rightarrow> bool" where
  "rec_ok s r = (case r of (ps, q, f) \<Rightarrow> f = 0 \<and> length ps = 1 \<or> f = 1 \<and> batchable ps \<and> ss_batchRecords s)"

definition rec_wire :: "aead \<Rightarrow> session \<Rightarrow> wire_rec \<Rightarrow> bytes" where
  "rec_wire a s r = (case r of (ps, q, f) \<Rightarrow>
     let h = data_header (ss_epoch s) (cs_ID (ss_cryptoSuite s)) f q
     in h @ ae_seal a (sendNonceFor s q) (if f = 0 then hd ps else batch_layout ps) h)"

lemma dataMagic_simps [simp]: "length dataMagic = 4" "dataMagic \<noteq> handshakeMagic"
  by (simp_all add: dataMagic_def handshakeMagic_def)

lemma data_header_fields [simp]:
  "length (data_header e i f q) = 24" "subslice 0 4 (data_header e i f q) = dataMagic"
  "data_header e i f q ! 4 = dataVersion" "data_header e i f q ! 5 = i" "data_header e i f q ! 6 = f" "data_header e i f q ! 7 = 0"
  "Uint64 (subslice 8 16 (data_header e i f q)) = e" "Uint64 (subslice 16 24 (data_header e i f q)) = q"
  by (simp_all add: data_header_def wire_simps nth_append drop_Cons')

lemma sealing_header:
  assumes "sealing a s"
  shows "PutUint64 16 q (ss_sendHeader s) = data_header (ss_epoch s) (cs_ID (ss_cryptoSuite s)) 0 q"
    and "PutUint64 16 q (PutByte 6 f (ss_sendHeader s)) = data_header (ss_epoch s) (cs_ID (ss_cryptoSuite s)) f q"
proof -
  define rest where "rest = drop 16 (ss_sendHeader s)"
  have len: "length rest = 8" using assms by (simp add: rest_def sealing_def)
  have "ss_sendHeader s = take 16 (ss_sendHeader s) @ rest" by (simp add: rest_def)
  also have "take 16 (ss_sendHeader s) = dataMagic @ [dataVersion, cs_ID (ss_cryptoSuite s), 0, 0] @ be64 (ss_epoch s)"
    using assms by (simp add: sealing_def data_header_def)
  finally have h: "ss_sendHeader s = dataMagic @ [dataVersion, cs_ID (ss_cryptoSuite s), 0, 0] @ be64 (ss_epoch s) @ rest" by simp
  show "PutUint64 16 q (ss_sendHeader s) = data_header (ss_epoch s) (cs_ID (ss_cryptoSuite s)) 0 q"
    "PutUint64 16 q (PutByte 6 f (ss_sendHeader s)) = data_header (ss_epoch s) (cs_ID (ss_cryptoSuite s)) f q"
    using len by (simp_all add: h data_header_def wire_simps drop_Cons')
qed

definition same_sender :: "session \<Rightarrow> session \<Rightarrow> bool" where
  "same_sender s t \<longleftrightarrow> ss_sendAEAD t = ss_sendAEAD s \<and> ss_sendIV t = ss_sendIV s \<and> ss_epoch t = ss_epoch s \<and>
     ss_cryptoSuite t = ss_cryptoSuite s \<and> ss_sendEncrypted t = ss_sendEncrypted s \<and>
     ss_cryptoOffloaded t = ss_cryptoOffloaded s \<and> ss_batchRecords t = ss_batchRecords s \<and>
     length (ss_sendHeader t) = length (ss_sendHeader s) \<and> take 16 (ss_sendHeader t) = take 16 (ss_sendHeader s)"

lemma same_sender_transfer:
  assumes "same_sender s t"
  shows "sealing a t = sealing a s" "rec_wire a t r = rec_wire a s r" "rec_ok t r = rec_ok s r" "sendNonceFor t q = sendNonceFor s q"
  using assms by (simp_all add: same_sender_def sealing_def rec_wire_def rec_ok_def sendNonceFor_def)

text \<open>What a send leaves behind: records with increasing numbers above the old counter.\<close>

definition emits :: "aead \<Rightarrow> session \<Rightarrow> session \<Rightarrow> wire_rec list \<Rightarrow> bool" where
  "emits a s t recs \<longleftrightarrow> same_sender s t \<and> ss_sent t = ss_sent s @ map (rec_wire a s) recs \<and> list_all (rec_ok s) recs \<and>
     sorted_wrt (<) (map (\<lambda>(ps, q, f). q) recs) \<and>
     list_all (\<lambda>(ps, q, f). ss_sendSeq s < q \<and> q \<le> ss_sendSeq t) recs \<and> ss_sendSeq s \<le> ss_sendSeq t"

lemma emits_counters:
  "emits a s (countSent t b n) recs = emits a s t recs"
  "emits a s (t\<lparr>ss_batchRecordsOut := x, ss_batchPacketsOut := y\<rparr>) recs = emits a s t recs"
  by (simp_all add: emits_def same_sender_def countSent_def)

lemma u64_next: "unat (q :: u64) + 1 < 2 ^ 64 \<Longrightarrow> unat (q + 1) = unat q + 1"
  by (simp add: unat_word_ariths)

lemma sealWire_rec:
  assumes "sealing a s"
  shows "sealWire a s q p = rec_wire a s ([p], q, 0)"
  by (simp add: sealWire_def rec_wire_def sendHeaderFor_def sealing_header [OF assms] Let_def)

lemma SendPacket_emits:
  assumes "sealing a s" and "unat (ss_sendSeq s) + 1 < 2 ^ 64" and "session_SendPacket env s pkt = (t, r)"
  shows "emits a s t [([pkt], ss_sendSeq s + 1, 0)]"
    and "unat (ss_sendSeq t) \<le> unat (ss_sendSeq s) + 1"
proof -
  let ?q = "ss_sendSeq s + 1"
  let ?s = "s\<lparr>ss_sendSeq := ?q, ss_sendHeader := sendHeaderFor s ?q\<rparr>"
  have same: "same_sender s ?s" using assms(1) by (simp add: same_sender_def sendHeaderFor_def take_overwrite_before sealing_def)
  have wire: "sealWire a ?s ?q pkt = rec_wire a s ([pkt], ?q, 0)"
    using same_sender_transfer [OF same] assms(1) by (simp add: sealWire_rec)
  have step: "session_SendPacket env s pkt =
      (case innerSendPacket env (rec_wire a s ([pkt], ?q, 0)) ?s of
         (session, False) \<Rightarrow> (session, Some SErrInner)
       | (session, True) \<Rightarrow> (countSent session (word_of_nat (length pkt)) 1, None))"
    using assms(1) wire by (simp add: session_SendPacket_def innerSendPacket_def sealing_def Let_def sendHeaderFor_def)
  have q: "unat ?q = unat (ss_sendSeq s) + 1" by (rule u64_next [OF assms(2)])
  then have "ss_sendSeq s < ?q" by (simp add: word_less_nat_alt)
  then show "emits a s t [([pkt], ?q, 0)]"
    using assms(3) same
    by (auto simp: step innerSendPacket_def emits_counters emits_def same_sender_def rec_ok_def split: if_splits)
       (auto simp: countSent_def)
  show "unat (ss_sendSeq t) \<le> unat (ss_sendSeq s) + 1"
    using assms(3) q by (auto simp: step innerSendPacket_def countSent_def split: if_splits)
qed

primrec seq_recs :: "u64 \<Rightarrow> bytes list \<Rightarrow> wire_rec list" where
  "seq_recs q [] = []"
| "seq_recs q (p # ps) = ([p], q, 0) # seq_recs (q + 1) ps"

lemma sealEach_recs: "sealing a s \<Longrightarrow> sealEach a s q ps = map (rec_wire a s) (seq_recs q ps)"
  by (induction ps arbitrary: q) (simp_all add: sealWire_rec)

lemma seq_recs_facts [simp]: "length (seq_recs q ps) = length ps" "list_all (rec_ok s) (seq_recs q ps)"
    "concat (map fst (seq_recs q ps)) = ps"
  by (induction ps arbitrary: q) (simp_all add: rec_ok_def)

lemma seq_recs_range:
  "unat q + length ps \<le> 2 ^ 64 \<Longrightarrow>
   list_all (\<lambda>(ps', q', f). unat q \<le> unat q' \<and> unat q' < unat q + length ps) (seq_recs q ps) \<and>
   sorted_wrt (<) (map (\<lambda>(ps, q, f). q) (seq_recs q ps))"
proof (induction ps arbitrary: q)
  case (Cons p ps)
  show ?case
  proof (cases "ps = []")
    case False
    then have "unat q + 1 < 2 ^ 64" using Cons.prems by (cases ps) auto
    then have "unat (q + 1) = unat q + 1" by (rule u64_next)
    then show ?thesis
      using Cons.IH [of "q + 1"] Cons.prems by (auto simp: list_all_iff word_less_nat_alt)
  qed simp
qed simp

lemma innerSendEach_prefix:
  "innerSendEach env ws s = (t, ok) \<Longrightarrow>
   \<exists>k. t = s\<lparr>ss_sent := ss_sent s @ take k ws\<rparr> \<and> (ok \<longrightarrow> take k ws = ws)"
proof (induction ws arbitrary: s)
  case (Cons w ws)
  show ?case
  proof (cases "ie_send env w")
    case True
    then obtain k where "t = s\<lparr>ss_sent := ss_sent s @ w # take k ws\<rparr>" "ok \<longrightarrow> take k ws = ws"
      using Cons.IH [of "s\<lparr>ss_sent := ss_sent s @ [w]\<rparr>"] Cons.prems by (auto simp: innerSendPacket_def)
    then show ?thesis by (intro exI [of _ "Suc k"]) simp
  next
    case False
    then show ?thesis using Cons.prems by (intro exI [of _ 1]) (auto simp: innerSendPacket_def)
  qed
qed simp

text \<open>A prefix of the records of a batch of plain records.\<close>

lemma emits_prefix:
  assumes "sealing a s" and "unat (ss_sendSeq s) + length pkts < 2 ^ 64"
  defines "u \<equiv> s\<lparr>ss_sendSeq := ss_sendSeq s + word_of_nat (length pkts),
      ss_sendHeader := sendHeaderFor s (ss_sendSeq s + word_of_nat (length pkts))\<rparr>"
  shows "emits a s (u\<lparr>ss_sent := ss_sent s @ take k (map (rec_wire a s) (seq_recs (ss_sendSeq s + 1) pkts))\<rparr>)
      (take k (seq_recs (ss_sendSeq s + 1) pkts))"
    and "unat (ss_sendSeq u) = unat (ss_sendSeq s) + length pkts"
proof -
  show last: "unat (ss_sendSeq u) = unat (ss_sendSeq s) + length pkts"
    using assms(2) by (simp add: u_def unat_word_ariths unat_of_nat)
  have first: "unat (ss_sendSeq s + 1) = unat (ss_sendSeq s) + 1" if "pkts \<noteq> []"
    using assms(2) that by (intro u64_next) (cases pkts; simp)
  have range: "list_all (\<lambda>(ps', q', f). unat (ss_sendSeq s) < unat q' \<and> unat q' \<le> unat (ss_sendSeq u)) (seq_recs (ss_sendSeq s + 1) pkts)
      \<and> sorted_wrt (<) (map (\<lambda>(ps, q, f). q) (seq_recs (ss_sendSeq s + 1) pkts))"
    using seq_recs_range [of "ss_sendSeq s + 1" pkts] first last assms(2)
    by (cases "pkts = []") (auto simp: list_all_iff)
  have "list_all P (take k xs)" if "list_all P xs" for P and xs :: "wire_rec list"
    using that by (auto simp: list_all_iff dest: in_set_takeD)
  moreover have "same_sender s (u\<lparr>ss_sent := xs\<rparr>)" for xs
    using assms(1) by (simp add: u_def same_sender_def sendHeaderFor_def take_overwrite_before sealing_def)
  ultimately show "emits a s (u\<lparr>ss_sent := ss_sent s @ take k (map (rec_wire a s) (seq_recs (ss_sendSeq s + 1) pkts))\<rparr>)
      (take k (seq_recs (ss_sendSeq s + 1) pkts))"
    using range last by (simp add: emits_def word_less_nat_alt word_le_nat_alt take_map [symmetric] sorted_wrt_take)
qed

lemma sendSecureBatchRecord_emits:
  assumes "sealing a s" and "ss_batchRecords s" and "unat (ss_sendSeq s) + 1 < 2 ^ 64"
    and "sendSecureBatchRecord env s pkts = Some (t, r)"
  shows "emits a s t [(pkts, ss_sendSeq s + 1, 1)]"
    and "unat (ss_sendSeq t) = unat (ss_sendSeq s) + 1"
proof -
  let ?q = "ss_sendSeq s + 1" and ?s = "s\<lparr>ss_sendSeq := ss_sendSeq s + 1\<rparr>"
  obtain n b where lay: "secureBatchRecordLayout pkts = Some (n, b)"
    using assms(4) by (cases "secureBatchRecordLayout pkts") (auto simp: sendSecureBatchRecord_def)
  have pt: "batchPlaintext pkts (replicate n 0) = batch_layout pkts"
    using lay by (intro batchPlaintext_eq) (simp add: secureBatchRecordLayout_Some)
  have f: "(1 :: u8) \<noteq> 0" "dataFlagBatch = 1" by (simp_all add: dataFlagBatch_def)
  have wire: "data_header (ss_epoch s) (cs_ID (ss_cryptoSuite s)) 1 ?q @ ae_seal a (sendNonceFor s ?q) (batch_layout pkts)
      (data_header (ss_epoch s) (cs_ID (ss_cryptoSuite s)) 1 ?q) = rec_wire a s (pkts, ?q, 1)"
    by (simp add: rec_wire_def Let_def)
  have nonce: "sendNonceFor ?s ?q = sendNonceFor s ?q" by (simp add: sendNonceFor_def)
  have sa: "ss_sendAEAD s = Some a" using assms(1) by (simp add: sealing_def)
  have q: "unat ?q = unat (ss_sendSeq s) + 1" by (rule u64_next [OF assms(3)])
  have res: "ss_sendSeq t = ?q" "same_sender s t" "ss_sent t = ss_sent s @ [rec_wire a s (pkts, ?q, 1)]"
    using assms(4)
    by (auto simp: sendSecureBatchRecord_def lay sa Let_def pt sealing_header [OF assms(1)] f nonce wire countSent_def
        same_sender_def split: if_splits)
  show "emits a s t [(pkts, ?q, 1)]"
    using res q assms(2) layout_batchable [OF lay] by (simp add: emits_def rec_ok_def word_less_nat_alt word_le_nat_alt)
  show "unat (ss_sendSeq t) = unat (ss_sendSeq s) + 1" using res q by simp
qed

lemma countSent_zero: "countSent s 0 0 = s"
  by (cases s) (simp add: countSent_def)

lemma SendPackets_plain:
  assumes seal: "sealing a s" and send: "session_SendPackets env s pkts = (t, r)" and ne: "pkts \<noteq> []"
    and none: "(if ss_batchRecords s \<and> ie_isBuilder env \<and> length pkts > 1 then sendSecureBatchRecord env s pkts else None) = None"
  defines "q \<equiv> ss_sendSeq s + word_of_nat (length pkts)"
  defines "wires \<equiv> map (rec_wire a s) (seq_recs (ss_sendSeq s + 1) pkts)"
  shows "\<exists>k x y. t = countSent (s\<lparr>ss_sendSeq := q, ss_sendHeader := sendHeaderFor s q, ss_sent := ss_sent s @ take k wires\<rparr>) x y \<and>
    (r = None \<longrightarrow> length pkts \<le> k)"
proof -
  let ?u = "s\<lparr>ss_sendSeq := q, ss_sendHeader := sendHeaderFor s q\<rparr>"
  have "same_sender s (s\<lparr>ss_sendSeq := q\<rparr>)" by (simp add: same_sender_def)
  note tr = same_sender_transfer [OF this]
  have wires: "sealEach a (s\<lparr>ss_sendSeq := q\<rparr>) (ss_sendSeq s + 1) pkts = wires"
    using sealEach_recs [of a "s\<lparr>ss_sendSeq := q\<rparr>"] seal by (simp add: tr wires_def)
  have hdr: "sendHeaderFor (s\<lparr>ss_sendSeq := q\<rparr>) q = sendHeaderFor s q"
    by (simp add: sendHeaderFor_def)
  have base: "q - word_of_nat (length pkts) + 1 = ss_sendSeq s + 1" by (simp add: q_def)
  obtain v ok where each: "innerSendEach env wires ?u = (v, ok)" by fastforce
  obtain j where j: "v = ?u\<lparr>ss_sent := ss_sent s @ take j wires\<rparr>" "ok \<longrightarrow> take j wires = wires"
    using innerSendEach_prefix [OF each] by auto
  have step: "session_SendPackets env s pkts =
      (if ie_isBuilder env then
         if \<not> sealedSizesOk a pkts wires then (?u\<lparr>ss_sent := ss_sent s @ wires\<rparr>, Some SErrBuiltSize)
         else if ie_sendBuilt env wires
           then (countSent (?u\<lparr>ss_sent := ss_sent s @ wires\<rparr>) (totalLen pkts) (word_of_nat (length pkts)), None)
         else (?u\<lparr>ss_sent := ss_sent s @ wires\<rparr>, Some SErrInner)
       else if ie_isBatch env then
         if ie_sendBatch env wires
         then (countSent (?u\<lparr>ss_sent := ss_sent s @ wires\<rparr>) (totalLen pkts) (word_of_nat (length pkts)), None)
         else (?u\<lparr>ss_sent := ss_sent s @ wires\<rparr>, Some SErrInner)
       else if ok then (countSent v (totalLen pkts) (word_of_nat (length pkts)), None) else (v, Some SErrInner))"
    using seal ne none each wires hdr base
    by (simp add: session_SendPackets_def sealing_def Let_def flip: q_def)
  have len: "length wires = length pkts" by (simp add: wires_def)
  have "\<exists>i. t = ?u\<lparr>ss_sent := ss_sent s @ take i wires\<rparr> \<and> r \<noteq> None \<or>
      (\<exists>x y. t = countSent (?u\<lparr>ss_sent := ss_sent s @ wires\<rparr>) x y)"
    using send j unfolding step by (auto split: if_splits intro: exI [of _ "length pkts"] exI [of _ j] simp: len)
  then show ?thesis
  proof (elim exE disjE conjE)
    fix i assume "t = ?u\<lparr>ss_sent := ss_sent s @ take i wires\<rparr>" "r \<noteq> None"
    then show ?thesis by (intro exI [of _ i] exI [of _ 0]) (auto simp: countSent_zero)
  next
    fix x y assume "t = countSent (?u\<lparr>ss_sent := ss_sent s @ wires\<rparr>) x y"
    then show ?thesis using len by (intro exI [of _ "length pkts"] exI [of _ x] exI [of _ y]) simp
  qed
qed

lemma SendPackets_emits:
  assumes seal: "sealing a s" and bound: "unat (ss_sendSeq s) + length pkts < 2 ^ 64" and send: "session_SendPackets env s pkts = (t, r)"
  shows "\<exists>recs. emits a s t recs \<and> (r = None \<longrightarrow> concat (map fst recs) = pkts) \<and>
    unat (ss_sendSeq t) \<le> unat (ss_sendSeq s) + length pkts"
proof (cases "pkts = []")
  case True
  with send show ?thesis by (intro exI [of _ "[]"]) (auto simp: session_SendPackets_def emits_def same_sender_def)
next
  case False
  then have one: "unat (ss_sendSeq s) + 1 < 2 ^ 64" "1 \<le> length pkts" using bound by (cases pkts; simp)+
  let ?batch = "if ss_batchRecords s \<and> ie_isBuilder env \<and> length pkts > 1 then sendSecureBatchRecord env s pkts else None"
  show ?thesis
  proof (cases ?batch)
    case (Some tr)
    then have "tr = (t, r)" "ss_batchRecords s" "sendSecureBatchRecord env s pkts = Some (t, r)"
      using send False seal by (auto simp: session_SendPackets_def sealing_def split: if_splits)
    then show ?thesis
      using sendSecureBatchRecord_emits [OF seal _ one(1), of env pkts t r] one(2)
      by (intro exI [of _ "[(pkts, ss_sendSeq s + 1, 1)]"]) auto
  next
    case None
    obtain k x y where t: "t = countSent (s\<lparr>ss_sendSeq := ss_sendSeq s + word_of_nat (length pkts),
          ss_sendHeader := sendHeaderFor s (ss_sendSeq s + word_of_nat (length pkts)),
          ss_sent := ss_sent s @ take k (map (rec_wire a s) (seq_recs (ss_sendSeq s + 1) pkts))\<rparr>) x y"
      and k: "r = None \<longrightarrow> length pkts \<le> k"
      using SendPackets_plain [OF seal send False None] by auto
    show ?thesis
      using emits_prefix [OF seal bound] k
      by (intro exI [of _ "take k (seq_recs (ss_sendSeq s + 1) pkts)"]) (simp add: t emits_counters, simp add: countSent_def)
  qed
qed

section \<open>Sequences of sends and receives\<close>

datatype send_op = SendOne bytes | SendBatch "bytes list"

fun sent_by :: "send_op \<Rightarrow> bytes list" where
  "sent_by (SendOne p) = [p]"
| "sent_by (SendBatch ps) = ps"

fun send_step :: "inner_env \<Rightarrow> send_op \<Rightarrow> session \<Rightarrow> session \<times> sess_error option" where
  "send_step env (SendOne p) s = session_SendPacket env s p"
| "send_step env (SendBatch ps) s = session_SendPackets env s ps"

primrec send_run :: "inner_env \<Rightarrow> send_op list \<Rightarrow> session \<Rightarrow> session \<times> sess_error option list" where
  "send_run env [] s = (s, [])"
| "send_run env (op # ops) s =
     (case send_step env op s of (s, r) \<Rightarrow> case send_run env ops s of (s, rs) \<Rightarrow> (s, r # rs))"

abbreviation (input) all_sent_by :: "send_op list \<Rightarrow> bytes list" where
  "all_sent_by ops \<equiv> concat (map sent_by ops)"

lemma emits_refl: "emits a s s []"
  by (simp add: emits_def same_sender_def)

lemma emits_trans:
  assumes "emits a s t xs" and "emits a t u ys"
  shows "emits a s u (xs @ ys)"
proof -
  have same: "same_sender s t" using assms(1) by (simp add: emits_def)
  note tr = same_sender_transfer [OF same]
  have "same_sender s u" using assms by (simp add: emits_def same_sender_def)
  moreover have "p < q" if "(ps, p, f) \<in> set xs" "(qs, q, g) \<in> set ys" for ps p f qs q g
    using that assms by (fastforce simp: emits_def list_all_iff)
  ultimately show ?thesis
    using assms by (fastforce simp: emits_def tr sorted_wrt_append list_all_iff)
qed

lemma send_step_emits:
  assumes "sealing a s" and "unat (ss_sendSeq s) + length (sent_by op) < 2 ^ 64" and "send_step env op s = (t, r)"
  shows "\<exists>recs. emits a s t recs \<and> (r = None \<longrightarrow> concat (map fst recs) = sent_by op) \<and>
    unat (ss_sendSeq t) \<le> unat (ss_sendSeq s) + length (sent_by op)"
proof (cases op)
  case (SendOne p)
  with assms SendPacket_emits [of a s env p t r] show ?thesis
    by (intro exI [of _ "[([p], ss_sendSeq s + 1, 0)]"]) simp
next
  case (SendBatch ps)
  with assms SendPackets_emits [of a s ps env t r] show ?thesis by simp
qed

lemma send_run_emits:
  "sealing a s \<Longrightarrow> unat (ss_sendSeq s) + length (all_sent_by ops) < 2 ^ 64 \<Longrightarrow> send_run env ops s = (t, rs) \<Longrightarrow>
   \<exists>recs. emits a s t recs \<and> (list_all (\<lambda>r. r = None) rs \<longrightarrow> concat (map fst recs) = all_sent_by ops)"
proof (induction ops arbitrary: s rs)
  case Nil
  then show ?case by (auto intro: exI [of _ "[]"] emits_refl)
next
  case (Cons op ops)
  obtain u r rs' where step: "send_step env op s = (u, r)" "send_run env ops u = (t, rs')" "rs = r # rs'"
    using Cons.prems(3) by (auto split: prod.splits)
  obtain xs where xs: "emits a s u xs" "r = None \<longrightarrow> concat (map fst xs) = sent_by op"
      "unat (ss_sendSeq u) \<le> unat (ss_sendSeq s) + length (sent_by op)"
    using send_step_emits [OF Cons.prems(1) _ step(1)] Cons.prems(2) by auto
  have "same_sender s u" using xs(1) by (simp add: emits_def)
  then have "sealing a u" using Cons.prems(1) same_sender_transfer(1) by blast
  then obtain ys where ys: "emits a u t ys" "list_all (\<lambda>r. r = None) rs' \<longrightarrow> concat (map fst ys) = all_sent_by ops"
    using Cons.IH [OF _ _ step(2)] xs(3) Cons.prems(2) by auto
  show ?case
    using emits_trans [OF xs(1) ys(1)] xs(2) ys(2) step(3) by (intro exI [of _ "xs @ ys"]) simp
qed

lemma sendNonceFor_inj: "length (ss_sendIV s) = 12 \<Longrightarrow> sendNonceFor s p = sendNonceFor s q \<longleftrightarrow> p = q"
  by (simp add: sendNonceFor_def be64.inj_enc)

lemma distinct_increasing: "sorted_wrt (<) (xs :: u64 list) \<Longrightarrow> distinct xs"
  by (induction xs) auto

text \<open>
  C7: nonces are never reused.  Whatever packets and batches are sent, and whichever of the
  sends fail, every wire the session hands to the inner transport, the ones the transport then
  reports as failed included, is one record sealed under the nonce of its sequence number, and
  these nonces are pairwise distinct, as long as fewer than \<open>2 ^ 64\<close> packets are sent.
\<close>
theorem send_nonces_distinct:
  assumes "sealing a s" and "unat (ss_sendSeq s) + length (all_sent_by ops) < 2 ^ 64" and "send_run env ops s = (t, rs)"
  shows "\<exists>recs. ss_sent t = ss_sent s @ map (rec_wire a s) recs \<and> distinct (map (\<lambda>(ps, q, f). sendNonceFor s q) recs)"
proof -
  obtain recs where recs: "emits a s t recs" using send_run_emits [OF assms] by blast
  then have "distinct (map (\<lambda>(ps, q, f). q) recs)"
    by (auto simp: emits_def intro: distinct_increasing)
  moreover have "map (\<lambda>(ps, q, f). sendNonceFor s q) recs = map (sendNonceFor s) (map (\<lambda>(ps, q, f). q) recs)"
    by auto
  ultimately have "distinct (map (\<lambda>(ps, q, f). sendNonceFor s q) recs)"
    using assms(1) by (auto simp: distinct_map inj_on_def sendNonceFor_inj sealing_def)
  with recs show ?thesis by (auto simp: emits_def)
qed

text \<open>The receiving end of a sender.\<close>

definition paired :: "aead \<Rightarrow> session \<Rightarrow> session \<Rightarrow> bool" where
  "paired a tx rx \<longleftrightarrow> sealing a tx \<and> aead_correct a \<and> ss_recvAEAD rx = Some a \<and> ss_recvIV rx = ss_sendIV tx \<and>
     ss_epoch rx = ss_epoch tx \<and> ss_cryptoSuite rx = ss_cryptoSuite tx \<and> ss_batchRecords rx = ss_batchRecords tx \<and>
     ss_recvEncrypted rx"

lemma recvNonce: "length iv = 12 \<Longrightarrow> PutUint64 4 q (overwrite 0 (take 12 iv) (replicate 12 0)) = take 4 iv @ be64 q"
  by (simp add: overwrite_def)

lemma open_rec:
  assumes p: "paired a tx rx" and ok: "rec_ok tx (ps, q, f)"
  shows "openEncryptedPacketNoReplay rx (rec_wire a tx (ps, q, f)) = Inr (if f = 0 then hd ps else batch_layout ps, q, f)"
proof -
  let ?h = "data_header (ss_epoch tx) (cs_ID (ss_cryptoSuite tx)) f q"
  let ?pt = "if f = 0 then hd ps else batch_layout ps"
  let ?c = "ae_seal a (sendNonceFor tx q) ?pt ?h"
  have w: "rec_wire a tx (ps, q, f) = ?h @ ?c" by (simp add: rec_wire_def Let_def)
  have th: "take 24 (?h @ ?c) = ?h" "drop 24 (?h @ ?c) = ?c" by simp_all
  have fl: "f AND NOT dataFlagBatch = 0" "f AND dataFlagBatch = 0 \<or> ss_batchRecords rx"
    using ok p by (auto simp: rec_ok_def dataFlagBatch_def paired_def)
  have len: "24 + ae_overhead a \<le> length (?h @ ?c)" and op: "ae_open a (sendNonceFor tx q) ?c ?h = Some ?pt"
    using p by (simp_all add: paired_def aead_correct_def)
  have nonce: "PutUint64 4 q (overwrite 0 (take 12 (ss_recvIV rx)) (replicate 12 0)) = sendNonceFor tx q"
    using p recvNonce [of "ss_recvIV rx" q] by (simp add: paired_def sealing_def sendNonceFor_def)
  have rx: "ss_recvAEAD rx = Some a" "ss_epoch rx = ss_epoch tx" "ss_cryptoSuite rx = ss_cryptoSuite tx"
    using p by (simp_all add: paired_def)
  show ?thesis
    unfolding w openEncryptedPacketNoReplay_def rx option.case th Let_def data_header_fields nonce op
    using fl len by (simp add: not_less del: length_append)
qed

lemma rec_wire_data:
  "handleDuplicateHandshake env rx (rec_wire a tx r) = (rx, Inr False)" "\<not> isResetPacket (rec_wire a tx r)"
  "shouldOpenUserspaceEncryptedFallback (rec_wire a tx r)"
proof -
  have "take 4 (rec_wire a tx r) = dataMagic" "4 \<le> length (rec_wire a tx r)"
    by (simp_all add: rec_wire_def Let_def data_header_def split: prod.split)
  then show "handleDuplicateHandshake env rx (rec_wire a tx r) = (rx, Inr False)" "\<not> isResetPacket (rec_wire a tx r)"
      "shouldOpenUserspaceEncryptedFallback (rec_wire a tx r)"
    using dataMagic_simps(2)
    by (auto simp: handleDuplicateHandshake_def isResetPacket_def subslice_def shouldOpenUserspaceEncryptedFallback_def)
qed

lemma classify_rec:
  assumes p: "paired a tx rx" and ok: "rec_ok tx (ps, q, f)"
  shows "classify env rx (rec_wire a tx (ps, q, f)) = (rx, Inr (Opened ps q f))"
proof -
  have "ss_recvEncrypted rx" using p by (simp add: paired_def)
  moreover have "f = 0 \<and> length ps = 1 \<or> f = 1 \<and> batchable ps" using ok by (auto simp: rec_ok_def)
  ultimately show ?thesis
    by (auto simp: classify_def rec_wire_data open_rec [OF assms] append_batch_layout dataFlagBatch_def length_Suc_conv)
qed


lemma classify_all_recs:
  "paired a tx rx \<Longrightarrow> list_all (rec_ok tx) recs \<Longrightarrow>
   classify_all env (map (rec_wire a tx) recs) rx = (rx, Inr (map (\<lambda>(ps, q, f). Opened ps q f) recs))"
proof (induction recs)
  case (Cons r recs)
  obtain ps q f where "r = (ps, q, f)" by (cases r)
  with Cons show ?case by (simp add: classify_rec)
qed simp

text \<open>A window accepts numbers that only increase.\<close>

lemma recv_increasing:
  "rw.history r L \<Longrightarrow> sorted_wrt (<) (map (\<lambda>(ps, q, f). q) recs) \<Longrightarrow>
   list_all (\<lambda>(ps, q, f). 0 < q \<and> (\<forall>y \<in> set L. y < q)) recs \<Longrightarrow>
   \<exists>st. recv_verdicts (r, b, c, d, e) (map (\<lambda>(ps, q, f). Opened ps q f) recs) = (st, concat (map fst recs))"
proof (induction recs arbitrary: r L b c d e)
  case (Cons x recs)
  obtain ps q f where x: "x = (ps, q, f)" by (cases x)
  obtain r' ok where acc: "replayWindow_Accept r q = (r', ok)" by fastforce
  have q: "0 < q" "\<forall>y \<in> set L. y < q" using Cons.prems(3) x by auto
  then have "fresh (unat (rw_size r)) (unat ` set L) (unat q)"
    by (auto simp: fresh_def word_less_nat_alt unat_gt_0)
  then have ok: "ok" and h: "rw.history r' (L @ [q])"
    using rw.history_accept [OF Cons.prems(1) acc] by auto
  have "list_all (\<lambda>(ps, q', f). 0 < q' \<and> (\<forall>y \<in> set (L @ [q]). y < q')) recs"
    using Cons.prems(2,3) x by (fastforce simp: list_all_iff)
  note IH = Cons.IH [OF h _ this]
  obtain b' c' d' e' where v: "recv_verdict (r, b, c, d, e) (Opened ps q f) = ((r', b', c', d', e'), ps)"
    using acc ok by simp
  obtain st where "recv_verdicts (r', b', c', d', e') (map (\<lambda>(ps, q, f). Opened ps q f) recs) = (st, concat (map fst recs))"
    using IH [of b' c' d' e'] Cons.prems(2) unfolding x by auto
  with v show ?case by (cases st) (simp add: x del: recv_verdict.simps)
qed simp

lemma stream_delivers:
  assumes "paired a tx rx" and "ss_sendSeq tx = 0" and "ss_sent tx = []" and "ss_replay rx = newReplayWindow n" and "no_pending rx"
    and "length (all_sent_by ops) < 2 ^ 64"
    and "send_run env ops tx = (tx', rs)" and "list_all (\<lambda>r. r = None) rs"
  shows "\<exists>rx'. recvMany env' (Suc (length (all_sent_by ops))) rx (map Some (ss_sent tx')) =
    (rx', [], map Received (all_sent_by ops) @ [Waiting])"
proof -
  have "sealing a tx" using assms(1) by (simp add: paired_def)
  then obtain recs where recs: "emits a tx tx' recs" "concat (map fst recs) = all_sent_by ops"
    using send_run_emits [of a tx ops env tx' rs] assms by auto
  have c: "classify_all env' (ss_sent tx') rx = (rx, Inr (map (\<lambda>(ps, q, f). Opened ps q f) recs))"
    using recs(1) assms(3) classify_all_recs [OF assms(1), of recs env'] by (simp add: emits_def)
  have "rw.history (ss_replay rx) []" using rw_new_history [of n] assms(4) by simp
  then obtain st where st: "recv_verdicts (get_recv rx) (map (\<lambda>(ps, q, f). Opened ps q f) recs) = (st, all_sent_by ops)"
    using recv_increasing [of "ss_replay rx" "[]" recs] recs assms(2)
    by (fastforce simp: emits_def get_recv_def list_all_iff)
  show ?thesis
    using recvMany_verdicts [OF c assms(5) st] by auto
qed

text \<open>
  C6: end-to-end delivery.  Any sequence of successful sends by a fresh sender, split into
  records and batch records as the code chooses, reaches a receiver that gets the wires in
  order: its receives return exactly the packets sent, each once and in order, and then wait.
\<close>
theorem stream_delivery:
  assumes "paired a tx rx" and "ss_sendSeq tx = 0" and "ss_sent tx = []" and "ss_replay rx = newReplayWindow n" and "no_pending rx"
    and "length (all_sent_by ops) < 2 ^ 64"
    and "send_run env ops tx = (tx', rs)" and "list_all (\<lambda>r. r = None) rs"
  shows "\<exists>rx'. recvMany env' (Suc (length (all_sent_by ops))) rx (map Some (ss_sent tx')) =
    (rx', [], map Received (all_sent_by ops) @ [Waiting])"
  by (rule stream_delivers [OF assms])

text \<open>The sequence numbers of the wires that are delivered, for any wires at all.\<close>

primrec recv_trace :: "inner_env \<Rightarrow> bytes list \<Rightarrow> session \<Rightarrow> u64 list" where
  "recv_trace env [] s = []"
| "recv_trace env (w # ws) s =
     (case openReceivedRecordNoStats env s w of
        (s, Inr (Some _)) \<Rightarrow> Uint64 (subslice 16 24 w) # recv_trace env ws s
      | (s, _) \<Rightarrow> recv_trace env ws s)"

definition decrypting :: "session \<Rightarrow> bool" where
  "decrypting s \<longleftrightarrow> ss_recvEncrypted s \<and> \<not> ss_cryptoOffloaded s"

lemma openEncrypted_seq:
  "openEncryptedPacketNoReplay s w = Inr (pt, q, f) \<Longrightarrow> q = Uint64 (subslice 16 24 w)"
  by (auto simp: openEncryptedPacketNoReplay_def Let_def subslice_def take_drop split: option.splits if_splits)

lemma openReceivedRecord_history:
  assumes dec: "decrypting s" and hist: "rw.history (ss_replay s) L" and step: "openReceivedRecordNoStats env s w = (s', r)"
  shows "decrypting s' \<and> (rw.history (ss_replay s') L \<and> (\<forall>x. r \<noteq> Inr (Some x)) \<or>
    rw.history (ss_replay s') (L @ [Uint64 (subslice 16 24 w)]))"
proof -
  obtain s1 d where d: "handleDuplicateHandshake env s w = (s1, d)" by fastforce
  then obtain xs where s1: "s1 = s\<lparr>ss_sent := xs\<rparr>" using handleDuplicateHandshake_frame by blast
  have dec1: "ss_recvEncrypted s1" "\<not> ss_cryptoOffloaded s1" "rw.history (ss_replay s1) L"
    using dec hist by (simp_all add: s1 decrypting_def)
  show ?thesis
  proof (cases "\<not> isResetPacket w \<and> d = Inr False")
    case True
    show ?thesis
    proof (cases "openEncryptedPacketNoReplay s1 w")
      case (Inr o')
      obtain pt q f where o: "o' = (pt, q, f)" by (cases o')
      obtain r' ok where acc: "replayWindow_Accept (ss_replay s1) q = (r', ok)" by fastforce
      have q: "q = Uint64 (subslice 16 24 w)" using openEncrypted_seq Inr o by blast
      show ?thesis
        using rw.history_accept(2) [OF dec1(3) acc] step True d dec1(1,2) Inr o acc q
        by (cases ok) (auto simp: openReceivedRecordNoStats_def decrypting_def Let_def split: if_splits sum.splits)
    qed (use step True d dec1 in \<open>auto simp: openReceivedRecordNoStats_def decrypting_def\<close>)
  next
    case False
    then show ?thesis
      using step d dec1 dec hist by (auto simp: openReceivedRecordNoStats_def decrypting_def split: if_splits sum.splits bool.splits)
  qed
qed

lemma recv_trace_history:
  "decrypting s \<Longrightarrow> rw.history (ss_replay s) L \<Longrightarrow> distinct (recv_trace env ws s) \<and> set (recv_trace env ws s) \<inter> set L = {}"
proof (induction ws arbitrary: s L)
  case (Cons w ws)
  obtain s' r where step: "openReceivedRecordNoStats env s w = (s', r)" by fastforce
  let ?q = "Uint64 (subslice 16 24 w)"
  from openReceivedRecord_history [OF Cons.prems step] show ?case
  proof (elim conjE disjE)
    assume "decrypting s'" "rw.history (ss_replay s') L" "\<forall>x. r \<noteq> Inr (Some x)"
    with Cons.IH [of s' L] step show ?thesis by (auto split: sum.splits option.splits)
  next
    assume h: "decrypting s'" "rw.history (ss_replay s') (L @ [?q])"
    then have "?q \<notin> set L" by (simp add: rw.history_def)
    with Cons.IH [OF h] step show ?thesis by (auto split: sum.splits option.splits)
  qed
qed simp

text \<open>
  C8: at most once.  Whatever wires reach a session that decrypts in user space, in whatever
  order and however often repeated, the wires it delivers carry pairwise different sequence
  numbers; in particular no wire is delivered twice.
\<close>
theorem recv_at_most_once:
  assumes "decrypting s" and "ss_replay s = newReplayWindow n"
  shows "distinct (recv_trace env ws s)"
  using recv_trace_history [OF assms(1), of "[]"] rw_new_history [of n] assms(2) by simp

lemma openEncrypted_authentic:
  assumes iv: "length (ss_recvIV s) = 12" and op: "openEncryptedPacketNoReplay s w = Inr (pt, q, f)"
  shows "\<exists>a ad. ss_recvAEAD s = Some a \<and> ad \<in> {take 24 w, []} \<and>
      ae_open a (take 4 (ss_recvIV s) @ subslice 16 24 w) (drop 24 w) ad = Some pt"
    and "w ! 6 = f" and "f AND NOT dataFlagBatch = 0" and "f AND dataFlagBatch = 0 \<or> ss_batchRecords s"
proof -
  obtain a where a: "ss_recvAEAD s = Some a" using op by (auto simp: openEncryptedPacketNoReplay_def split: option.splits)
  have len: "24 \<le> length w" using op a by (auto simp: openEncryptedPacketNoReplay_def Let_def split: if_splits)
  then have "be64 (Uint64 (subslice 16 24 w)) = subslice 16 24 w" by (simp add: be64.enc_dec_exact)
  moreover have "subslice 16 24 (take 24 w) = subslice 16 24 w" by (simp add: subslice_def drop_take)
  ultimately have nonce: "PutUint64 4 (Uint64 (subslice 16 24 (take 24 w))) (overwrite 0 (take 12 (ss_recvIV s)) (replicate 12 0)) =
      take 4 (ss_recvIV s) @ subslice 16 24 w"
    using recvNonce [OF iv, of "Uint64 (subslice 16 24 w)"] by simp
  show "\<exists>a ad. ss_recvAEAD s = Some a \<and> ad \<in> {take 24 w, []} \<and>
      ae_open a (take 4 (ss_recvIV s) @ subslice 16 24 w) (drop 24 w) ad = Some pt"
    using op a by (auto simp: openEncryptedPacketNoReplay_def Let_def nonce simp del: length_overwrite split: if_splits option.splits)
  show "w ! 6 = f" "f AND NOT dataFlagBatch = 0" "f AND dataFlagBatch = 0 \<or> ss_batchRecords s"
    using op a len by (auto simp: openEncryptedPacketNoReplay_def Let_def split: if_splits option.splits)
qed

lemma flag_cases: "f AND NOT dataFlagBatch = 0 \<Longrightarrow> f = (if f AND dataFlagBatch = 0 then 0 else 1)"
proof -
  assume z: "f AND NOT dataFlagBatch = 0"
  have "f = (f AND dataFlagBatch) OR (f AND NOT dataFlagBatch)" by (simp flip: bit.conj_disj_distrib)
  then have "f = f AND 1" unfolding z by (simp add: dataFlagBatch_def)
  then have "f = of_bool (odd f)" by (simp only: and_one_eq mod_2_eq_odd)
  then have "f = 0 \<or> f = 1" by (cases "odd f") simp_all
  then show ?thesis by (auto simp: dataFlagBatch_def)
qed

text \<open>
  C9: only authenticated packets are delivered.  When a session that decrypts in user space
  returns a packet for a wire, the AEAD opened the wire's ciphertext under the nonce of the
  wire's sequence number, with the header (or, for older peers, nothing) as associated data,
  and the packet is the plaintext or the first packet of the batch record it encodes.
\<close>
theorem recv_authenticated:
  assumes "decrypting s" and "length (ss_recvIV s) = 12" and "openReceivedRecordNoStats env s w = (s', Inr (Some (p, b, n)))"
  shows "\<exists>a pt ad. ss_recvAEAD s = Some a \<and> ad \<in> {take 24 w, []} \<and>
    ae_open a (take 4 (ss_recvIV s) @ subslice 16 24 w) (drop 24 w) ad = Some pt \<and>
    (w ! 6 = 0 \<and> p = pt \<or> w ! 6 = 1 \<and> ss_batchRecords s \<and> (\<exists>ps. batchable ps \<and> pt = batch_layout ps \<and> p = hd ps))"
proof -
  obtain s1 d where d: "handleDuplicateHandshake env s w = (s1, d)" by fastforce
  then obtain xs where s1: "s1 = s\<lparr>ss_sent := xs\<rparr>" using handleDuplicateHandshake_frame by blast
  obtain pt q f where op: "openEncryptedPacketNoReplay s1 w = Inr (pt, q, f)"
    and p: "if f AND dataFlagBatch = 0 then p = pt
            else \<exists>ps. appendSecureBatchRecordPackets [] pt = Inr (ps, b, length ps) \<and> p = ps ! 0"
    using assms(1,3) d append_batch_facts(2)
    by (auto simp: openReceivedRecordNoStats_def decrypting_def s1 Let_def split: if_splits sum.splits bool.splits prod.splits)
  note auth = openEncrypted_authentic [OF _ op, unfolded s1, simplified, OF assms(2)]
  obtain a ad where a: "ss_recvAEAD s = Some a" "ad \<in> {take 24 w, []}"
      "ae_open a (take 4 (ss_recvIV s) @ subslice 16 24 w) (drop 24 w) ad = Some pt"
    using auth(1) by auto
  have f: "w ! 6 = (if f AND dataFlagBatch = 0 then 0 else 1)"
    using auth(2) flag_cases [OF auth(3)] by simp
  have "w ! 6 = 0 \<and> p = pt \<or> w ! 6 = 1 \<and> ss_batchRecords s \<and> (\<exists>ps. batchable ps \<and> pt = batch_layout ps \<and> p = hd ps)"
  proof (cases "f AND dataFlagBatch = 0")
    case False
    then obtain ps where ps: "appendSecureBatchRecordPackets [] pt = Inr (ps, b, length ps)" "p = ps ! 0" using p by auto
    then obtain qs where "batchable qs" "pt = batch_layout qs" using append_batch_decoded by blast
    moreover from this have "p = hd qs" using ps by (cases ps) (auto simp: append_batch_layout batchable_def)
    ultimately show ?thesis using False f auth(4) by auto
  qed (use p f in simp)
  with a show ?thesis by blast
qed

lemma recv_batch_recs:
  assumes "paired a tx rx" and "list_all (rec_ok tx) recs" and "rw.history (ss_replay rx) []"
    and "sorted_wrt (<) (map (\<lambda>(ps, q, f). q) recs)" and "list_all (\<lambda>(ps, q, f). 0 < q) recs"
  defines "ps \<equiv> concat (map fst recs)"
  shows "\<exists>s1. openReceivedPacketBatch env rx [] (map (rec_wire a tx) recs) = (s1, Inr (ps, totalLen ps, word_of_nat (length ps)))"
proof -
  let ?vs = "map (\<lambda>(ps, q, f). Opened ps q f) recs"
  note c = classify_all_recs [OF assms(1,2), of env]
  obtain r oks where a: "accept_seq replayWindow_Accept (seqs_of ?vs) (ss_replay rx) = (r, oks)" by fastforce
  obtain ss tail where sg: "segs_of [] ?vs oks = (ss, tail)" by fastforce
  obtain x y where f: "foldl count_record (ss_batchRecordsIn rx, ss_batchPacketsIn rx) (zip oks (counts_of ?vs)) = (x, y)"
    by fastforce
  obtain st where st: "recv_verdicts (get_recv rx) ?vs = (st, ps)"
    using recv_increasing [OF assms(3,4)] assms(5) unfolding ps_def get_recv_def by fastforce
  have "segments_kept ss @ tail = ps"
    using recv_verdicts_eq [OF a sg, of "ss_batchRecordsIn rx" "ss_batchPacketsIn rx" "ss_bytesRecv rx" "ss_packetsIn rx"] st
    by (auto simp: get_recv_def split: prod.splits)
  from openReceivedPacketBatch_eq [OF c _ a sg f this] show ?thesis
    using assms(3) by (simp add: rw.history_def)
qed


section \<open>A concrete session\<close>

text \<open>
  A one-byte additive tag stands in for the AEAD where the properties above are evaluated: it
  satisfies \<open>aead_correct\<close>, which is all they rely on.
\<close>

definition toy_tag :: "bytes \<Rightarrow> bytes \<Rightarrow> bytes \<Rightarrow> u8" where
  "toy_tag nonce plain ad = fold (+) (nonce @ plain @ ad) 0"

definition toy_aead :: aead where
  "toy_aead = \<lparr>ae_seal = (\<lambda>nonce plain ad. plain @ [toy_tag nonce plain ad]),
     ae_open = (\<lambda>nonce c ad. if c \<noteq> [] \<and> last c = toy_tag nonce (butlast c) ad then Some (butlast c) else None),
     ae_overhead = 1\<rparr>"

lemma toy_aead_correct: "aead_correct toy_aead"
  by (simp add: aead_correct_def toy_aead_def)

definition toy_session :: session where
  "toy_session = initDataHeader
     \<lparr>ss_role = ClientRole, ss_sendAEAD = Some toy_aead, ss_recvAEAD = Some toy_aead,
      ss_sendIV = replicate 12 1, ss_recvIV = replicate 12 1, ss_epoch = 7, ss_cryptoOffloaded = False,
      ss_cryptoSuite = suite_aes256, ss_cryptoKeySource = KeySourceTrustIXX25519, ss_encryptionMode = EncryptionSecure,
      ss_sendEncrypted = True, ss_recvEncrypted = True, ss_peerGeneration = None, ss_sendSeq = 0,
      ss_sendHeader = replicate 24 0, ss_recvPending = [], ss_recvPendingIndex = 0, ss_replay = newReplayWindow 64,
      ss_batchRecords = True, ss_batchRecordsOut = 0, ss_batchPacketsOut = 0, ss_batchRecordsIn = 0, ss_batchPacketsIn = 0,
      ss_bytesSent = 0, ss_bytesRecv = 0, ss_packetsOut = 0, ss_packetsIn = 0, ss_clientHelloRaw = [], ss_serverHelloRaw = [],
      ss_cryptoPlacement = [], ss_peerCert = None, ss_tlsHandshakeOnly = False, ss_sent = []\<rparr>"

definition toy_env :: inner_env where
  "toy_env = \<lparr>ie_send = (\<lambda>_. True), ie_isBatch = True, ie_sendBatch = (\<lambda>_. True), ie_isBuilder = True, ie_sendBuilt = (\<lambda>_. True)\<rparr>"

lemma toy_session_sealing: "sealing toy_aead toy_session"
  by (simp add: sealing_def toy_session_def initDataHeader_def data_header_def wire_simps drop_Cons')

lemma toy_session_fields [simp]:
  "ss_sendSeq toy_session = 0" "ss_sent toy_session = []" "ss_replay toy_session = newReplayWindow 64" "no_pending toy_session"
  "decrypting toy_session" "length (ss_recvIV toy_session) = 12"
  by (simp_all add: toy_session_def initDataHeader_def no_pending_def decrypting_def Let_def)

lemma toy_session_paired: "paired toy_aead toy_session toy_session"
  using toy_session_sealing toy_aead_correct by (simp add: paired_def toy_session_def initDataHeader_def Let_def)

abbreviation (input) toy_ops :: "send_op list" where
  "toy_ops \<equiv> [SendOne [1, 2], SendBatch [[3], [4, 5]], SendOne []]"

lemma toy_run: "map (\<lambda>r. r = None) (snd (send_run toy_env toy_ops toy_session)) = [True, True, True]"
  by code_simp

lemma toy_run_ok:
  obtains tx rs where "send_run toy_env toy_ops toy_session = (tx, rs)" and "list_all (\<lambda>r. r = None) rs"
proof -
  obtain tx rs where run: "send_run toy_env toy_ops toy_session = (tx, rs)" by fastforce
  moreover have "list_all id (map (\<lambda>r. r = None) rs)" using toy_run unfolding run by simp
  ultimately show thesis using that by (simp only: list_all_iff) auto
qed

theorem stream_delivery_witness:
  "\<exists>rx. recvMany toy_env 5 toy_session (map Some (ss_sent (fst (send_run toy_env toy_ops toy_session)))) =
    (rx, [], [Received [1, 2], Received [3], Received [4, 5], Received [], Waiting])"
proof -
  obtain tx rs where run: "send_run toy_env toy_ops toy_session = (tx, rs)" and ok: "list_all (\<lambda>r. r = None) rs"
    by (rule toy_run_ok)
  have "\<exists>rx. recvMany toy_env (Suc (length (all_sent_by toy_ops))) toy_session (map Some (ss_sent tx)) =
      (rx, [], map Received (all_sent_by toy_ops) @ [Waiting])"
    by (rule stream_delivery [OF toy_session_paired _ _ _ _ _ run ok]) simp_all
  then show ?thesis unfolding run by (simp del: recvMany.simps add: eval_nat_numeral)
qed

theorem send_nonces_distinct_witness:
  "\<exists>recs. ss_sent (fst (send_run toy_env toy_ops toy_session)) = map (rec_wire toy_aead toy_session) recs \<and>
    distinct (map (\<lambda>(ps, q, f). sendNonceFor toy_session q) recs)"
proof -
  obtain tx rs where run: "send_run toy_env toy_ops toy_session = (tx, rs)" by (rule toy_run_ok)
  show ?thesis
    using send_nonces_distinct [OF toy_session_sealing _ run] unfolding run by simp
qed

theorem recv_at_most_once_witness:
  "distinct (recv_trace toy_env [rec_wire toy_aead toy_session ([[9]], 3, 0), rec_wire toy_aead toy_session ([[8]], 1, 0),
     rec_wire toy_aead toy_session ([[9]], 3, 0)] toy_session)"
  by (rule recv_at_most_once [of _ 64]) simp_all

lemma toy_accept: "\<exists>w. replayWindow_Accept (newReplayWindow n) 1 = (w, True)"
  using rw.history_accept(1) [OF rw_new_history, of n 1]
  by (cases "replayWindow_Accept (newReplayWindow n) 1") (simp add: fresh_def)

theorem recv_authenticated_witness:
  "\<exists>s' w. openReceivedRecordNoStats toy_env toy_session w = (s', Inr (Some ([9], 1, 1))) \<and>
    (\<exists>ad pt. ae_open toy_aead (replicate 4 1 @ subslice 16 24 w) (drop 24 w) ad = Some pt \<and> w ! 6 = 0 \<and> pt = [9])"
proof -
  let ?r = "([[9]], 1, 0) :: wire_rec"
  let ?w = "rec_wire toy_aead toy_session ?r"
  have ok: "rec_ok toy_session ?r" by (simp add: rec_ok_def)
  obtain r' where acc: "replayWindow_Accept (newReplayWindow 64) 1 = (r', True)" using toy_accept by blast
  have enc: "ss_recvEncrypted toy_session" "\<not> ss_cryptoOffloaded toy_session"
    using toy_session_fields(5) unfolding decrypting_def by simp_all
  have step: "openReceivedRecordNoStats toy_env toy_session ?w = (toy_session\<lparr>ss_replay := r'\<rparr>, Inr (Some ([9], 1, 1)))"
    by (simp add: openReceivedRecordNoStats_def rec_wire_data enc open_rec [OF toy_session_paired ok] acc dataFlagBatch_def Let_def)
  have f: "?w ! 6 = 0" by (simp add: rec_wire_def Let_def nth_append)
  have iv: "take 4 (ss_recvIV toy_session) = replicate 4 1" "ss_recvAEAD toy_session = Some toy_aead"
    by (simp_all add: toy_session_def initDataHeader_def Let_def)
  show ?thesis
    using recv_authenticated [OF toy_session_fields(5,6) step] step f iv by auto
qed

theorem recv_batch_equals_single_witness:
  "\<exists>ws s1 n. length ws = 2 \<and> openReceivedPacketBatch toy_env toy_session [] ws = (s1, Inr ([[1], [2], [3]], 3, n)) \<and>
     recvMany toy_env 4 toy_session (map Some ws) =
       (recordPacketsReceived s1 3 n, [], [Received [1], Received [2], Received [3], Waiting])"
proof -
  let ?recs = "[([[1]], 1, 0), ([[2], [3]], 2, 1)] :: wire_rec list"
  define ws where "ws = map (rec_wire toy_aead toy_session) ?recs"
  have len: "length ws = 2" by (simp add: ws_def)
  have "list_all (rec_ok toy_session) ?recs"
    by (simp add: rec_ok_def batchable_def) (simp add: toy_session_def initDataHeader_def Let_def)
  then obtain s1 where b: "openReceivedPacketBatch toy_env toy_session [] ws = (s1, Inr ([[1], [2], [3]], 3, 3))"
    using recv_batch_recs [OF toy_session_paired, of ?recs toy_env] rw_new_history unfolding ws_def by auto
  have "rw_wf (ss_replay toy_session)" using newReplayWindow_wf(1) by simp
  have four: "Suc (length [[1], [2], [3 :: u8]]) = 4" by simp
  have "recvMany toy_env (Suc (length [[1], [2], [3 :: u8]])) toy_session (map Some ws) =
      (recordPacketsReceived s1 3 3, [], map Received [[1], [2], [3]] @ [Waiting])"
    using \<open>rw_wf _\<close> by (intro recv_batch_equals_single [OF b]) simp_all
  then have "recvMany toy_env 4 toy_session (map Some ws) =
      (recordPacketsReceived s1 3 3, [], [Received [1], Received [2], Received [3], Waiting])"
    by (simp only: four list.map append.simps)
  with b len show ?thesis by blast
qed

end
