(* ===== verification/SecureHandshake.thy ===== *)
theory SecureHandshake
  imports SecureStream
begin

unbundle bit_operations_syntax

text \<open>
  The handshake of the secure transport (\<^verbatim>\<open>internal/transport/secure/secure.go\<close>): feature
  negotiation, key derivation, verification of hellos, the two sides of the handshake and the
  session they create.

  The cryptographic primitives of the Go libraries (SHA-256, HMAC, X25519, the AEAD
  constructors, X.509) are arguments, collected in \<open>crypto\<close> and \<open>x509\<close>.  Option callbacks are
  the values they return, fresh randomness and private keys are arguments.
\<close>

record crypto =
  cr_sha256 :: "bytes \<Rightarrow> bytes"
  cr_hmac :: "bytes \<Rightarrow> bytes \<Rightarrow> bytes"
  cr_public :: "bytes \<Rightarrow> bytes"
  cr_ecdh :: "bytes \<Rightarrow> bytes \<Rightarrow> bytes option"
  cr_aesgcm :: "bytes \<Rightarrow> aead option"
  cr_chacha :: "bytes \<Rightarrow> aead option"

datatype verifySide = verifyClientSide | verifyServerSide

text \<open>
  Certificates are their DER encodings.  \<open>xc_ecdsaVerify\<close> is false also for a certificate whose
  key is not an ECDSA key; \<open>xc_verify\<close> is \<^verbatim>\<open>Certificate.Verify\<close> with the roots, the
  intermediates and the DNS name of its options (none is checked when it is empty): the
  chains it finds, or \<open>None\<close> for an error.  A certificate pool is the list of its certificates,
  and \<open>None\<close> is a pool that is not configured.
\<close>

record x509 =
  xc_parse :: "bytes \<Rightarrow> bytes list option"
  xc_ecdsaVerify :: "bytes \<Rightarrow> bytes \<Rightarrow> bytes \<Rightarrow> bool"
  xc_verify :: "bytes \<Rightarrow> bytes list \<Rightarrow> bytes list \<Rightarrow> string \<Rightarrow> bytes list list option"

record tls_conf =
  tc_chain :: "bytes list"
  tc_signer :: "(bytes \<Rightarrow> bytes option) option"
  tc_RootCAs :: "bytes list option"
  tc_ServerName :: string
  tc_ClientAuth :: nat
  tc_ClientCAs :: "bytes list option"
  tc_VerifyPeerCertificate :: "(bytes list \<Rightarrow> bytes list list \<Rightarrow> bool) option"

record hs_options =
  op_Epoch :: u64
  op_RequirePeerAuth :: bool
  op_KeySource :: "string option"
  op_Encryption :: "string option"
  op_CryptoSuites :: "string list option"
  op_BatchRecords :: "bool option"
  op_TLSHandshakeOnly :: "bool option"
  op_DerivedEpoch :: "bool option"
  op_SessionGeneration :: "bytes option"

datatype offload_result = OffloadEnabled string | OffloadUnavailable | OffloadFailed

record offload_spec =
  os_Suite :: string
  os_KeySource :: string
  os_Epoch :: u64
  os_ReplayWindow :: u64
  os_SendKey :: bytes
  os_SendIV :: bytes
  os_RecvKey :: bytes
  os_RecvIV :: bytes

text \<open>The optional interfaces of the inner session, and the two environment variables read.\<close>

record inner_caps =
  ic_batchBuilder :: bool
  ic_batchReceiver :: bool
  ic_datagram :: bool
  ic_handoffAvailable :: bool
  ic_exporter :: "(bytes \<Rightarrow> bytes \<Rightarrow> nat \<Rightarrow> bytes option) option"
  ic_tlsEnabled :: bool
  ic_offload :: "(offload_spec \<Rightarrow> offload_result) option"
  ic_envBatchRecords :: string
  ic_envTLSHandshakeOnly :: string


section \<open>Requested policy and offered features\<close>

definition requestedKeySource :: "hs_options \<Rightarrow> string" where
  "requestedKeySource options =
     (case op_KeySource options of None \<Rightarrow> KeySourceAuto | Some s \<Rightarrow> normalizeKeySource s)"

definition requestedEncryptionPolicy :: "hs_options \<Rightarrow> encryption_policy" where
  "requestedEncryptionPolicy options =
     (case op_Encryption options of
        None \<Rightarrow> EncryptionPolicyForMode EncryptionSecure
      | Some mode \<Rightarrow> EncryptionPolicyForMode mode)"

definition suiteMaskForOptions :: "hs_options \<Rightarrow> u16" where
  "suiteMaskForOptions options =
     (case op_CryptoSuites options of
        None \<Rightarrow> suiteMaskForSuites [cs_Name defaultSuite]
      | Some names \<Rightarrow> suiteMaskForSuites names)"

definition secureBatchRecordsRequested :: "inner_caps \<Rightarrow> hs_options \<Rightarrow> bool" where
  "secureBatchRecordsRequested inner options =
     (case op_BatchRecords options of
        Some b \<Rightarrow> b
      | None \<Rightarrow> ToLower (TrimSpace (ic_envBatchRecords inner)) \<notin> {''0'', ''false'', ''no'', ''off'', ''disabled''})"

definition secureBatchRecordFeature :: "inner_caps \<Rightarrow> hs_options \<Rightarrow> u16" where
  "secureBatchRecordFeature inner options =
     (if \<not> secureBatchRecordsRequested inner options then 0
      else if \<not> ic_batchBuilder inner then 0
      else if \<not> ic_batchReceiver inner then 0
      else if ic_datagram inner then 0
      else helloFeatureBatchRecords)"

definition secureTLSHandshakeOnlyRequested :: "inner_caps \<Rightarrow> hs_options \<Rightarrow> bool" where
  "secureTLSHandshakeOnlyRequested inner options =
     (let v = ToLower (TrimSpace (ic_envTLSHandshakeOnly inner)) in
      if v \<in> {''1'', ''true'', ''yes'', ''on'', ''enabled''} then True
      else if v \<in> {''0'', ''false'', ''no'', ''off'', ''disabled''} then False
      else case op_TLSHandshakeOnly options of Some b \<Rightarrow> b | None \<Rightarrow> True)"

definition secureTLSHandshakeOnlyFeature :: "inner_caps \<Rightarrow> hs_options \<Rightarrow> u16" where
  "secureTLSHandshakeOnlyFeature inner options =
     (if \<not> secureTLSHandshakeOnlyRequested inner options \<or> \<not> FullyEncrypted (requestedEncryptionPolicy options) then 0
      else if \<not> ic_handoffAvailable inner then 0
      else if ic_exporter inner = None \<or> \<not> ic_tlsEnabled inner then 0
      else helloFeatureTLSHandshakeOnly)"

definition secureSessionGenerationFeature :: "hs_options \<Rightarrow> u16" where
  "secureSessionGenerationFeature options =
     (if op_SessionGeneration options = None then 0 else helloFeatureSessionGeneration)"

definition secureDerivedEpochFeature :: "hs_options \<Rightarrow> u16" where
  "secureDerivedEpochFeature options =
     (if op_Epoch options \<noteq> 0 \<or> \<not> AnyEncrypted (requestedEncryptionPolicy options) then 0
      else if op_DerivedEpoch options = Some False then 0
      else helloFeatureDerivedEpoch)"

definition secureHelloFeatures :: "inner_caps \<Rightarrow> hs_options \<Rightarrow> u16" where
  "secureHelloFeatures inner options =
     secureDerivedEpochFeature options OR secureSessionGenerationFeature options OR
     secureBatchRecordFeature inner options OR secureTLSHandshakeOnlyFeature inner options"


section \<open>Key derivation\<close>

definition hkdfExtract :: "crypto \<Rightarrow> bytes \<Rightarrow> bytes \<Rightarrow> bytes" where
  "hkdfExtract c salt secret = cr_hmac c salt secret"

text \<open>
  The expansion loop runs until the output is long enough; \<open>None\<close> is a loop that does not end
  (it would not if the MAC could be empty).  The counter is a byte and wraps.
\<close>

partial_function (option) hkdfLoop ::
  "(bytes \<Rightarrow> bytes \<Rightarrow> bytes) \<Rightarrow> bytes \<Rightarrow> bytes \<Rightarrow> nat \<Rightarrow> u8 \<Rightarrow> bytes \<Rightarrow> bytes \<Rightarrow> bytes option" where
  "hkdfLoop hmac prk info len counter previous output =
     (if length output < len then
        let previous = hmac prk (previous @ info @ [counter])
        in hkdfLoop hmac prk info len (counter + 1) previous (output @ previous)
      else Some (take len output))"

definition hkdfExpand :: "crypto \<Rightarrow> bytes \<Rightarrow> bytes \<Rightarrow> nat \<Rightarrow> bytes option" where
  "hkdfExpand c prk info len = hkdfLoop (cr_hmac c) prk info len 1 [] []"

definition deriveKeyMaterial :: "crypto \<Rightarrow> bytes \<Rightarrow> bytes \<Rightarrow> bytes \<Rightarrow> nat \<Rightarrow> crypto_suite \<Rightarrow> bytes option" where
  "deriveKeyMaterial c secret clientRandom serverRandom len suite =
     (let salt = clientRandom @ serverRandom;
          prk = hkdfExtract c salt secret
      in hkdfExpand c prk (str_bytes (cs_KDFInfo suite)) len)"

definition tlsExporterContext :: "crypto \<Rightarrow> bytes \<Rightarrow> bytes \<Rightarrow> bytes \<Rightarrow> bytes \<Rightarrow> crypto_suite \<Rightarrow> bytes" where
  "tlsExporterContext c clientRandom serverRandom clientPublic serverPublic suite =
     (let payload = str_bytes ''TrustIX secure transport TLS exporter context v1'' @ [0];
          payload = (if cs_Name suite \<noteq> cs_Name defaultSuite
                     then payload @ str_bytes ''suite'' @ [0] @ str_bytes (cs_Name suite) @ [0] else payload)
      in cr_sha256 c (payload @ clientRandom @ serverRandom @ clientPublic @ serverPublic))"

definition tlsExporterLabel :: bytes where
  "tlsExporterLabel = str_bytes ''EXPORTER-TrustIX-secure-transport-v1''"

definition deriveTLSExporterKeyMaterial ::
  "crypto \<Rightarrow> inner_caps \<Rightarrow> bytes \<Rightarrow> bytes \<Rightarrow> bytes \<Rightarrow> bytes \<Rightarrow> nat \<Rightarrow> crypto_suite \<Rightarrow> hs_error + bytes" where
  "deriveTLSExporterKeyMaterial c inner clientRandom serverRandom clientPublic serverPublic len suite =
     (case ic_exporter inner of
        None \<Rightarrow> Inl ErrExporter
      | Some export \<Rightarrow>
          (case export tlsExporterLabel (tlsExporterContext c clientRandom serverRandom clientPublic serverPublic suite) len of
             None \<Rightarrow> Inl ErrExporter
           | Some material \<Rightarrow> if length material \<noteq> len then Inl ErrExporter else Inr material))"

text \<open>\<open>None\<close>: the derivation does not return.\<close>

definition deriveSessionKeyMaterial ::
  "crypto \<Rightarrow> inner_caps \<Rightarrow> bytes \<Rightarrow> bytes \<Rightarrow> bytes \<Rightarrow> bytes \<Rightarrow> bytes \<Rightarrow> hs_options \<Rightarrow> crypto_suite \<Rightarrow>
   (hs_error + bytes \<times> string) option" where
  "deriveSessionKeyMaterial c inner secret clientRandom serverRandom clientPublic serverPublic options suite =
     (let requested = requestedKeySource options;
          materialLen = cs_KeyLen suite * 2 + cs_NonceLen suite * 2;
          exported = deriveTLSExporterKeyMaterial c inner clientRandom serverRandom clientPublic serverPublic materialLen suite;
          derived = map_option (\<lambda>m. Inr (m, KeySourceTrustIXX25519)) (deriveKeyMaterial c secret clientRandom serverRandom materialLen suite)
      in if requested = KeySourceTLSExporter then
           (case exported of Inl e \<Rightarrow> Some (Inl e) | Inr m \<Rightarrow> Some (Inr (m, KeySourceTLSExporter)))
         else if requested = KeySourceTrustIXX25519 then derived
         else if requested = KeySourceAuto then
           (case exported of Inr m \<Rightarrow> Some (Inr (m, KeySourceTLSExporter)) | Inl _ \<Rightarrow> derived)
         else Some (Inl (ErrKeySource requested)))"

definition epochField :: "bytes \<Rightarrow> bytes" where
  "epochField field = be32 (word_of_nat (length field)) @ field"

definition deriveSessionEpoch :: "crypto \<Rightarrow> bytes \<Rightarrow> bytes \<Rightarrow> bytes \<Rightarrow> bytes \<Rightarrow> crypto_suite \<Rightarrow> u64" where
  "deriveSessionEpoch c clientRandom serverRandom clientPublic serverPublic suite =
     (let payload = str_bytes ''TrustIX secure transport wire epoch v1'' @ [0] @ epochField (str_bytes (cs_Name suite)) @
            epochField clientRandom @ epochField serverRandom @ epochField clientPublic @ epochField serverPublic;
          digest = cr_sha256 c payload;
          epoch = Uint64 (subslice 0 8 digest);
          epoch = (if epoch = 0 then Uint64 (subslice 8 16 digest) else epoch)
      in if epoch = 0 then 1 else epoch)"

definition newAEAD :: "crypto \<Rightarrow> crypto_suite \<Rightarrow> bytes \<Rightarrow> hs_error + aead" where
  "newAEAD c suite key =
     (if cs_Name suite = SuiteAES256GCMX25519 \<or> cs_Name suite = SuiteAES128GCMX25519 then
        (case cr_aesgcm c key of None \<Rightarrow> Inl ErrAEAD | Some a \<Rightarrow> Inr a)
      else if cs_Name suite = SuiteChaCha20Poly1305X25519 then
        (case cr_chacha c key of None \<Rightarrow> Inl ErrAEAD | Some a \<Rightarrow> Inr a)
      else Inl ErrInvalidHandshake)"

section \<open>Verification of a hello\<close>

definition pki_Sign :: "crypto \<Rightarrow> (bytes \<Rightarrow> bytes option) \<Rightarrow> bytes \<Rightarrow> bytes option" where
  "pki_Sign c signer payload = signer (cr_sha256 c payload)"

definition pki_Verify :: "crypto \<Rightarrow> x509 \<Rightarrow> bytes \<Rightarrow> bytes \<Rightarrow> bytes \<Rightarrow> bool" where
  "pki_Verify c x cert payload signature = xc_ecdsaVerify x cert (cr_sha256 c payload) signature"

abbreviation (input) RequireAnyClientCert :: nat where "RequireAnyClientCert \<equiv> 2"

definition peerAuthRequired :: "verifySide \<Rightarrow> tls_conf option \<Rightarrow> bool" where
  "peerAuthRequired side tlsConf =
     (case tlsConf of
        None \<Rightarrow> False
      | Some conf \<Rightarrow>
          (case side of
             verifyClientSide \<Rightarrow> tc_RootCAs conf \<noteq> None \<or> tc_ServerName conf \<noteq> [] \<or> tc_VerifyPeerCertificate conf \<noteq> None
           | verifyServerSide \<Rightarrow> tc_ClientAuth conf \<ge> RequireAnyClientCert \<or> tc_ClientCAs conf \<noteq> None \<or>
               tc_VerifyPeerCertificate conf \<noteq> None))"

definition verifiedChain :: "x509 \<Rightarrow> bytes \<Rightarrow> bytes list \<Rightarrow> verifySide \<Rightarrow> tls_conf \<Rightarrow> hs_error + bytes list" where
  "verifiedChain x cert intermediates side conf =
     (case (if side = verifyClientSide then tc_RootCAs conf else tc_ClientCAs conf) of
        None \<Rightarrow> Inr [cert]
      | Some roots \<Rightarrow>
          (case xc_verify x cert roots intermediates (if side = verifyClientSide then tc_ServerName conf else []) of
             None \<Rightarrow> Inl ErrChain
           | Some [] \<Rightarrow> Inl ErrEmptyChain
           | Some (chain # _) \<Rightarrow> Inr chain))"

definition verifyCertificateChain :: "x509 \<Rightarrow> bytes \<Rightarrow> bytes list \<Rightarrow> verifySide \<Rightarrow> tls_conf \<Rightarrow> hs_error + unit" where
  "verifyCertificateChain x cert intermediates side conf =
     (case verifiedChain x cert intermediates side conf of Inl e \<Rightarrow> Inl e | Inr _ \<Rightarrow> Inr ())"

definition verifyHello ::
  "crypto \<Rightarrow> x509 \<Rightarrow> hello \<Rightarrow> verifySide \<Rightarrow> tls_conf option \<Rightarrow> hs_options \<Rightarrow> bytes \<Rightarrow> hs_error + bytes option" where
  "verifyHello c x peerHello side tlsConf options signedPayload =
     (let authRequired = (op_RequirePeerAuth options \<or> peerAuthRequired side tlsConf) in
      if h_certDER peerHello = [] then (if authRequired then Inl ErrPeerAuthRequired else Inr None)
      else case xc_parse x (h_certDER peerHello) of
        None \<Rightarrow> Inl ErrParseCert
      | Some [] \<Rightarrow> Inl ErrEmptyChain
      | Some (cert # intermediates) \<Rightarrow>
          if h_signature peerHello = [] then Inl ErrMissingSignature
          else if \<not> pki_Verify c x cert signedPayload (h_signature peerHello) then Inl ErrBadSignature
          else case tlsConf of
            None \<Rightarrow> Inr (Some cert)
          | Some conf \<Rightarrow>
              (case verifyCertificateChain x cert intermediates side conf of
                 Inl e \<Rightarrow> Inl e
               | Inr _ \<Rightarrow>
                   (case tc_VerifyPeerCertificate conf of
                      None \<Rightarrow> Inr (Some cert)
                    | Some callback \<Rightarrow>
                        let chains = (case verifiedChain x cert intermediates side conf of Inr chain \<Rightarrow> [chain] | Inl _ \<Rightarrow> []) in
                        if callback (cert # intermediates) chains then Inr (Some cert) else Inl ErrCallback)))"


section \<open>Creating a session\<close>

definition localCertificate :: "tls_conf option \<Rightarrow> hs_error + bytes \<times> (bytes \<Rightarrow> bytes option) option" where
  "localCertificate tlsConf =
     (case tlsConf of
        None \<Rightarrow> Inr ([], None)
      | Some conf \<Rightarrow>
          if tc_chain conf = [] then Inr ([], None)
          else case tc_signer conf of
            None \<Rightarrow> Inl ErrSign
          | Some signer \<Rightarrow> Inr (concat (tc_chain conf), Some signer))"

record handshake_state =
  hs_privateKey :: bytes
  hs_certDER :: bytes
  hs_signer :: "(bytes \<Rightarrow> bytes option) option"

definition handshake_sign :: "crypto \<Rightarrow> handshake_state \<Rightarrow> bytes \<Rightarrow> hs_error + bytes" where
  "handshake_sign c state payload =
     (case hs_signer state of
        None \<Rightarrow> Inr []
      | Some signer \<Rightarrow> (case pki_Sign c signer payload of None \<Rightarrow> Inl ErrSign | Some signature \<Rightarrow> Inr signature))"

definition newHandshakeState ::
  "crypto \<Rightarrow> bytes \<Rightarrow> bytes \<Rightarrow> u8 \<Rightarrow> tls_conf option \<Rightarrow> hs_options \<Rightarrow> u16 \<Rightarrow> hs_error + handshake_state \<times> hello" where
  "newHandshakeState c privateKey randomBytes messageType tlsConf options features =
     (let featureMask = features AND helloFeatureMask;
          (featureMask, randomBytes) =
            (case op_SessionGeneration options of
               None \<Rightarrow> (featureMask AND NOT helloFeatureSessionGeneration, randomBytes)
             | Some generation \<Rightarrow>
                 if featureMask AND helloFeatureSessionGeneration \<noteq> 0
                 then (featureMask, overwrite 0 (take 16 generation) randomBytes) else (featureMask, randomBytes))
      in case localCertificate tlsConf of
           Inl e \<Rightarrow> Inl e
         | Inr (certDER, signer) \<Rightarrow>
             let state = \<lparr>hs_privateKey = privateKey, hs_certDER = certDER, hs_signer = signer\<rparr>;
                 helloMsg = \<lparr>h_messageType = messageType, h_suiteMask = suiteMaskForOptions options OR featureMask,
                   h_random = randomBytes, h_publicKey = cr_public c privateKey, h_certDER = certDER, h_signature = []\<rparr>
             in if messageType = helloTypeClient then
                  (case handshake_sign c state (clientSignaturePayload helloMsg) of
                     Inl e \<Rightarrow> Inl e
                   | Inr signature \<Rightarrow> Inr (state, helloMsg\<lparr>h_signature := signature\<rparr>))
                else Inr (state, helloMsg))"

definition clearUserspaceSendCrypto :: "session \<Rightarrow> session" where
  "clearUserspaceSendCrypto session = session\<lparr>ss_sendIV := [], ss_sendAEAD := None\<rparr>"

definition enableCryptoOffload :: "inner_caps \<Rightarrow> session \<Rightarrow> bytes \<Rightarrow> bytes \<Rightarrow> bytes \<Rightarrow> bytes \<Rightarrow> hs_error + session" where
  "enableCryptoOffload inner session clientKey serverKey clientIV serverIV =
     (if \<not> ss_sendEncrypted session \<or> \<not> ss_recvEncrypted session then Inr session
      else case ic_offload inner of
        None \<Rightarrow> Inr session
      | Some enable \<Rightarrow>
          let (replay, sz) = replayWindow_Size (ss_replay session);
              session = session\<lparr>ss_replay := replay\<rparr>;
              client = (ss_role session = ClientRole);
              spec = \<lparr>os_Suite = cs_Name (ss_cryptoSuite session), os_KeySource = ss_cryptoKeySource session,
                os_Epoch = ss_epoch session, os_ReplayWindow = sz,
                os_SendKey = (if client then clientKey else serverKey), os_SendIV = (if client then clientIV else serverIV),
                os_RecvKey = (if client then serverKey else clientKey), os_RecvIV = (if client then serverIV else clientIV)\<rparr>
          in case enable spec of
               OffloadUnavailable \<Rightarrow> Inr session
             | OffloadFailed \<Rightarrow> Inl ErrOffload
             | OffloadEnabled placement \<Rightarrow>
                 let session = clearUserspaceSendCrypto (session\<lparr>ss_cryptoOffloaded := True\<rparr>)
                 in Inr (session\<lparr>ss_cryptoPlacement := (if placement \<noteq> [] then placement else ''kernel'')\<rparr>))"

text \<open>\<open>newSession\<close>; \<open>None\<close> when the key derivation does not return.\<close>

definition newSession ::
  "crypto \<Rightarrow> inner_caps \<Rightarrow> sess_role \<Rightarrow> bytes \<Rightarrow> bytes \<Rightarrow> bytes \<Rightarrow> bytes \<Rightarrow> bytes \<Rightarrow> bytes \<Rightarrow> hs_options \<Rightarrow> bytes option \<Rightarrow>
   crypto_suite \<Rightarrow> bool \<Rightarrow> bool \<Rightarrow> hello \<Rightarrow> bytes \<Rightarrow> bytes \<Rightarrow> (hs_error + session) option" where
  "newSession c inner role privateKey peerPublicBytes clientRandom serverRandom clientPublic serverPublic options peerCert
     suite batchRecords derivedEpoch peerHello clientHelloRaw serverHelloRaw =
     (if length peerPublicBytes \<noteq> 32 then Some (Inl ErrPeerKey)
      else case cr_ecdh c privateKey peerPublicBytes of
        None \<Rightarrow> Some (Inl ErrECDH)
      | Some secret \<Rightarrow>
          let encryption = requestedEncryptionPolicy options;
              epoch = op_Epoch options;
              epoch = (if epoch = 0 \<and> derivedEpoch
                       then deriveSessionEpoch c clientRandom serverRandom clientPublic serverPublic suite else epoch);
              session = \<lparr>ss_role = role, ss_sendAEAD = None, ss_recvAEAD = None, ss_sendIV = [], ss_recvIV = [],
                ss_epoch = epoch, ss_cryptoOffloaded = False, ss_cryptoSuite = suite, ss_cryptoKeySource = [],
                ss_encryptionMode = ep_Mode encryption, ss_sendEncrypted = ep_SendEncrypted encryption,
                ss_recvEncrypted = ep_ReceiveEncrypted encryption,
                ss_peerGeneration = peerSessionGenerationFromHello peerHello, ss_sendSeq = 0, ss_sendHeader = replicate 24 0,
                ss_recvPending = [], ss_recvPendingIndex = 0, ss_replay = newReplayWindow 65536, ss_batchRecords = batchRecords,
                ss_batchRecordsOut = 0, ss_batchPacketsOut = 0, ss_batchRecordsIn = 0, ss_batchPacketsIn = 0,
                ss_bytesSent = 0, ss_bytesRecv = 0, ss_packetsOut = 0, ss_packetsIn = 0,
                ss_clientHelloRaw = clientHelloRaw, ss_serverHelloRaw = serverHelloRaw,
                ss_cryptoPlacement = [], ss_peerCert = peerCert, ss_tlsHandshakeOnly = False, ss_sent = []\<rparr>;
              session = initDataHeader session
          in if \<not> AnyEncrypted encryption then Some (Inr session)
             else case deriveSessionKeyMaterial c inner secret clientRandom serverRandom clientPublic serverPublic options suite of
               None \<Rightarrow> None
             | Some (Inl e) \<Rightarrow> Some (Inl e)
             | Some (Inr (material, keySource)) \<Rightarrow>
                 let k = cs_KeyLen suite; n = cs_NonceLen suite;
                     clientKey = subslice 0 k material;
                     serverKey = subslice k (k * 2) material;
                     clientIV = subslice (k * 2) (k * 2 + n) material;
                     serverIV = drop (k * 2 + n) material
                 in case newAEAD c suite clientKey of
                      Inl e \<Rightarrow> Some (Inl e)
                    | Inr clientAEAD \<Rightarrow>
                        (case newAEAD c suite serverKey of
                           Inl e \<Rightarrow> Some (Inl e)
                         | Inr serverAEAD \<Rightarrow>
                             let session = session\<lparr>ss_cryptoKeySource := keySource\<rparr>;
                                 sendAEAD = (if role = ClientRole then clientAEAD else serverAEAD);
                                 sendIV = (if role = ClientRole then clientIV else serverIV);
                                 recvAEAD = (if role = ClientRole then serverAEAD else clientAEAD);
                                 recvIV = (if role = ClientRole then serverIV else clientIV);
                                 session = (if ep_SendEncrypted encryption
                                            then session\<lparr>ss_sendAEAD := Some sendAEAD, ss_sendIV := sendIV\<rparr> else session);
                                 session = (if ep_ReceiveEncrypted encryption
                                            then session\<lparr>ss_recvAEAD := Some recvAEAD, ss_recvIV := recvIV\<rparr> else session)
                             in Some (enableCryptoOffload inner session clientKey serverKey clientIV serverIV)))"

section \<open>TLS data-plane handoff\<close>

definition tlsHandoffServerReady :: u8 where "tlsHandoffServerReady = 1"
definition tlsHandoffClientReady :: u8 where "tlsHandoffClientReady = 2"
definition tlsHandoffServerCommit :: u8 where "tlsHandoffServerCommit = 3"
definition tlsHandoffClientRaw :: u8 where "tlsHandoffClientRaw = 4"
definition tlsHandoffServerRaw :: u8 where "tlsHandoffServerRaw = 5"
definition tlsHandoffControlVersion :: u8 where "tlsHandoffControlVersion = 1"

definition tlsHandoffControl :: "crypto \<Rightarrow> session \<Rightarrow> u8 \<Rightarrow> bytes" where
  "tlsHandoffControl c session stage =
     (let transcript = str_bytes ''TrustIX TLS data-plane handoff v1'' @ [0] @ [stage] @
            be32 (word_of_nat (length (ss_clientHelloRaw session))) @ ss_clientHelloRaw session @
            be32 (word_of_nat (length (ss_serverHelloRaw session))) @ ss_serverHelloRaw session;
          digest = cr_sha256 c transcript
      in str_bytes ''TIXT'' @ [tlsHandoffControlVersion, stage] @ digest)"

text \<open>
  A step of the handoff: still waiting for a packet, failed, or done, with the session and what
  is left of the inner session's input (\<open>None\<close> is a receive error).
\<close>

datatype hs_progress = HsWaiting | HsFailed hs_error | HsDone

type_synonym hs_step = "session \<Rightarrow> bytes option list \<Rightarrow> session \<times> bytes option list \<times> hs_progress"

definition hs_then :: "hs_step \<Rightarrow> hs_step \<Rightarrow> hs_step" where
  "hs_then f g session input =
     (case f session input of
        (session, input, HsDone) \<Rightarrow> g session input
      | r \<Rightarrow> r)"

definition sendTLSHandoffControl :: "crypto \<Rightarrow> inner_env \<Rightarrow> u8 \<Rightarrow> hs_step" where
  "sendTLSHandoffControl c env stage session input =
     (case innerSendPacket env (tlsHandoffControl c session stage) session of
        (session, False) \<Rightarrow> (session, input, HsFailed ErrInner)
      | (session, True) \<Rightarrow> (session, input, HsDone))"

fun recvTLSHandoffControl :: "crypto \<Rightarrow> inner_env \<Rightarrow> u8 \<Rightarrow> session \<Rightarrow> bytes option list \<Rightarrow>
    session \<times> bytes option list \<times> hs_progress" where
  "recvTLSHandoffControl c env stage session [] = (session, [], HsWaiting)"
| "recvTLSHandoffControl c env stage session (None # input) = (session, input, HsFailed ErrInner)"
| "recvTLSHandoffControl c env stage session (Some packet # input) =
     (case handleDuplicateHandshake env session packet of
        (session, Inl e) \<Rightarrow> (session, input, HsFailed ErrInner)
      | (session, Inr True) \<Rightarrow> recvTLSHandoffControl c env stage session input
      | (session, Inr False) \<Rightarrow>
          if packet \<noteq> tlsHandoffControl c session stage then (session, input, HsFailed ErrInvalidHandshake)
          else (session, input, HsDone))"

definition sendEncryptedTLSHandoffControl :: "crypto \<Rightarrow> inner_env \<Rightarrow> u8 \<Rightarrow> hs_step" where
  "sendEncryptedTLSHandoffControl c env stage session input =
     (case session_SendPacket env session (tlsHandoffControl c session stage) of
        (session, Some e) \<Rightarrow> (session, input, HsFailed ErrInner)
      | (session, None) \<Rightarrow> (session, input, HsDone))"

definition recvEncryptedTLSHandoffControl :: "crypto \<Rightarrow> inner_env \<Rightarrow> u8 \<Rightarrow> hs_step" where
  "recvEncryptedTLSHandoffControl c env stage session input =
     (case session_RecvPacket env session input of
        (session, input, Waiting) \<Rightarrow> (session, input, HsWaiting)
      | (session, input, Failed e) \<Rightarrow> (session, input, HsFailed ErrInner)
      | (session, input, Received packet) \<Rightarrow>
          if packet \<noteq> tlsHandoffControl c session stage then (session, input, HsFailed ErrInvalidHandshake)
          else (session, input, HsDone))"

definition detachStep :: "bool \<Rightarrow> hs_step" where
  "detachStep detached session input = (session, input, if detached then HsDone else HsFailed ErrInner)"

definition completeClientTLSDataPlaneHandoff :: "crypto \<Rightarrow> inner_env \<Rightarrow> bool \<Rightarrow> hs_step" where
  "completeClientTLSDataPlaneHandoff c env detached =
     hs_then (recvTLSHandoffControl c env tlsHandoffServerReady)
    (hs_then (sendTLSHandoffControl c env tlsHandoffClientReady)
    (hs_then (recvTLSHandoffControl c env tlsHandoffServerCommit)
    (hs_then (detachStep detached)
    (hs_then (sendEncryptedTLSHandoffControl c env tlsHandoffClientRaw)
             (recvEncryptedTLSHandoffControl c env tlsHandoffServerRaw)))))"

definition completeServerTLSDataPlaneHandoff :: "crypto \<Rightarrow> inner_env \<Rightarrow> bool \<Rightarrow> hs_step" where
  "completeServerTLSDataPlaneHandoff c env detached =
     hs_then (sendTLSHandoffControl c env tlsHandoffServerReady)
    (hs_then (recvTLSHandoffControl c env tlsHandoffClientReady)
    (hs_then (sendTLSHandoffControl c env tlsHandoffServerCommit)
    (hs_then (detachStep detached)
    (hs_then (recvEncryptedTLSHandoffControl c env tlsHandoffClientRaw)
             (sendEncryptedTLSHandoffControl c env tlsHandoffServerRaw)))))"

definition resetTLSHandoffAccounting :: "session \<Rightarrow> session" where
  "resetTLSHandoffAccounting session =
     session\<lparr>ss_bytesSent := 0, ss_bytesRecv := 0, ss_packetsOut := 0, ss_packetsIn := 0\<rparr>"

definition completeTLSDataPlaneHandoff :: "crypto \<Rightarrow> inner_env \<Rightarrow> inner_caps \<Rightarrow> bool \<Rightarrow> hs_step" where
  "completeTLSDataPlaneHandoff c env inner detached session input =
     (if \<not> ic_handoffAvailable inner then (session, input, HsFailed ErrTLSHandoff)
      else case (case ss_role session of
                   ClientRole \<Rightarrow> completeClientTLSDataPlaneHandoff c env detached session input
                 | ServerRole \<Rightarrow> completeServerTLSDataPlaneHandoff c env detached session input) of
        (session, input, HsDone) \<Rightarrow>
          (resetTLSHandoffAccounting (session\<lparr>ss_tlsHandshakeOnly := True\<rparr>), input, HsDone)
      | (session, input, HsFailed e) \<Rightarrow> (session, input, HsFailed ErrTLSHandoff)
      | (session, input, HsWaiting) \<Rightarrow> (session, input, HsWaiting))"


section \<open>The two sides\<close>

text \<open>
  What a side of the handshake comes to: an error, a session, or no result yet (waiting for
  input, or a key derivation that does not return).
\<close>

datatype hs_outcome = HsError hs_error | HsPending | HsSession session

definition hs_finish :: "crypto \<Rightarrow> inner_env \<Rightarrow> inner_caps \<Rightarrow> bool \<Rightarrow> bool \<Rightarrow> (hs_error + session) option \<Rightarrow>
    bytes option list \<Rightarrow> hs_outcome" where
  "hs_finish c env inner detached handoff r input =
     (case r of
        None \<Rightarrow> HsPending
      | Some (Inl e) \<Rightarrow> HsError e
      | Some (Inr session) \<Rightarrow>
          if handoff then
            (case completeTLSDataPlaneHandoff c env inner detached session input of
               (session, _, HsDone) \<Rightarrow> HsSession session
             | (session, _, HsFailed e) \<Rightarrow> HsError e
             | (session, _, HsWaiting) \<Rightarrow> HsPending)
          else HsSession session)"

text \<open>The client: its hello, and what it makes of the server's.\<close>

definition Client_hello :: "crypto \<Rightarrow> inner_caps \<Rightarrow> bytes \<Rightarrow> bytes \<Rightarrow> tls_conf option \<Rightarrow> hs_options \<Rightarrow>
    hs_error + handshake_state \<times> hello \<times> bytes" where
  "Client_hello c inner privateKey randomBytes tlsConf options =
     (case newHandshakeState c privateKey randomBytes helloTypeClient tlsConf options (secureHelloFeatures inner options) of
        Inl e \<Rightarrow> Inl e
      | Inr (state, clientHello) \<Rightarrow>
          (case hello_encode clientHello of
             Inl e \<Rightarrow> Inl e
           | Inr encodedHello \<Rightarrow> Inr (state, clientHello, encodedHello)))"

definition Client_finish :: "crypto \<Rightarrow> x509 \<Rightarrow> inner_env \<Rightarrow> inner_caps \<Rightarrow> bool \<Rightarrow> tls_conf option \<Rightarrow> hs_options \<Rightarrow>
    handshake_state \<Rightarrow> hello \<Rightarrow> bytes \<Rightarrow> bytes \<Rightarrow> bytes option list \<Rightarrow> hs_outcome" where
  "Client_finish c x env inner detached tlsConf options state clientHello encodedHello rawServerHello input =
     (case parseHello rawServerHello helloTypeServer of
        Inl e \<Rightarrow> HsError e
      | Inr serverHello \<Rightarrow>
          (case verifyHello c x serverHello verifyClientSide tlsConf options (serverSignaturePayload clientHello serverHello) of
             Inl e \<Rightarrow> HsError e
           | Inr peerCert \<Rightarrow>
               (case negotiateSuite (h_suiteMask clientHello) (h_suiteMask serverHello) of
                  Inl e \<Rightarrow> HsError e
                | Inr suite \<Rightarrow>
                    hs_finish c env inner detached (secureTLSHandshakeOnlyNegotiated clientHello serverHello)
                      (newSession c inner ClientRole (hs_privateKey state) (h_publicKey serverHello)
                         (h_random clientHello) (h_random serverHello) (h_publicKey clientHello) (h_publicKey serverHello)
                         options peerCert suite (secureBatchRecordsNegotiated clientHello serverHello)
                         (secureDerivedEpochNegotiated clientHello serverHello) serverHello encodedHello rawServerHello)
                      input)))"

text \<open>
  \<open>recvServerHello\<close> retries while the receive error is a transient one (\<open>Inl True\<close>); the
  outcome of \<open>Client\<close> comes with the packets sent before the session exists.
\<close>

fun recvServerHello :: "(bool + bytes) list \<Rightarrow> (bool + bytes) option \<times> (bool + bytes) list" where
  "recvServerHello [] = (None, [])"
| "recvServerHello (Inr packet # input) = (Some (Inr packet), input)"
| "recvServerHello (Inl transient # input) = (if transient then recvServerHello input else (Some (Inl transient), input))"

definition inner_input :: "(bool + bytes) list \<Rightarrow> bytes option list" where
  "inner_input = map (\<lambda>r. case r of Inl _ \<Rightarrow> None | Inr packet \<Rightarrow> Some packet)"

definition Client :: "crypto \<Rightarrow> x509 \<Rightarrow> inner_env \<Rightarrow> inner_caps \<Rightarrow> bool \<Rightarrow> bytes \<Rightarrow> bytes \<Rightarrow> tls_conf option \<Rightarrow>
    hs_options \<Rightarrow> (bool + bytes) list \<Rightarrow> bytes list \<times> hs_outcome" where
  "Client c x env inner detached privateKey randomBytes tlsConf options input =
     (case Client_hello c inner privateKey randomBytes tlsConf options of
        Inl e \<Rightarrow> ([], HsError e)
      | Inr (state, clientHello, encodedHello) \<Rightarrow>
          if \<not> ie_send env encodedHello then ([], HsError ErrInner)
          else case recvServerHello input of
            (None, _) \<Rightarrow> ([encodedHello], HsPending)
          | (Some (Inl _), _) \<Rightarrow> ([encodedHello], HsError ErrInner)
          | (Some (Inr rawServerHello), input) \<Rightarrow>
              ([encodedHello], Client_finish c x env inner detached tlsConf options state clientHello encodedHello rawServerHello
                 (inner_input input)))"

definition Server :: "crypto \<Rightarrow> x509 \<Rightarrow> inner_env \<Rightarrow> inner_caps \<Rightarrow> bool \<Rightarrow> bytes \<Rightarrow> bytes \<Rightarrow> tls_conf option \<Rightarrow>
    hs_options \<Rightarrow> bytes option list \<Rightarrow> bytes list \<times> hs_outcome" where
  "Server c x env inner detached privateKey randomBytes tlsConf options input =
     (case input of
        [] \<Rightarrow> ([], HsPending)
      | None # _ \<Rightarrow> ([], HsError ErrInner)
      | Some rawClientHello # input \<Rightarrow>
          (case parseHello rawClientHello helloTypeClient of
             Inl e \<Rightarrow>
               (if e = ErrInvalidHandshake \<and> ie_send env resetPacket then [resetPacket] else [], HsError e)
           | Inr clientHello \<Rightarrow>
               (case verifyHello c x clientHello verifyServerSide tlsConf options (clientSignaturePayload clientHello) of
                  Inl e \<Rightarrow> ([], HsError e)
                | Inr peerCert \<Rightarrow>
                    (case newHandshakeState c privateKey randomBytes helloTypeServer tlsConf options (secureHelloFeatures inner options) of
                       Inl e \<Rightarrow> ([], HsError e)
                     | Inr (state, serverHello) \<Rightarrow>
                         (case negotiateSuite (h_suiteMask clientHello) (h_suiteMask serverHello) of
                            Inl e \<Rightarrow> ([], HsError e)
                          | Inr suite \<Rightarrow>
                              (case handshake_sign c state (serverSignaturePayload clientHello serverHello) of
                                 Inl e \<Rightarrow> ([], HsError e)
                               | Inr signature \<Rightarrow>
                                   let serverHello = serverHello\<lparr>h_signature := signature\<rparr> in
                                   (case hello_encode serverHello of
                                      Inl e \<Rightarrow> ([], HsError e)
                                    | Inr encodedHello \<Rightarrow>
                                        if \<not> ie_send env encodedHello then ([], HsError ErrInner)
                                        else
                                          ([encodedHello],
                                           hs_finish c env inner detached (secureTLSHandshakeOnlyNegotiated clientHello serverHello)
                                             (newSession c inner ServerRole (hs_privateKey state) (h_publicKey clientHello)
                                                (h_random clientHello) (h_random serverHello) (h_publicKey clientHello)
                                                (h_publicKey serverHello) options peerCert suite
                                                (secureBatchRecordsNegotiated clientHello serverHello)
                                                (secureDerivedEpochNegotiated clientHello serverHello) clientHello
                                                rawClientHello encodedHello)
                                             input))))))))"


section \<open>Key expansion\<close>

text \<open>The blocks of RFC 5869: \<open>T(0)\<close> is empty and \<open>T(i)\<close> is the MAC of \<open>T(i-1)\<close>, the info and \<open>i\<close>.\<close>

primrec hkdf_block :: "(bytes \<Rightarrow> bytes \<Rightarrow> bytes) \<Rightarrow> bytes \<Rightarrow> bytes \<Rightarrow> nat \<Rightarrow> bytes" where
  "hkdf_block hmac prk info 0 = []"
| "hkdf_block hmac prk info (Suc i) = hmac prk (hkdf_block hmac prk info i @ info @ [word_of_nat (Suc i)])"

definition hkdf_blocks :: "(bytes \<Rightarrow> bytes \<Rightarrow> bytes) \<Rightarrow> bytes \<Rightarrow> bytes \<Rightarrow> nat \<Rightarrow> bytes" where
  "hkdf_blocks hmac prk info n = concat (map (hkdf_block hmac prk info) [1..<Suc n])"

lemma hkdf_blocks_Suc: "hkdf_blocks hmac prk info (Suc n) = hkdf_blocks hmac prk info n @ hkdf_block hmac prk info (Suc n)"
  by (simp add: hkdf_blocks_def)

lemma length_hkdf_blocks:
  assumes "\<And>k m. length (hmac k m) = 32"
  shows "length (hkdf_blocks hmac prk info n) = 32 * n"
  by (induction n) (simp_all add: hkdf_blocks_Suc assms, simp add: hkdf_blocks_def)

lemma blocks_cover: "(n :: nat) \<le> 32 * ((n + 31) div 32)"
  by presburger

lemma hkdfLoop_eq:
  assumes "\<And>k m. length (hmac k m) = 32" and "i \<le> (len + 31) div 32"
  shows "hkdfLoop hmac prk info len (word_of_nat (Suc i)) (hkdf_block hmac prk info i) (hkdf_blocks hmac prk info i) =
    Some (take len (hkdf_blocks hmac prk info ((len + 31) div 32)))"
  using assms(2)
proof (induction "(len + 31) div 32 - i" arbitrary: i)
  case 0
  then have i: "i = (len + 31) div 32" by simp
  have "\<not> 32 * i < len" unfolding i using blocks_cover [of len] by simp
  then show ?case unfolding i by (subst hkdfLoop.simps) (simp add: length_hkdf_blocks [OF assms(1)])
next
  case (Suc k)
  then have less: "32 * i < len" by simp
  have "hkdfLoop hmac prk info len (word_of_nat (Suc (Suc i))) (hkdf_block hmac prk info (Suc i)) (hkdf_blocks hmac prk info (Suc i)) =
      Some (take len (hkdf_blocks hmac prk info ((len + 31) div 32)))"
    by (rule Suc.hyps(1)) (use Suc.hyps(2) in simp_all)
  with less show ?case
    by (subst hkdfLoop.simps) (simp add: length_hkdf_blocks [OF assms(1)] Let_def hkdf_blocks_Suc add.commute)
qed

lemma hkdfExpand_eq:
  assumes "\<And>k m. length (cr_hmac c k m) = 32"
  shows "hkdfExpand c prk info len = Some (take len (hkdf_blocks (cr_hmac c) prk info ((len + 31) div 32)))"
  using hkdfLoop_eq [of "cr_hmac c" 0 len prk info] assms by (simp add: hkdfExpand_def hkdf_blocks_def)

text \<open>
  C20: key expansion.  With a 32-byte MAC the expansion loop ends for every requested length and
  returns the first bytes of the block sequence of RFC 5869; the counter byte is the block
  number modulo 256, which is the RFC's for the 255 blocks it allows.
\<close>
theorem hkdfExpand_returns_rfc5869:
  assumes "\<And>k m. length (cr_hmac c k m) = 32"
  shows "hkdfExpand c prk info len = Some (take len (hkdf_blocks (cr_hmac c) prk info ((len + 31) div 32)))"
  by (rule hkdfExpand_eq [OF assms])

section \<open>Agreement of the two sides\<close>

lemma feature_bits:
  assumes "f \<in> {helloFeatureDerivedEpoch, helloFeatureSessionGeneration, helloFeatureTLSHandshakeOnly, helloFeatureBatchRecords}"
  shows "normalizedSuiteMask m AND f = m AND f" "helloSuiteMask AND f = 0" "helloFeatureMask AND f = f"
proof -
  have f: "helloSuiteMask AND f = 0" "helloFeatureMask AND f = f" "(1 :: u16) AND f = 0"
    using assms by (auto simp: helloSuiteMask_def helloFeatureMask_def helloFeatureDerivedEpoch_def
        helloFeatureSessionGeneration_def helloFeatureTLSHandshakeOnly_def helloFeatureBatchRecords_def)
  then show "helloSuiteMask AND f = 0" "helloFeatureMask AND f = f" by simp_all
  have "(m AND helloFeatureMask) AND f = m AND f" "(m AND helloSuiteMask) AND f = 0"
    using f by (simp_all add: and.assoc)
  then show "normalizedSuiteMask m AND f = m AND f"
    using f(3) by (simp add: normalizedSuiteMask_def Let_def bit.conj_disj_distrib2)
qed

lemma normalizedSuiteMask_parts:
  "normalizedSuiteMask m AND helloFeatureMask = m AND helloFeatureMask"
  "normalizedSuiteMask m AND helloSuiteMask = (if m AND helloSuiteMask = 0 then 1 else m AND helloSuiteMask)"
proof -
  have m: "helloSuiteMask AND helloFeatureMask = 0" "helloFeatureMask AND helloSuiteMask = 0" "(1 :: u16) AND helloFeatureMask = 0"
      "(1 :: u16) AND helloSuiteMask = 1"
    by (simp_all add: helloSuiteMask_def helloFeatureMask_def helloFeatureDerivedEpoch_def
        helloFeatureSessionGeneration_def helloFeatureTLSHandshakeOnly_def helloFeatureBatchRecords_def)
  show "normalizedSuiteMask m AND helloFeatureMask = m AND helloFeatureMask"
    "normalizedSuiteMask m AND helloSuiteMask = (if m AND helloSuiteMask = 0 then 1 else m AND helloSuiteMask)"
    using m by (simp_all add: normalizedSuiteMask_def Let_def bit.conj_disj_distrib2 and.assoc)
qed

lemma normalizedSuiteMask_idem: "normalizedSuiteMask (normalizedSuiteMask m) = normalizedSuiteMask m"
proof -
  have eq: "normalizedSuiteMask x = (if x AND helloSuiteMask = 0 then 1 else x AND helloSuiteMask) OR (x AND helloFeatureMask)" for x
    by (simp add: normalizedSuiteMask_def Let_def)
  note eq [of "normalizedSuiteMask m"]
  also have "(if normalizedSuiteMask m AND helloSuiteMask = 0 then 1 else normalizedSuiteMask m AND helloSuiteMask) OR
      (normalizedSuiteMask m AND helloFeatureMask) = normalizedSuiteMask m"
    unfolding normalizedSuiteMask_parts by (simp add: normalizedSuiteMask_def Let_def)
  finally show ?thesis .
qed

lemma negotiateSuite_normalized:
  "negotiateSuite (normalizedSuiteMask m) n = negotiateSuite m n" "negotiateSuite m (normalizedSuiteMask n) = negotiateSuite m n"
  by (simp_all add: negotiateSuite_def normalizedSuiteMask_idem)

lemma negotiateSuite_supported:
  assumes "negotiateSuite m n = Inr suite"
  shows "cs_NonceLen suite = 12"
proof -
  have "preferSuite i names = Some suite \<Longrightarrow> suite \<in> set supportedSuites" for i names
    by (induction names) (auto simp: suiteByName_def find_Some_iff split: option.splits if_splits)
  then have "suite \<in> set supportedSuites"
    using assms by (auto simp: negotiateSuite_def Let_def split: if_splits option.splits)
  then show ?thesis by (auto simp: supportedSuites_def suite_aes256_def suite_aes128_def suite_chacha_def)
qed

lemma initDataHeader_fields [simp]:
  "ss_epoch (initDataHeader s) = ss_epoch s" "ss_cryptoSuite (initDataHeader s) = ss_cryptoSuite s"
  "take 16 (ss_sendHeader (initDataHeader (s\<lparr>ss_sendHeader := replicate 24 0\<rparr>))) =
     take 16 (data_header (ss_epoch s) (cs_ID (ss_cryptoSuite s)) 0 0)"
  by (simp_all add: initDataHeader_def data_header_def Let_def wire_simps drop_Cons')

text \<open>What a new session that encrypts both ways in user space looks like.\<close>

definition fresh_session :: "session \<Rightarrow> bool" where
  "fresh_session s \<longleftrightarrow> ss_sendSeq s = 0 \<and> ss_sent s = [] \<and> ss_replay s = newReplayWindow 65536 \<and> no_pending s \<and>
     \<not> ss_cryptoOffloaded s \<and> ss_sendEncrypted s \<and> ss_recvEncrypted s \<and> length (ss_sendHeader s) = 24 \<and>
     take 16 (ss_sendHeader s) = take 16 (data_header (ss_epoch s) (cs_ID (ss_cryptoSuite s)) 0 0)"

lemma enableCryptoOffload_none: "ic_offload inner = None \<Longrightarrow> enableCryptoOffload inner s ck sk ci si = Inr s"
  by (simp add: enableCryptoOffload_def)

lemma newSession_keys:
  assumes new: "newSession c inner role priv peerPub cr sr cp sp opts cert suite br de ph chr shr = Some (Inr s)"
    and enc: "FullyEncrypted (requestedEncryptionPolicy opts)" and off: "ic_offload inner = None"
  defines "k \<equiv> cs_KeyLen suite" and "n \<equiv> cs_NonceLen suite"
  shows "\<exists>secret m ks ca sa. cr_ecdh c priv peerPub = Some secret \<and>
    deriveSessionKeyMaterial c inner secret cr sr cp sp opts suite = Some (Inr (m, ks)) \<and>
    newAEAD c suite (subslice 0 k m) = Inr ca \<and> newAEAD c suite (subslice k (k * 2) m) = Inr sa \<and>
    ss_sendAEAD s = Some (if role = ClientRole then ca else sa) \<and> ss_recvAEAD s = Some (if role = ClientRole then sa else ca) \<and>
    ss_sendIV s = (if role = ClientRole then subslice (k * 2) (k * 2 + n) m else drop (k * 2 + n) m) \<and>
    ss_recvIV s = (if role = ClientRole then drop (k * 2 + n) m else subslice (k * 2) (k * 2 + n) m)"
    and "ss_epoch s = (if op_Epoch opts = 0 \<and> de then deriveSessionEpoch c cr sr cp sp suite else op_Epoch opts)"
    and "ss_cryptoSuite s = suite" and "ss_batchRecords s = br" and "fresh_session s"
proof -
  have e: "ep_SendEncrypted (requestedEncryptionPolicy opts)" "ep_ReceiveEncrypted (requestedEncryptionPolicy opts)"
      "AnyEncrypted (requestedEncryptionPolicy opts)"
    using enc by (simp_all add: FullyEncrypted_def AnyEncrypted_def)
  obtain secret where sec: "length peerPub = 32" "cr_ecdh c priv peerPub = Some secret"
    using new by (cases "cr_ecdh c priv peerPub") (auto simp: newSession_def Let_def split: if_splits)
  obtain m ks where m: "deriveSessionKeyMaterial c inner secret cr sr cp sp opts suite = Some (Inr (m, ks))"
    using new sec e by (auto simp: newSession_def Let_def split: option.splits sum.splits)
  obtain ca sa where a: "newAEAD c suite (subslice 0 k m) = Inr ca" "newAEAD c suite (subslice k (k * 2) m) = Inr sa"
    using new sec e m by (auto simp: newSession_def Let_def k_def split: sum.splits)
  note unf = newSession_def Let_def enableCryptoOffload_none [OF off] sec e m a [unfolded k_def]
  have keys: "ss_sendAEAD s = Some (if role = ClientRole then ca else sa)" "ss_recvAEAD s = Some (if role = ClientRole then sa else ca)"
    "ss_sendIV s = (if role = ClientRole then subslice (k * 2) (k * 2 + n) m else drop (k * 2 + n) m)"
    "ss_recvIV s = (if role = ClientRole then drop (k * 2 + n) m else subslice (k * 2) (k * 2 + n) m)"
    using new by (auto simp: unf k_def n_def)
  then show "\<exists>secret m ks ca sa. cr_ecdh c priv peerPub = Some secret \<and>
    deriveSessionKeyMaterial c inner secret cr sr cp sp opts suite = Some (Inr (m, ks)) \<and>
    newAEAD c suite (subslice 0 k m) = Inr ca \<and> newAEAD c suite (subslice k (k * 2) m) = Inr sa \<and>
    ss_sendAEAD s = Some (if role = ClientRole then ca else sa) \<and> ss_recvAEAD s = Some (if role = ClientRole then sa else ca) \<and>
    ss_sendIV s = (if role = ClientRole then subslice (k * 2) (k * 2 + n) m else drop (k * 2 + n) m) \<and>
    ss_recvIV s = (if role = ClientRole then drop (k * 2 + n) m else subslice (k * 2) (k * 2 + n) m)"
    using sec m a by blast
  show "ss_epoch s = (if op_Epoch opts = 0 \<and> de then deriveSessionEpoch c cr sr cp sp suite else op_Epoch opts)"
    "ss_cryptoSuite s = suite" "ss_batchRecords s = br"
    using new by (auto simp: unf initDataHeader_def)
  show "fresh_session s"
    using new
    by (simp add: unf) (auto simp: fresh_session_def initDataHeader_def no_pending_def data_header_def Let_def wire_simps drop_Cons')
qed

text \<open>
  What the handshake relies on of the primitives: HMAC-SHA256 returns 32 bytes, X25519 public
  keys are 32 bytes and the shared secret is the same on both sides, the AEADs invert.
\<close>

definition crypto_laws :: "crypto \<Rightarrow> bool" where
  "crypto_laws c \<longleftrightarrow> (\<forall>k m. length (cr_hmac c k m) = 32) \<and> (\<forall>k. length (cr_public c k) = 32) \<and>
     (\<forall>a b. cr_ecdh c a (cr_public c b) = cr_ecdh c b (cr_public c a)) \<and>
     (\<forall>k a. cr_aesgcm c k = Some a \<or> cr_chacha c k = Some a \<longrightarrow> aead_correct a)"

lemma deriveSessionKeyMaterial_cong:
  "requestedKeySource o1 = requestedKeySource o2 \<Longrightarrow> ic_exporter i1 = ic_exporter i2 \<Longrightarrow>
   deriveSessionKeyMaterial c i1 secret cr sr cp sp o1 suite = deriveSessionKeyMaterial c i2 secret cr sr cp sp o2 suite"
  by (simp add: deriveSessionKeyMaterial_def deriveTLSExporterKeyMaterial_def)

lemma deriveSessionKeyMaterial_length:
  assumes "crypto_laws c" and "deriveSessionKeyMaterial c i secret cr sr cp sp o1 suite = Some (Inr (m, ks))"
  shows "length m = cs_KeyLen suite * 2 + cs_NonceLen suite * 2"
proof -
  let ?n = "cs_KeyLen suite * 2 + cs_NonceLen suite * 2"
  have h: "length (cr_hmac c k x) = 32" for k x using assms(1) by (simp add: crypto_laws_def)
  have "length m' = ?n" if "deriveKeyMaterial c secret cr sr ?n suite = Some m'" for m'
  proof -
    have "?n \<le> 32 * ((?n + 31) div 32)" by (rule blocks_cover)
    then show ?thesis
      using that by (auto simp: deriveKeyMaterial_def Let_def hkdfExpand_eq [OF h] length_hkdf_blocks [of "cr_hmac c", OF h])
  qed
  moreover have "length m' = ?n" if "deriveTLSExporterKeyMaterial c i cr sr cp sp ?n suite = Inr m'" for m'
    using that by (auto simp: deriveTLSExporterKeyMaterial_def split: option.splits if_splits)
  ultimately show ?thesis
    using assms(2) by (auto simp: deriveSessionKeyMaterial_def Let_def split: if_splits sum.splits)
qed

lemma newAEAD_correct: "crypto_laws c \<Longrightarrow> newAEAD c suite key = Inr a \<Longrightarrow> aead_correct a"
  by (auto simp: newAEAD_def crypto_laws_def split: if_splits option.splits)

lemma sessions_paired:
  assumes laws: "crypto_laws c"
    and sC: "newSession c iC ClientRole kC (cr_public c kS) cr sr cp sp oC certC suite br de phC chr shr = Some (Inr sC)"
    and sS: "newSession c iS ServerRole kS (cr_public c kC) cr sr cp sp oS certS suite br de phS chr shr = Some (Inr sS)"
    and enc: "FullyEncrypted (requestedEncryptionPolicy oC)" "FullyEncrypted (requestedEncryptionPolicy oS)"
    and off: "ic_offload iC = None" "ic_offload iS = None"
    and same: "requestedKeySource oC = requestedKeySource oS" "ic_exporter iC = ic_exporter iS" "op_Epoch oC = op_Epoch oS"
    and nonce: "cs_NonceLen suite = 12"
  shows "(\<exists>a. paired a sC sS) \<and> (\<exists>b. paired b sS sC) \<and> fresh_session sC \<and> fresh_session sS"
proof -
  note C = newSession_keys [OF sC enc(1) off(1)] and S = newSession_keys [OF sS enc(2) off(2)]
  let ?k = "cs_KeyLen suite" and ?n = "cs_NonceLen suite"
  have dh: "cr_ecdh c kC (cr_public c kS) = cr_ecdh c kS (cr_public c kC)" using laws by (simp add: crypto_laws_def)
  obtain secret m ks ca sa where k: "cr_ecdh c kC (cr_public c kS) = Some secret"
      "deriveSessionKeyMaterial c iC secret cr sr cp sp oC suite = Some (Inr (m, ks))"
      "newAEAD c suite (subslice 0 ?k m) = Inr ca" "newAEAD c suite (subslice ?k (?k * 2) m) = Inr sa"
      "ss_sendAEAD sC = Some ca" "ss_recvAEAD sC = Some sa"
      "ss_sendIV sC = subslice (?k * 2) (?k * 2 + ?n) m" "ss_recvIV sC = drop (?k * 2 + ?n) m"
    using C(1) by auto
  have k': "ss_sendAEAD sS = Some sa" "ss_recvAEAD sS = Some ca"
      "ss_sendIV sS = drop (?k * 2 + ?n) m" "ss_recvIV sS = subslice (?k * 2) (?k * 2 + ?n) m"
    using S(1) k(1-4) dh deriveSessionKeyMaterial_cong [OF same(1,2), of c secret cr sr cp sp suite] by auto
  have ac: "aead_correct ca" "aead_correct sa" using newAEAD_correct [OF laws] k(3,4) by blast+
  have len: "length (ss_sendIV sC) = 12" "length (ss_sendIV sS) = 12"
    using deriveSessionKeyMaterial_length [OF laws k(2)] nonce k(7) k'(3) by simp_all
  have "paired ca sC sS" "paired sa sS sC"
    using k(5-8) k' ac len C(2-5) S(2-5) same(3)
    by (simp_all add: paired_def sealing_def fresh_session_def)
  then show ?thesis using C(5) S(5) by blast
qed

lemma suiteMaskForOptions_features:
  assumes "f \<in> {helloFeatureDerivedEpoch, helloFeatureSessionGeneration, helloFeatureTLSHandshakeOnly, helloFeatureBatchRecords}"
  shows "suiteMaskForOptions options AND f = 0"
proof -
  obtain names where n: "suiteMaskForOptions options = mask_of_names names"
    by (cases "op_CryptoSuites options") (auto simp: suiteMaskForOptions_def suiteMaskForSuites_eq)
  have "mask_of_names names AND f = mask_of_names names AND (helloSuiteMask AND f)"
    using mask_of_names_suites [of names] by (metis and.assoc)
  then show ?thesis using feature_bits(2) [OF assms] n by simp
qed

lemma and_and_zero:
  assumes "a AND t = (0 :: u16)"
  shows "a AND b AND t = 0" "(a AND b) AND t = 0"
proof -
  have "a AND b AND t = b AND (a AND t)" "(a AND b) AND t = b AND (a AND t)" by (simp_all add: ac_simps)
  then show "a AND b AND t = 0" "(a AND b) AND t = 0" by (simp_all add: assms)
qed

text \<open>A hello made by an endpoint: well formed, and without the feature of a transport that cannot hand off.\<close>

lemma newHandshakeState_hello:
  assumes laws: "crypto_laws c" and rnd: "length rnd = 32"
    and st: "newHandshakeState c priv rnd t tlsConf options (secureHelloFeatures inner options) = Inr (state, h)"
  shows "hello_fields h" "h_messageType h = t" "h_publicKey h = cr_public c priv" "hs_privateKey state = priv"
    "\<not> ic_handoffAvailable inner \<Longrightarrow> h_suiteMask h AND helloFeatureTLSHandshakeOnly = 0"
    "normalizedSuiteMask (h_suiteMask h) AND helloSuiteMask = normalizedSuiteMask (suiteMaskForOptions options) AND helloSuiteMask"
proof -
  let ?f = "secureHelloFeatures inner options AND helloFeatureMask"
  obtain fm rb where p: "(case op_SessionGeneration options of
      None \<Rightarrow> (?f AND NOT helloFeatureSessionGeneration, rnd)
    | Some g \<Rightarrow> if ?f AND helloFeatureSessionGeneration \<noteq> 0 then (?f, overwrite 0 (take 16 g) rnd) else (?f, rnd)) = (fm, rb)"
    by fastforce
  have fr: "fm = ?f \<or> fm = ?f AND NOT helloFeatureSessionGeneration" "rb = rnd \<or> (\<exists>g. rb = overwrite 0 (take 16 g) rnd)"
    using p by (auto split: option.splits if_splits)
  have h: "h_suiteMask h = suiteMaskForOptions options OR fm" "h_random h = rb" "h_messageType h = t"
      "h_publicKey h = cr_public c priv" "hs_privateKey state = priv"
    using st unfolding newHandshakeState_def Let_def p by (auto split: sum.splits if_splits)
  show "h_messageType h = t" "h_publicKey h = cr_public c priv" "hs_privateKey state = priv" by (rule h)+
  have "(x AND helloFeatureMask) AND helloSuiteMask = 0" "((x AND helloFeatureMask) AND y) AND helloSuiteMask = 0" for x y
    by (simp_all add: and.assoc and.left_commute [of _ y])
  then have "fm AND helloSuiteMask = 0" using fr(1) by (auto simp: and.assoc)
  then have "h_suiteMask h AND helloSuiteMask = suiteMaskForOptions options AND helloSuiteMask"
    using h(1) by (simp add: bit.conj_disj_distrib2)
  then show "normalizedSuiteMask (h_suiteMask h) AND helloSuiteMask = normalizedSuiteMask (suiteMaskForOptions options) AND helloSuiteMask"
    unfolding normalizedSuiteMask_parts by simp
  have "length rb = 32" using fr(2) rnd by auto
  then show "hello_fields h" using h laws by (simp add: hello_fields_def crypto_laws_def)
  assume no: "\<not> ic_handoffAvailable inner"
  have z: "x AND helloFeatureTLSHandshakeOnly = 0" if "x \<in> {helloFeatureDerivedEpoch, helloFeatureSessionGeneration, helloFeatureBatchRecords, 0}" for x
    using that by (auto simp: helloFeatureDerivedEpoch_def helloFeatureSessionGeneration_def helloFeatureBatchRecords_def helloFeatureTLSHandshakeOnly_def)
  have "secureHelloFeatures inner options AND helloFeatureTLSHandshakeOnly = 0"
    using no z by (simp add: secureHelloFeatures_def bit.conj_disj_distrib2 secureDerivedEpochFeature_def
        secureSessionGenerationFeature_def secureBatchRecordFeature_def secureTLSHandshakeOnlyFeature_def)
  moreover obtain y where "fm = secureHelloFeatures inner options AND y"
    using fr(1) by (metis and.assoc)
  ultimately have "fm AND helloFeatureTLSHandshakeOnly = 0"
    by (simp add: and_and_zero)
  then show "h_suiteMask h AND helloFeatureTLSHandshakeOnly = 0"
    using suiteMaskForOptions_features [of helloFeatureTLSHandshakeOnly options] h(1) by (simp add: bit.conj_disj_distrib2)
qed

text \<open>The two sides of an undisturbed run, each reduced to the session it creates.\<close>

lemma Client_run:
  assumes laws: "crypto_laws c" and rnd: "length rnd = 32" and no: "\<not> ic_handoffAvailable inner"
    and run: "Client c x env inner det priv rnd tlsConf options (Inr sh # input) = ([ch], HsSession s)"
  shows "\<exists>cH sH cert suite. hello_fields cH \<and> h_messageType cH = helloTypeClient \<and> h_publicKey cH = cr_public c priv \<and>
    hello_encode cH = Inr ch \<and> h_suiteMask cH AND helloFeatureTLSHandshakeOnly = 0 \<and>
    parseHello sh helloTypeServer = Inr sH \<and> negotiateSuite (h_suiteMask cH) (h_suiteMask sH) = Inr suite \<and>
    newSession c inner ClientRole priv (h_publicKey sH) (h_random cH) (h_random sH) (h_publicKey cH) (h_publicKey sH) options cert suite
      (secureBatchRecordsNegotiated cH sH) (secureDerivedEpochNegotiated cH sH) sH ch sh = Some (Inr s)"
proof -
  obtain state cH where st: "newHandshakeState c priv rnd helloTypeClient tlsConf options (secureHelloFeatures inner options) = Inr (state, cH)"
      "hello_encode cH = Inr ch"
    and fin: "Client_finish c x env inner det tlsConf options state cH ch sh (inner_input input) = HsSession s"
    using run by (auto simp: Client_def Client_hello_def split: sum.splits if_splits)
  note h = newHandshakeState_hello [OF laws rnd st(1)]
  obtain sH cert suite where r: "parseHello sh helloTypeServer = Inr sH" "negotiateSuite (h_suiteMask cH) (h_suiteMask sH) = Inr suite"
    and f: "hs_finish c env inner det (secureTLSHandshakeOnlyNegotiated cH sH)
      (newSession c inner ClientRole (hs_privateKey state) (h_publicKey sH) (h_random cH) (h_random sH) (h_publicKey cH) (h_publicKey sH)
        options cert suite (secureBatchRecordsNegotiated cH sH) (secureDerivedEpochNegotiated cH sH) sH ch sh) (inner_input input) = HsSession s"
    using fin by (auto simp: Client_finish_def split: sum.splits)
  have "\<not> secureTLSHandshakeOnlyNegotiated cH sH"
    using h(5) [OF no] by (simp add: secureTLSHandshakeOnlyNegotiated_def and_and_zero)
  with f have "newSession c inner ClientRole priv (h_publicKey sH) (h_random cH) (h_random sH) (h_publicKey cH) (h_publicKey sH)
      options cert suite (secureBatchRecordsNegotiated cH sH) (secureDerivedEpochNegotiated cH sH) sH ch sh = Some (Inr s)"
    using h(4) by (auto simp: hs_finish_def split: option.splits sum.splits)
  with r st(2) h(1-3) h(5) [OF no] show ?thesis by blast
qed

lemma Server_run:
  assumes laws: "crypto_laws c" and rnd: "length rnd = 32"
    and run: "Server c x env inner det priv rnd tlsConf options (Some ch # input) = ([sh], HsSession s)"
  shows "\<exists>cH sH cert suite. hello_fields sH \<and> h_messageType sH = helloTypeServer \<and> h_publicKey sH = cr_public c priv \<and>
    hello_encode sH = Inr sh \<and> parseHello ch helloTypeClient = Inr cH \<and> negotiateSuite (h_suiteMask cH) (h_suiteMask sH) = Inr suite \<and>
    (secureTLSHandshakeOnlyNegotiated cH sH \<or>
     newSession c inner ServerRole priv (h_publicKey cH) (h_random cH) (h_random sH) (h_publicKey cH) (h_publicKey sH) options cert suite
      (secureBatchRecordsNegotiated cH sH) (secureDerivedEpochNegotiated cH sH) cH ch sh = Some (Inr s))"
proof -
  obtain cH cert where p: "parseHello ch helloTypeClient = Inr cH"
      "verifyHello c x cH verifyServerSide tlsConf options (clientSignaturePayload cH) = Inr cert"
    using run by (auto simp: Server_def split: sum.splits)
  obtain state sH0 suite sg where st: "newHandshakeState c priv rnd helloTypeServer tlsConf options (secureHelloFeatures inner options) = Inr (state, sH0)"
      "negotiateSuite (h_suiteMask cH) (h_suiteMask sH0) = Inr suite" "handshake_sign c state (serverSignaturePayload cH sH0) = Inr sg"
    using run p by (auto simp: Server_def split: sum.splits)
  define sH where "sH = sH0\<lparr>h_signature := sg\<rparr>"
  have sH: "h_suiteMask sH = h_suiteMask sH0" "h_random sH = h_random sH0" "h_publicKey sH = h_publicKey sH0" "h_messageType sH = h_messageType sH0"
    by (simp_all add: sH_def)
  note h = newHandshakeState_hello [OF laws rnd st(1)]
  have e: "hello_encode sH = Inr sh" and f: "hs_finish c env inner det (secureTLSHandshakeOnlyNegotiated cH sH)
      (newSession c inner ServerRole priv (h_publicKey cH) (h_random cH) (h_random sH) (h_publicKey cH) (h_publicKey sH)
        options cert suite (secureBatchRecordsNegotiated cH sH) (secureDerivedEpochNegotiated cH sH) cH ch sh) input = HsSession s"
    using run p st h(4) by (auto simp: Server_def Let_def sH_def [symmetric] split: sum.splits if_splits)
  then have "secureTLSHandshakeOnlyNegotiated cH sH \<or> newSession c inner ServerRole priv (h_publicKey cH) (h_random cH) (h_random sH)
        (h_publicKey cH) (h_publicKey sH) options cert suite (secureBatchRecordsNegotiated cH sH) (secureDerivedEpochNegotiated cH sH) cH ch sh
      = Some (Inr s)"
    by (auto simp: hs_finish_def split: option.splits sum.splits if_splits)
  with p(1) e st(2) h(1-3) sH show ?thesis by (intro exI [of _ cH] exI [of _ sH] exI [of _ cert] exI [of _ suite]) (simp add: hello_fields_def)
qed

lemma feature_negotiated:
  assumes "f \<in> {helloFeatureDerivedEpoch, helloFeatureSessionGeneration, helloFeatureTLSHandshakeOnly, helloFeatureBatchRecords}"
  shows "normalizedSuiteMask m AND n AND f = m AND n AND f" "m AND normalizedSuiteMask n AND f = m AND n AND f"
proof -
  have "x AND n AND f = (x AND f) AND n" for x by (simp add: ac_simps)
  then show "normalizedSuiteMask m AND n AND f = m AND n AND f" by (simp only: feature_bits(1) [OF assms])
  show "m AND normalizedSuiteMask n AND f = m AND n AND f" by (simp only: feature_bits(1) [OF assms])
qed

lemma parsed_hello:
  assumes "hello_encode h = Inr raw" and "hello_fields h" and "h_messageType h \<noteq> helloTypeReset" and "parseHello raw (h_messageType h) = Inr h'"
  shows "h' = h\<lparr>h_suiteMask := normalizedSuiteMask (h_suiteMask h)\<rparr>"
  using parseHello_encoded [OF assms(1-3)] assms(4) by (simp split: if_splits)

text \<open>
  A run in which each side gets exactly what the other sent, with policies that match: both
  encrypt both ways in user space, use the same key source, exporter and configured epoch, and
  the transport does not hand its TLS layer over.
\<close>

definition matching_policy :: "inner_caps \<Rightarrow> hs_options \<Rightarrow> inner_caps \<Rightarrow> hs_options \<Rightarrow> bool" where
  "matching_policy iC oC iS oS \<longleftrightarrow> FullyEncrypted (requestedEncryptionPolicy oC) \<and> FullyEncrypted (requestedEncryptionPolicy oS) \<and>
     ic_offload iC = None \<and> ic_offload iS = None \<and> requestedKeySource oC = requestedKeySource oS \<and>
     ic_exporter iC = ic_exporter iS \<and> op_Epoch oC = op_Epoch oS \<and> \<not> ic_handoffAvailable iC"

lemma handshake_sessions:
  assumes laws: "crypto_laws c" and rnd: "length rC = 32" "length rS = 32" and pol: "matching_policy iC oC iS oS"
    and client: "Client c xC eC iC dC kC rC tC oC (Inr sh # inC) = ([ch], HsSession sC)"
    and server: "Server c xS eS iS dS kS rS tS oS (Some ch # inS) = ([sh], HsSession sS)"
  shows "(\<exists>a. paired a sC sS) \<and> (\<exists>b. paired b sS sC) \<and> fresh_session sC \<and> fresh_session sS"
proof -
  have no: "\<not> ic_handoffAvailable iC" using pol by (simp add: matching_policy_def)
  obtain cH sH certC suite where C: "hello_fields cH" "h_messageType cH = helloTypeClient" "h_publicKey cH = cr_public c kC"
      "hello_encode cH = Inr ch" "h_suiteMask cH AND helloFeatureTLSHandshakeOnly = 0"
      "parseHello sh helloTypeServer = Inr sH" "negotiateSuite (h_suiteMask cH) (h_suiteMask sH) = Inr suite"
      "newSession c iC ClientRole kC (h_publicKey sH) (h_random cH) (h_random sH) (h_publicKey cH) (h_publicKey sH) oC certC suite
        (secureBatchRecordsNegotiated cH sH) (secureDerivedEpochNegotiated cH sH) sH ch sh = Some (Inr sC)"
    using Client_run [OF laws rnd(1) no client] by blast
  obtain cH' sH' certS suite' where S: "hello_fields sH'" "h_messageType sH' = helloTypeServer" "h_publicKey sH' = cr_public c kS"
      "hello_encode sH' = Inr sh" "parseHello ch helloTypeClient = Inr cH'" "negotiateSuite (h_suiteMask cH') (h_suiteMask sH') = Inr suite'"
      "secureTLSHandshakeOnlyNegotiated cH' sH' \<or>
       newSession c iS ServerRole kS (h_publicKey cH') (h_random cH') (h_random sH') (h_publicKey cH') (h_publicKey sH') oS certS suite'
        (secureBatchRecordsNegotiated cH' sH') (secureDerivedEpochNegotiated cH' sH') cH' ch sh = Some (Inr sS)"
    using Server_run [OF laws rnd(2) server] by blast
  have types: "helloTypeClient \<noteq> helloTypeReset" "helloTypeServer \<noteq> helloTypeReset"
    by (simp_all add: helloTypeClient_def helloTypeServer_def helloTypeReset_def)
  have eq: "cH' = cH\<lparr>h_suiteMask := normalizedSuiteMask (h_suiteMask cH)\<rparr>" "sH = sH'\<lparr>h_suiteMask := normalizedSuiteMask (h_suiteMask sH')\<rparr>"
    using parsed_hello [OF C(4,1)] parsed_hello [OF S(4,1)] C(2,6) S(2,5) types by auto
  have "secureTLSHandshakeOnlyNegotiated cH' sH' = False"
    using C(5) by (simp add: secureTLSHandshakeOnlyNegotiated_def eq feature_negotiated and_and_zero)
  moreover have "suite' = suite" using C(7) S(6) by (simp add: eq negotiateSuite_normalized)
  ultimately have nS: "newSession c iS ServerRole kS (cr_public c kC) (h_random cH) (h_random sH) (h_publicKey cH) (h_publicKey sH) oS certS suite
        (secureBatchRecordsNegotiated cH sH) (secureDerivedEpochNegotiated cH sH) cH' ch sh = Some (Inr sS)"
    using S(7) C(3) by (simp add: eq secureBatchRecordsNegotiated_def secureDerivedEpochNegotiated_def feature_negotiated)
  have nC: "newSession c iC ClientRole kC (cr_public c kS) (h_random cH) (h_random sH) (h_publicKey cH) (h_publicKey sH) oC certC suite
        (secureBatchRecordsNegotiated cH sH) (secureDerivedEpochNegotiated cH sH) sH ch sh = Some (Inr sC)"
    using C(8) S(3) by (simp add: eq)
  show ?thesis
    using sessions_paired [OF laws nC nS] pol negotiateSuite_supported [OF C(7)] by (simp add: matching_policy_def)
qed

text \<open>
  C5: agreement.  When each side of a handshake receives exactly what the other sent, both
  return a session and their policies match, then the two sessions are paired in both
  directions (same suite, epoch and batch flag, each sends under the key and nonce prefix the
  other receives with) and fresh.
\<close>
theorem handshake_agreement:
  assumes "crypto_laws c" and "length rC = 32" and "length rS = 32" and "matching_policy iC oC iS oS"
    and "Client c xC eC iC dC kC rC tC oC (Inr sh # inC) = ([ch], HsSession sC)"
    and "Server c xS eS iS dS kS rS tS oS (Some ch # inS) = ([sh], HsSession sS)"
  shows "(\<exists>a. paired a sC sS) \<and> (\<exists>b. paired b sS sC) \<and> fresh_session sC \<and> fresh_session sS"
  by (rule handshake_sessions [OF assms])

text \<open>
  An endpoint for which every step of an undisturbed run succeeds: its sends succeed, it has no
  crypto offload, it uses the X25519 key source, and the AEAD constructors accept the key
  lengths their documentation names (16, 24 or 32 bytes for AES, 32 for ChaCha20-Poly1305).
\<close>

definition willing :: "crypto \<Rightarrow> inner_env \<Rightarrow> inner_caps \<Rightarrow> hs_options \<Rightarrow> bool" where
  "willing c env inner options \<longleftrightarrow> (\<forall>p. ie_send env p) \<and> ic_offload inner = None \<and>
     requestedKeySource options = KeySourceTrustIXX25519 \<and> (\<forall>k. length k \<in> {16, 24, 32} \<longrightarrow> cr_aesgcm c k \<noteq> None) \<and>
     (\<forall>k. length k = 32 \<longrightarrow> cr_chacha c k \<noteq> None)"

lemma newAEAD_supported:
  assumes "suite \<in> set supportedSuites" and "willing c env inner options" and "length key = cs_KeyLen suite"
  shows "\<exists>a. newAEAD c suite key = Inr a"
proof -
  have aes: "cr_aesgcm c key \<noteq> None" if "length key \<in> {16, 24, 32}"
    using assms(2) that unfolding willing_def by blast
  have chacha: "cr_chacha c key \<noteq> None" if "length key = 32"
    using assms(2) that unfolding willing_def by blast
  consider "suite = suite_aes256" | "suite = suite_aes128" | "suite = suite_chacha"
    using assms(1) by (auto simp: supportedSuites_def)
  then show ?thesis
  proof cases
    case 1
    with assms(3) have "length key = 32" by (simp add: suite_aes256_def)
    with aes 1 show ?thesis by (auto simp: newAEAD_def)
  next
    case 2
    with assms(3) have "length key = 16" by (simp add: suite_aes128_def)
    with aes 2 show ?thesis by (auto simp: newAEAD_def)
  next
    case 3
    with assms(3) have "length key = 32" by (simp add: suite_chacha_def)
    with chacha 3 show ?thesis by (auto simp: newAEAD_def)
  qed
qed

lemma newSession_succeeds:
  assumes "crypto_laws c" and "willing c env inner options" and "length pub = 32" and "cr_ecdh c priv pub = Some secret"
    and "suite \<in> set supportedSuites"
  shows "\<exists>s. newSession c inner role priv pub cr sr cp sp options cert suite br de ph chr shr = Some (Inr s)"
proof -
  have h: "length (cr_hmac c k x) = 32" for k x using assms(1) by (simp add: crypto_laws_def)
  have ks: "KeySourceTrustIXX25519 \<noteq> KeySourceTLSExporter"
    by (simp add: KeySourceTrustIXX25519_def KeySourceTLSExporter_def)
  obtain m where m: "deriveSessionKeyMaterial c inner secret cr sr cp sp options suite = Some (Inr (m, KeySourceTrustIXX25519))"
    using assms(2) ks by (simp add: deriveSessionKeyMaterial_def deriveKeyMaterial_def Let_def hkdfExpand_eq [OF h] willing_def)
  have "length m = cs_KeyLen suite * 2 + cs_NonceLen suite * 2"
    by (rule deriveSessionKeyMaterial_length [OF assms(1) m])
  then obtain ca sa where "newAEAD c suite (subslice 0 (cs_KeyLen suite) m) = Inr ca"
      "newAEAD c suite (subslice (cs_KeyLen suite) (cs_KeyLen suite * 2) m) = Inr sa"
    using newAEAD_supported [OF assms(5,2), of "subslice 0 (cs_KeyLen suite) m"]
      newAEAD_supported [OF assms(5,2), of "subslice (cs_KeyLen suite) (cs_KeyLen suite * 2) m"] by auto
  then show ?thesis
    using assms(2-4) m by (simp add: newSession_def Let_def enableCryptoOffload_none willing_def)
qed

lemma negotiateSuite_in_supported: "negotiateSuite m n = Inr suite \<Longrightarrow> suite \<in> set supportedSuites"
proof -
  have "preferSuite i names = Some suite \<Longrightarrow> suite \<in> set supportedSuites" for i names
    by (induction names) (auto simp: suiteByName_def find_Some_iff split: option.splits if_splits)
  then show "negotiateSuite m n = Inr suite \<Longrightarrow> suite \<in> set supportedSuites"
    by (auto simp: negotiateSuite_def Let_def split: if_splits option.splits)
qed

lemma negotiateSuite_cong:
  assumes "normalizedSuiteMask m AND helloSuiteMask = normalizedSuiteMask m' AND helloSuiteMask"
    and "normalizedSuiteMask n AND helloSuiteMask = normalizedSuiteMask n' AND helloSuiteMask"
  shows "negotiateSuite m n = negotiateSuite m' n'"
proof -
  have "normalizedSuiteMask m AND normalizedSuiteMask n AND helloSuiteMask =
      normalizedSuiteMask m' AND normalizedSuiteMask n' AND helloSuiteMask"
    using assms by (simp only: and_mask_both [of "normalizedSuiteMask m"] and_mask_both [of "normalizedSuiteMask m'"])
  then show ?thesis by (simp add: negotiateSuite_def Let_def)
qed

lemma anonymous_hello:
  assumes laws: "crypto_laws c" and rnd: "length rnd = 32" and t: "t \<noteq> helloTypeReset"
  shows "\<exists>h raw. newHandshakeState c priv rnd t None options (secureHelloFeatures inner options) =
      Inr (\<lparr>hs_privateKey = priv, hs_certDER = [], hs_signer = None\<rparr>, h) \<and> hello_encode h = Inr raw \<and> h_signature h = [] \<and>
    parseHello raw t = Inr (h\<lparr>h_suiteMask := normalizedSuiteMask (h_suiteMask h)\<rparr>) \<and> h_certDER h = []"
proof -
  let ?f = "secureHelloFeatures inner options AND helloFeatureMask"
  obtain fm rb where p: "(case op_SessionGeneration options of
      None \<Rightarrow> (?f AND NOT helloFeatureSessionGeneration, rnd)
    | Some g \<Rightarrow> if ?f AND helloFeatureSessionGeneration \<noteq> 0 then (?f, overwrite 0 (take 16 g) rnd) else (?f, rnd)) = (fm, rb)"
    by fastforce
  define h where "h = \<lparr>h_messageType = t, h_suiteMask = suiteMaskForOptions options OR fm, h_random = rb,
    h_publicKey = cr_public c priv, h_certDER = [], h_signature = []\<rparr>"
  have st: "newHandshakeState c priv rnd t None options (secureHelloFeatures inner options) =
      Inr (\<lparr>hs_privateKey = priv, hs_certDER = [], hs_signer = None\<rparr>, h)"
    unfolding newHandshakeState_def Let_def p by (simp add: localCertificate_def handshake_sign_def h_def)
  obtain raw where raw: "hello_encode h = Inr raw" by (simp add: hello_encode_def Let_def h_def)
  have "parseHello raw t = Inr (h\<lparr>h_suiteMask := normalizedSuiteMask (h_suiteMask h)\<rparr>)"
    using parseHello_encoded [OF raw newHandshakeState_hello(1) [OF laws rnd st]] t by (simp add: h_def)
  then show ?thesis using st raw by (auto simp: h_def)
qed

lemma hs_finish_session: "\<not> handoff \<Longrightarrow> hs_finish c env inner det handoff (Some (Inr s)) input = HsSession s"
  by (simp add: hs_finish_def)

text \<open>
  Two willing endpoints complete the handshake when each accepts the hello of the other, with
  certificates or without.  \<open>cN\<close> and \<open>sN\<close> are the hellos as the peer parses them.
\<close>

lemma handshake_succeeds:
  assumes laws: "crypto_laws c" and rnd: "length rC = 32" "length rS = 32"
    and will: "willing c eC iC oC" "willing c eS iS oS" and no: "\<not> ic_handoffAvailable iC"
    and dh: "cr_ecdh c kC (cr_public c kS) = Some secret"
    and suite: "negotiateSuite (suiteMaskForOptions oC) (suiteMaskForOptions oS) = Inr suite"
    and C: "newHandshakeState c kC rC helloTypeClient tC oC (secureHelloFeatures iC oC) = Inr (stC, cH)" "hello_encode cH = Inr ch"
      "parseHello ch helloTypeClient = Inr cN"
    and S: "newHandshakeState c kS rS helloTypeServer tS oS (secureHelloFeatures iS oS) = Inr (stS, sH0)"
      "handshake_sign c stS (serverSignaturePayload cN sH0) = Inr sg" "hello_encode (sH0\<lparr>h_signature := sg\<rparr>) = Inr sh"
      "parseHello sh helloTypeServer = Inr sN"
    and ver: "verifyHello c xC sN verifyClientSide tC oC (serverSignaturePayload cH sN) = Inr pC"
      "verifyHello c xS cN verifyServerSide tS oS (clientSignaturePayload cN) = Inr pS"
  shows "\<exists>sC sS. Client c xC eC iC dC kC rC tC oC (Inr sh # inC) = ([ch], HsSession sC) \<and>
    Server c xS eS iS dS kS rS tS oS (Some ch # inS) = ([sh], HsSession sS)"
proof -
  have types: "helloTypeClient \<noteq> helloTypeReset" "helloTypeServer \<noteq> helloTypeReset"
    by (simp_all add: helloTypeClient_def helloTypeServer_def helloTypeReset_def)
  note hC = newHandshakeState_hello [OF laws rnd(1) C(1)] and hS = newHandshakeState_hello [OF laws rnd(2) S(1)]
  let ?sH = "sH0\<lparr>h_signature := sg\<rparr>"
  have cN: "cN = cH\<lparr>h_suiteMask := normalizedSuiteMask (h_suiteMask cH)\<rparr>"
    by (rule parsed_hello [OF C(2) hC(1)]) (simp_all add: hC(2) types C(3))
  have sN: "sN = ?sH\<lparr>h_suiteMask := normalizedSuiteMask (h_suiteMask ?sH)\<rparr>"
    using S(4) hS(1,2) types by (intro parsed_hello [OF S(3)]) (simp_all add: hello_fields_def)
  have neg: "negotiateSuite (h_suiteMask cH) (h_suiteMask sH0) = Inr suite"
    using negotiateSuite_cong [OF hC(6) hS(6)] suite by simp
  have len: "length (cr_public c k) = 32" for k using laws by (simp add: crypto_laws_def)
  have dh': "cr_ecdh c kS (cr_public c kC) = Some secret" using laws dh by (simp add: crypto_laws_def)
  note new = newSession_succeeds [OF laws _ len _ negotiateSuite_in_supported [OF neg]]
  obtain sC where sC: "newSession c iC ClientRole kC (cr_public c kS) (h_random cH) (h_random sH0) (cr_public c kC) (cr_public c kS) oC pC suite
      (secureBatchRecordsNegotiated cH sN) (secureDerivedEpochNegotiated cH sN) sN ch sh = Some (Inr sC)"
    using new [OF will(1) dh] by blast
  obtain sS where sS: "newSession c iS ServerRole kS (cr_public c kC) (h_random cH) (h_random sH0) (cr_public c kC) (cr_public c kS) oS pS suite
      (secureBatchRecordsNegotiated cN ?sH) (secureDerivedEpochNegotiated cN ?sH) cN ch sh = Some (Inr sS)"
    using new [OF will(2) dh'] by blast
  have no_handoff: "\<not> secureTLSHandshakeOnlyNegotiated cH sN" "\<not> secureTLSHandshakeOnlyNegotiated cN ?sH"
    using hC(5) [OF no] by (simp_all add: cN sN secureTLSHandshakeOnlyNegotiated_def feature_negotiated and_and_zero)
  have masks: "negotiateSuite (h_suiteMask cH) (h_suiteMask sN) = Inr suite" "negotiateSuite (h_suiteMask cN) (h_suiteMask sH0) = Inr suite"
    using neg by (simp_all add: cN sN negotiateSuite_normalized)
  have fields: "h_random sN = h_random sH0" "h_publicKey sN = cr_public c kS" "h_random cN = h_random cH" "h_publicKey cN = cr_public c kC"
    using hC(3) hS(3) by (simp_all add: cN sN)
  have "Client c xC eC iC dC kC rC tC oC (Inr sh # inC) = ([ch], HsSession sC)"
    using will(1) C(1,2) S(4) hC(3,4) ver(1) masks(1) sC no_handoff(1) fields
    by (simp add: Client_def Client_hello_def Client_finish_def willing_def hs_finish_session)
  moreover have "Server c xS eS iS dS kS rS tS oS (Some ch # inS) = ([sh], HsSession sS)"
    using will(2) C(3) S(1-3) hS(3,4) ver(2) masks(2) sS no_handoff(2) fields
    by (simp add: Server_def willing_def hs_finish_session Let_def)
  ultimately show ?thesis by blast
qed

lemma anonymous_handshake_succeeds:
  assumes laws: "crypto_laws c" and rnd: "length rC = 32" "length rS = 32"
    and will: "willing c eC iC oC" "willing c eS iS oS" and no: "\<not> ic_handoffAvailable iC"
    and auth: "\<not> op_RequirePeerAuth oC" "\<not> op_RequirePeerAuth oS"
    and dh: "cr_ecdh c kC (cr_public c kS) = Some secret"
    and suite: "negotiateSuite (suiteMaskForOptions oC) (suiteMaskForOptions oS) = Inr suite"
  shows "\<exists>ch sh sC sS. Client c xC eC iC dC kC rC None oC [] = ([ch], HsPending) \<and>
    Server c xS eS iS dS kS rS None oS (Some ch # inS) = ([sh], HsSession sS) \<and>
    Client c xC eC iC dC kC rC None oC (Inr sh # inC) = ([ch], HsSession sC)"
proof -
  have types: "helloTypeClient \<noteq> helloTypeReset" "helloTypeServer \<noteq> helloTypeReset"
    by (simp_all add: helloTypeClient_def helloTypeServer_def helloTypeReset_def)
  obtain cH ch where C: "newHandshakeState c kC rC helloTypeClient None oC (secureHelloFeatures iC oC) =
        Inr (\<lparr>hs_privateKey = kC, hs_certDER = [], hs_signer = None\<rparr>, cH)" "hello_encode cH = Inr ch" "h_certDER cH = []"
      "parseHello ch helloTypeClient = Inr (cH\<lparr>h_suiteMask := normalizedSuiteMask (h_suiteMask cH)\<rparr>)"
    using anonymous_hello [OF laws rnd(1) types(1)] by blast
  obtain sH sh where S: "newHandshakeState c kS rS helloTypeServer None oS (secureHelloFeatures iS oS) =
        Inr (\<lparr>hs_privateKey = kS, hs_certDER = [], hs_signer = None\<rparr>, sH)" "hello_encode sH = Inr sh" "h_certDER sH = []" "h_signature sH = []"
      "parseHello sh helloTypeServer = Inr (sH\<lparr>h_suiteMask := normalizedSuiteMask (h_suiteMask sH)\<rparr>)"
    using anonymous_hello [OF laws rnd(2) types(2)] by blast
  have anon: "verifyHello c x (h\<lparr>h_suiteMask := m\<rparr>) side None options pl = Inr None"
    if "h_certDER h = []" "\<not> op_RequirePeerAuth options" for x h m side options pl
    using that by (simp add: verifyHello_def peerAuthRequired_def)
  have sig: "sH\<lparr>h_signature := []\<rparr> = sH" using S(4) by (cases sH) simp
  have sh: "hello_encode (sH\<lparr>h_signature := []\<rparr>) = Inr sh" unfolding sig by (rule S(2))
  have sign: "handshake_sign c \<lparr>hs_privateKey = kS, hs_certDER = [], hs_signer = None\<rparr> p = Inr []" for p
    by (simp add: handshake_sign_def)
  obtain sC sS where "Client c xC eC iC dC kC rC None oC (Inr sh # inC) = ([ch], HsSession sC)"
      "Server c xS eS iS dS kS rS None oS (Some ch # inS) = ([sh], HsSession sS)"
    using handshake_succeeds [OF laws rnd will no dh suite C(1,2,4) S(1) sign sh S(5) anon [OF S(3) auth(1)] anon [OF C(3) auth(2)]] by blast
  moreover have "Client c xC eC iC dC kC rC None oC [] = ([ch], HsPending)"
    using will(1) C(1,2) by (simp add: Client_def Client_hello_def willing_def)
  ultimately show ?thesis by blast
qed

text \<open>
  C11: an undisturbed handshake completes.  Take two endpoints without certificates that do not
  require peer authentication, whose suites intersect, both with the X25519 key source, no
  crypto offload and (on the client) no TLS handoff, with sends that succeed, a key agreement
  that succeeds and AEAD constructors that accept keys of the documented lengths.  The client
  sends its hello without having received anything; the server, given that hello, answers
  with its own and returns a session; the client, given the answer, returns a session.
\<close>
theorem anonymous_handshake_completes:
  assumes laws: "crypto_laws c" and rnd: "length rC = 32" "length rS = 32"
    and will: "willing c eC iC oC" "willing c eS iS oS" and no: "\<not> ic_handoffAvailable iC"
    and auth: "\<not> op_RequirePeerAuth oC" "\<not> op_RequirePeerAuth oS"
    and dh: "cr_ecdh c kC (cr_public c kS) = Some secret"
    and suite: "negotiateSuite (suiteMaskForOptions oC) (suiteMaskForOptions oS) = Inr suite"
  shows "\<exists>ch sh sC sS. Client c xC eC iC dC kC rC None oC [] = ([ch], HsPending) \<and>
    Server c xS eS iS dS kS rS None oS (Some ch # inS) = ([sh], HsSession sS) \<and>
    Client c xC eC iC dC kC rC None oC (Inr sh # inC) = ([ch], HsSession sC)"
  by (rule anonymous_handshake_succeeds [OF assms])

section \<open>The handoff exchange\<close>

lemma tlsHandoffControl_frame:
  "ss_clientHelloRaw t = ss_clientHelloRaw s \<Longrightarrow> ss_serverHelloRaw t = ss_serverHelloRaw s \<Longrightarrow>
   tlsHandoffControl c t stage = tlsHandoffControl c s stage"
  by (simp add: tlsHandoffControl_def)

lemma control_not_handshake: "handleDuplicateHandshake env t (tlsHandoffControl c s stage) = (t, Inr False)"
  by (simp add: handleDuplicateHandshake_def tlsHandoffControl_def Let_def subslice_def handshakeMagic_def str_bytes_def)

lemma paired_sent:
  "paired a (tx\<lparr>ss_sent := xs\<rparr>) rx = paired a tx rx" "paired a tx (rx\<lparr>ss_sent := xs\<rparr>) = paired a tx rx"
  "rec_wire a (tx\<lparr>ss_sent := xs\<rparr>) r = rec_wire a tx r"
  by (simp_all add: paired_def sealing_def rec_wire_def sendNonceFor_def)

lemma recvTLSHandoffControl_expected:
  "recvTLSHandoffControl c env stage s (Some (tlsHandoffControl c s stage) # input) = (s, input, HsDone)"
  by (simp add: control_not_handshake)

lemma recv_first_record:
  assumes p: "paired a tx rx" and np: "no_pending rx" and rep: "ss_replay rx = newReplayWindow n"
  shows "\<exists>st. session_RecvPacket env rx (Some (rec_wire a tx ([p], 1, 0)) # input) = (put_recv st rx, input, Received p)"
proof -
  have c: "classify env rx (rec_wire a tx ([p], 1, 0)) = (rx, Inr (Opened [p] 1 0))"
    by (rule classify_rec [OF p]) (simp add: rec_ok_def)
  obtain w where "replayWindow_Accept (newReplayWindow n) 1 = (w, True)" using toy_accept by blast
  then obtain st where v: "recv_verdict (get_recv rx) (Opened [p] 1 0) = (st, [p])"
    by (simp add: get_recv_def rep)
  have "(put_recv st rx)\<lparr>ss_recvPending := [], ss_recvPendingIndex := 0\<rparr> = put_recv st rx"
    by (rule no_pending_clear) (simp add: np)
  then have "openReceivedPacket env rx (rec_wire a tx ([p], 1, 0)) = (put_recv st rx, Inr (Some p))"
    using openReceivedPacket_verdict [OF c np v] by simp
  then show ?thesis using np by (intro exI [of _ st]) (simp add: RecvPacket_no_pending)
qed

text \<open>What sending leaves unchanged.\<close>

definition same_receiver :: "session \<Rightarrow> session \<Rightarrow> bool" where
  "same_receiver s t \<longleftrightarrow> ss_recvAEAD t = ss_recvAEAD s \<and> ss_recvIV t = ss_recvIV s \<and> ss_recvEncrypted t = ss_recvEncrypted s \<and>
     ss_replay t = ss_replay s \<and> ss_recvPending t = ss_recvPending s \<and> ss_recvPendingIndex t = ss_recvPendingIndex s \<and>
     ss_clientHelloRaw t = ss_clientHelloRaw s \<and> ss_serverHelloRaw t = ss_serverHelloRaw s \<and> ss_role t = ss_role s"

lemma send_first_record:
  assumes "sealing a s" and "ss_sendSeq s = 0" and "\<And>p. ie_send env p"
  shows "\<exists>t. session_SendPacket env s p = (t, None) \<and> ss_sent t = ss_sent s @ [rec_wire a s ([p], 1, 0)] \<and>
    same_sender s t \<and> same_receiver s t"
proof -
  obtain t where t: "session_SendPacket env s p = (t, None)"
    using assms by (simp add: session_SendPacket_def innerSendPacket_def sealing_def Let_def)
  moreover have "emits a s t [([p], 1, 0)]" using SendPacket_emits(1) [OF assms(1) _ t] assms(2) by simp
  moreover have "same_receiver s t"
    using t assms by (auto simp: session_SendPacket_def innerSendPacket_def sealing_def countSent_def same_receiver_def Let_def)
  ultimately show ?thesis by (auto simp: emits_def)
qed

lemma paired_transfer:
  assumes "paired a tx rx" and "same_sender tx tx'" and "same_sender rx rx'" and "same_receiver rx rx'"
  shows "paired a tx' rx'" "rec_wire a tx' r = rec_wire a tx r"
  using assms same_sender_transfer [OF assms(2)] by (simp_all add: paired_def same_sender_def same_receiver_def)

lemma control_send:
  assumes "\<And>p. ie_send env p"
  shows "sendTLSHandoffControl c env stage s input = (s\<lparr>ss_sent := ss_sent s @ [tlsHandoffControl c s stage]\<rparr>, input, HsDone)"
  using assms by (simp add: sendTLSHandoffControl_def innerSendPacket_def)

lemma encrypted_control_send:
  assumes "sealing a s" and "ss_sendSeq s = 0" and "\<And>p. ie_send env p"
  shows "\<exists>t. (\<forall>input. sendEncryptedTLSHandoffControl c env stage s input = (t, input, HsDone)) \<and>
    ss_sent t = ss_sent s @ [rec_wire a s ([tlsHandoffControl c s stage], 1, 0)] \<and> same_sender s t \<and> same_receiver s t"
  using send_first_record [OF assms(1,2), of env "tlsHandoffControl c s stage"] assms(3)
  by (auto simp: sendEncryptedTLSHandoffControl_def)

lemma encrypted_control_recv:
  assumes "paired a tx rx" and "no_pending rx" and "ss_replay rx = newReplayWindow n"
  shows "\<exists>st. recvEncryptedTLSHandoffControl c env stage rx (Some (rec_wire a tx ([tlsHandoffControl c rx stage], 1, 0)) # input) =
    (put_recv st rx, input, HsDone)"
proof -
  obtain st where "session_RecvPacket env rx (Some (rec_wire a tx ([tlsHandoffControl c rx stage], 1, 0)) # input) =
      (put_recv st rx, input, Received (tlsHandoffControl c rx stage))"
    using recv_first_record [OF assms] by blast
  then show ?thesis
    by (intro exI [of _ st]) (simp add: recvEncryptedTLSHandoffControl_def tlsHandoffControl_frame [of "put_recv st rx" rx])
qed

text \<open>
  The client's half and the server's half, on what the other sends and on the shorter inputs
  they wait on before.
\<close>

lemma encrypted_control_wait:
  "no_pending s \<Longrightarrow> recvEncryptedTLSHandoffControl c env stage s [] = (s, [], HsWaiting)"
  by (simp add: recvEncryptedTLSHandoffControl_def RecvPacket_no_pending)

lemma client_handoff:
  fixes c :: crypto
  assumes "paired a sC sS" and "paired b sS sC" and f: "fresh_session sC" and env: "\<And>p. ie_send env p"
  defines "ctl \<equiv> tlsHandoffControl c sC" and "run \<equiv> completeClientTLSDataPlaneHandoff c env True sC"
  shows "\<exists>t1 t2 t3. run [] = (sC, [], HsWaiting) \<and>
    run [Some (ctl tlsHandoffServerReady)] = (t1, [], HsWaiting) \<and> ss_sent t1 = [ctl tlsHandoffClientReady] \<and>
    run [Some (ctl tlsHandoffServerReady), Some (ctl tlsHandoffServerCommit)] = (t2, [], HsWaiting) \<and>
    ss_sent t2 = [ctl tlsHandoffClientReady, rec_wire a sC ([ctl tlsHandoffClientRaw], 1, 0)] \<and>
    run [Some (ctl tlsHandoffServerReady), Some (ctl tlsHandoffServerCommit), Some (rec_wire b sS ([ctl tlsHandoffServerRaw], 1, 0))] =
      (t3, [], HsDone) \<and> ss_sent t3 = ss_sent t2"
proof -
  define s1 where "s1 = sC\<lparr>ss_sent := [ctl tlsHandoffClientReady]\<rparr>"
  define sw where "sw = rec_wire b sS ([ctl tlsHandoffServerRaw], 1, 0)"
  have c1: "tlsHandoffControl c s1 stage = ctl stage" for stage by (simp add: s1_def ctl_def tlsHandoffControl_def)
  have "sealing a s1" "ss_sendSeq s1 = 0" and p1: "paired b sS s1"
    using assms(1,2) f by (simp_all add: s1_def paired_def sealing_def fresh_session_def)
  then obtain t where t: "\<And>input. sendEncryptedTLSHandoffControl c env tlsHandoffClientRaw s1 input = (t, input, HsDone)"
      "ss_sent t = [ctl tlsHandoffClientReady, rec_wire a sC ([ctl tlsHandoffClientRaw], 1, 0)]" "same_sender s1 t" "same_receiver s1 t"
    using encrypted_control_send [of a s1 env c tlsHandoffClientRaw] env by (auto simp: c1) (simp add: s1_def paired_sent)
  have ct: "tlsHandoffControl c t stage = ctl stage" for stage
    using t(4) c1 [of stage] tlsHandoffControl_frame [of t s1 c stage] by (simp add: same_receiver_def)
  have "paired b sS t" using paired_transfer(1) [OF p1 _ t(3,4)] by (simp add: same_sender_def)
  moreover have np: "no_pending t" "ss_replay t = newReplayWindow 65536"
    using t(4) f by (simp_all add: same_receiver_def s1_def fresh_session_def no_pending_def)
  ultimately obtain st where r: "recvEncryptedTLSHandoffControl c env tlsHandoffServerRaw t [Some sw] = (put_recv st t, [], HsDone)"
    using encrypted_control_recv [of b sS t 65536 c env tlsHandoffServerRaw "[]"] unfolding ct sw_def by blast
  have s0: "sendTLSHandoffControl c env tlsHandoffClientReady sC i = (s1, i, HsDone)" for i
    using control_send [of env c tlsHandoffClientReady sC i] env f by (simp add: s1_def ctl_def fresh_session_def)
  have r0: "recvTLSHandoffControl c env stage sC (Some (ctl stage) # i) = (sC, i, HsDone)"
    "recvTLSHandoffControl c env stage s1 (Some (ctl stage) # i) = (s1, i, HsDone)" for stage i
    using recvTLSHandoffControl_expected [of c env stage s1 i] recvTLSHandoffControl_expected [of c env stage sC i]
    unfolding c1 by (simp_all only: ctl_def)
  have w: "recvTLSHandoffControl c env stage s [] = (s, [], HsWaiting)" for stage s by simp
  note steps = run_def completeClientTLSDataPlaneHandoff_def hs_then_def r0 s0 w detachStep_def t(1) r encrypted_control_wait [OF np(1)]
  have "run [] = (sC, [], HsWaiting)" "run [Some (ctl tlsHandoffServerReady)] = (s1, [], HsWaiting)"
    "run [Some (ctl tlsHandoffServerReady), Some (ctl tlsHandoffServerCommit)] = (t, [], HsWaiting)"
    "run [Some (ctl tlsHandoffServerReady), Some (ctl tlsHandoffServerCommit), Some sw] = (put_recv st t, [], HsDone)"
    by (simp_all add: steps del: recvTLSHandoffControl.simps)
  then show ?thesis
    using t(2) unfolding sw_def by (intro exI [of _ s1] exI [of _ t] exI [of _ "put_recv st t"]) (simp add: s1_def)
qed

lemma server_handoff:
  fixes c :: crypto
  assumes "paired a sC sS" and "paired b sS sC" and f: "fresh_session sS" and env: "\<And>p. ie_send env p"
  defines "ctl \<equiv> tlsHandoffControl c sS" and "run \<equiv> completeServerTLSDataPlaneHandoff c env True sS"
  shows "\<exists>t1 t2 t3. run [] = (t1, [], HsWaiting) \<and> ss_sent t1 = [ctl tlsHandoffServerReady] \<and>
    run [Some (ctl tlsHandoffClientReady)] = (t2, [], HsWaiting) \<and>
    ss_sent t2 = [ctl tlsHandoffServerReady, ctl tlsHandoffServerCommit] \<and>
    run [Some (ctl tlsHandoffClientReady), Some (rec_wire a sC ([ctl tlsHandoffClientRaw], 1, 0))] = (t3, [], HsDone) \<and>
    ss_sent t3 = [ctl tlsHandoffServerReady, ctl tlsHandoffServerCommit, rec_wire b sS ([ctl tlsHandoffServerRaw], 1, 0)]"
proof -
  define s1 where "s1 = sS\<lparr>ss_sent := [ctl tlsHandoffServerReady]\<rparr>"
  define s2 where "s2 = sS\<lparr>ss_sent := [ctl tlsHandoffServerReady, ctl tlsHandoffServerCommit]\<rparr>"
  define cw where "cw = rec_wire a sC ([ctl tlsHandoffClientRaw], 1, 0)"
  have c1: "tlsHandoffControl c s1 stage = ctl stage" "tlsHandoffControl c s2 stage = ctl stage" for stage
    by (simp_all add: s1_def s2_def ctl_def tlsHandoffControl_def)
  have np: "paired a sC s2" "no_pending s2" "ss_replay s2 = newReplayWindow 65536"
    using assms(1) f by (simp_all add: s2_def paired_sent fresh_session_def no_pending_def)
  then obtain st where r: "recvEncryptedTLSHandoffControl c env tlsHandoffClientRaw s2 [Some cw] = (put_recv st s2, [], HsDone)"
    using encrypted_control_recv [of a sC s2 65536 c env tlsHandoffClientRaw "[]"] unfolding c1 cw_def by blast
  let ?s3 = "put_recv st s2"
  have c3: "tlsHandoffControl c ?s3 stage = ctl stage" for stage
    using c1(2) [of stage] tlsHandoffControl_frame [of ?s3 s2 c stage] by simp
  have "sealing b ?s3" "ss_sendSeq ?s3 = 0"
    using assms(2) f by (simp_all add: s2_def paired_def sealing_def fresh_session_def put_recv_def split: prod.splits)
  then obtain t where t: "sendEncryptedTLSHandoffControl c env tlsHandoffServerRaw ?s3 [] = (t, [], HsDone)"
      "ss_sent t = [ctl tlsHandoffServerReady, ctl tlsHandoffServerCommit, rec_wire b ?s3 ([ctl tlsHandoffServerRaw], 1, 0)]"
    using encrypted_control_send [of b ?s3 env c tlsHandoffServerRaw] env unfolding c3 by (auto simp: s2_def)
  have w: "rec_wire b ?s3 x = rec_wire b sS x" for x
    by (simp add: rec_wire_def sendNonceFor_def s2_def put_recv_def split: prod.splits)
  have s0: "sendTLSHandoffControl c env tlsHandoffServerReady sS i = (s1, i, HsDone)"
    "sendTLSHandoffControl c env tlsHandoffServerCommit s1 i = (s2, i, HsDone)" for i
    using control_send [of env c tlsHandoffServerReady sS i] control_send [of env c tlsHandoffServerCommit s1 i] env f
    unfolding c1 by (simp_all add: s1_def s2_def ctl_def fresh_session_def)
  have r0: "recvTLSHandoffControl c env stage s1 (Some (ctl stage) # i) = (s1, i, HsDone)" for stage i
    using recvTLSHandoffControl_expected [of c env stage s1 i] unfolding c1 .
  have w0: "recvTLSHandoffControl c env stage s [] = (s, [], HsWaiting)" for stage s by simp
  note steps = run_def completeServerTLSDataPlaneHandoff_def hs_then_def r0 s0 w0 detachStep_def t(1) r encrypted_control_wait [OF np(2)]
  have "run [] = (s1, [], HsWaiting)" "run [Some (ctl tlsHandoffClientReady)] = (s2, [], HsWaiting)"
    "run [Some (ctl tlsHandoffClientReady), Some cw] = (t, [], HsDone)"
    by (simp_all add: steps del: recvTLSHandoffControl.simps)
  then show ?thesis
    using t(2) unfolding cw_def w by (intro exI [of _ s1] exI [of _ s2] exI [of _ t]) (simp add: s1_def s2_def)
qed

text \<open>
  The exchange as it runs: nothing is in flight at first, and in each round both sides go as
  far as the packets the other has sent up to then let them.  A state is the packets sent by
  the client and by the server; a packet is delivered only after it has been sent.
\<close>

definition handoff_round :: "hs_step \<Rightarrow> hs_step \<Rightarrow> session \<Rightarrow> session \<Rightarrow> bytes list \<times> bytes list \<Rightarrow> bytes list \<times> bytes list" where
  "handoff_round client server sC sS sent =
     (ss_sent (fst (client sC (map Some (snd sent)))), ss_sent (fst (server sS (map Some (fst sent)))))"

lemma handoff_step:
  assumes "ic_handoffAvailable inner"
  shows "ss_role s = ClientRole \<Longrightarrow> completeClientTLSDataPlaneHandoff c env True s input = (t, input', p) \<Longrightarrow>
      ss_sent (fst (completeTLSDataPlaneHandoff c env inner True s input)) = ss_sent t"
    "ss_role s = ServerRole \<Longrightarrow> completeServerTLSDataPlaneHandoff c env True s input = (t, input', p) \<Longrightarrow>
      ss_sent (fst (completeTLSDataPlaneHandoff c env inner True s input)) = ss_sent t"
  using assms by (cases p; simp add: completeTLSDataPlaneHandoff_def resetTLSHandoffAccounting_def)+

lemma handoff_runs:
  fixes c :: crypto
  assumes "paired a sC sS" and "paired b sS sC" and f: "fresh_session sC" "fresh_session sS"
    and role: "ss_role sC = ClientRole" "ss_role sS = ServerRole"
    and raw: "ss_clientHelloRaw sS = ss_clientHelloRaw sC" "ss_serverHelloRaw sS = ss_serverHelloRaw sC"
    and send: "\<And>p. ie_send eC p" "\<And>p. ie_send eS p" and inner: "ic_handoffAvailable iC" "ic_handoffAvailable iS"
  defines "client \<equiv> completeTLSDataPlaneHandoff c eC iC True" and "server \<equiv> completeTLSDataPlaneHandoff c eS iS True"
  shows "\<exists>toS toC sC' sS'. (handoff_round client server sC sS ^^ 5) ([], []) = (toS, toC) \<and>
    client sC (map Some toC) = (sC', [], HsDone) \<and> ss_sent sC' = toS \<and> ss_tlsHandshakeOnly sC' \<and>
    server sS (map Some toS) = (sS', [], HsDone) \<and> ss_sent sS' = toC \<and> ss_tlsHandshakeOnly sS' \<and> length toS = 2 \<and> length toC = 3"
proof -
  let ?ctl = "tlsHandoffControl c sC"
  let ?SR = "?ctl tlsHandoffServerReady" and ?CR = "?ctl tlsHandoffClientReady" and ?SC = "?ctl tlsHandoffServerCommit"
  let ?CW = "rec_wire a sC ([?ctl tlsHandoffClientRaw], 1, 0)" and ?SW = "rec_wire b sS ([?ctl tlsHandoffServerRaw], 1, 0)"
  have ctl: "tlsHandoffControl c sS stage = ?ctl stage" for stage
    by (rule tlsHandoffControl_frame [OF raw])
  obtain t1 t2 t3 where C: "completeClientTLSDataPlaneHandoff c eC True sC [] = (sC, [], HsWaiting)"
      "completeClientTLSDataPlaneHandoff c eC True sC [Some ?SR] = (t1, [], HsWaiting)" "ss_sent t1 = [?CR]"
      "completeClientTLSDataPlaneHandoff c eC True sC [Some ?SR, Some ?SC] = (t2, [], HsWaiting)" "ss_sent t2 = [?CR, ?CW]"
      "completeClientTLSDataPlaneHandoff c eC True sC [Some ?SR, Some ?SC, Some ?SW] = (t3, [], HsDone)" "ss_sent t3 = ss_sent t2"
    using client_handoff [OF assms(1,2) f(1), of eC c] send(1) by blast
  obtain u1 u2 u3 where S: "completeServerTLSDataPlaneHandoff c eS True sS [] = (u1, [], HsWaiting)" "ss_sent u1 = [?SR]"
      "completeServerTLSDataPlaneHandoff c eS True sS [Some ?CR] = (u2, [], HsWaiting)" "ss_sent u2 = [?SR, ?SC]"
      "completeServerTLSDataPlaneHandoff c eS True sS [Some ?CR, Some ?CW] = (u3, [], HsDone)" "ss_sent u3 = [?SR, ?SC, ?SW]"
    using server_handoff [OF assms(1,2) f(2), of eS c] send(2) unfolding ctl by blast
  note cs = handoff_step(1) [OF inner(1) role(1)] and ss = handoff_step(2) [OF inner(2) role(2)]
  have "ss_sent sC = []" using f(1) by (simp add: fresh_session_def)
  then have "(handoff_round client server sC sS ^^ 5) ([], []) = ([?CR, ?CW], [?SR, ?SC, ?SW])"
    using C S by (simp add: numeral_eq_Suc handoff_round_def client_def server_def cs [OF C(1)] cs [OF C(2)] cs [OF C(4)]
        ss [OF S(1)] ss [OF S(3)] ss [OF S(5)])
  moreover have "client sC (map Some [?SR, ?SC, ?SW]) = (resetTLSHandoffAccounting (t3\<lparr>ss_tlsHandshakeOnly := True\<rparr>), [], HsDone)"
    "server sS (map Some [?CR, ?CW]) = (resetTLSHandoffAccounting (u3\<lparr>ss_tlsHandshakeOnly := True\<rparr>), [], HsDone)"
    using C(6) S(5) role inner by (simp_all add: client_def server_def completeTLSDataPlaneHandoff_def)
  ultimately show ?thesis
    using C(5,7) S(6)
    by (intro exI [of _ "[?CR, ?CW]"] exI [of _ "[?SR, ?SC, ?SW]"]
        exI [of _ "resetTLSHandoffAccounting (t3\<lparr>ss_tlsHandshakeOnly := True\<rparr>)"]
        exI [of _ "resetTLSHandoffAccounting (u3\<lparr>ss_tlsHandshakeOnly := True\<rparr>)"])
      (simp add: resetTLSHandoffAccounting_def)
qed

text \<open>
  C12: the TLS handoff completes.  Two fresh paired sessions, client and server, that saw the
  same hellos, over transports that can detach their TLS layer and whose sends succeed, start
  with nothing in flight and each go on as far as the packets the other has already sent let
  them.  After five such rounds the client has sent two packets and the server three, and on
  them both sides finish with nothing left to read and the session marked as handed off.
\<close>
theorem handoff_completes:
  assumes "paired a sC sS" and "paired b sS sC" and "fresh_session sC" and "fresh_session sS"
    and "ss_role sC = ClientRole" and "ss_role sS = ServerRole"
    and "ss_clientHelloRaw sS = ss_clientHelloRaw sC" and "ss_serverHelloRaw sS = ss_serverHelloRaw sC"
    and "\<And>p. ie_send eC p" and "\<And>p. ie_send eS p" and "ic_handoffAvailable iC" and "ic_handoffAvailable iS"
  shows "\<exists>toS toC sC' sS'.
    (handoff_round (completeTLSDataPlaneHandoff c eC iC True) (completeTLSDataPlaneHandoff c eS iS True) sC sS ^^ 5) ([], []) = (toS, toC) \<and>
    completeTLSDataPlaneHandoff c eC iC True sC (map Some toC) = (sC', [], HsDone) \<and> ss_sent sC' = toS \<and> ss_tlsHandshakeOnly sC' \<and>
    completeTLSDataPlaneHandoff c eS iS True sS (map Some toS) = (sS', [], HsDone) \<and> ss_sent sS' = toC \<and> ss_tlsHandshakeOnly sS' \<and>
    length toS = 2 \<and> length toC = 3"
  by (rule handoff_runs [OF assms])

section \<open>Authentication\<close>

text \<open>
  What proves the identity of a peer: its certificates parse, the leaf key verifies a
  signature over the transcript, and, with a configuration, the chain is one found from the
  leaf to the configured roots (under the configured name, on the client), or the leaf alone
  when no roots are configured, and the callback accepts it.
\<close>

definition trusted_chain :: "x509 \<Rightarrow> bytes list option \<Rightarrow> string \<Rightarrow> bytes \<Rightarrow> bytes list \<Rightarrow> bytes list \<Rightarrow> bool" where
  "trusted_chain x roots name cert intermediates chain \<longleftrightarrow>
     (case roots of None \<Rightarrow> chain = [cert]
      | Some pool \<Rightarrow> \<exists>more. xc_verify x cert pool intermediates name = Some (chain # more))"

definition peer_proven ::
  "crypto \<Rightarrow> x509 \<Rightarrow> bytes list option \<Rightarrow> string \<Rightarrow> tls_conf option \<Rightarrow> bytes \<Rightarrow> hello \<Rightarrow> bytes \<Rightarrow> bool" where
  "peer_proven c x roots name tlsConf transcript h cert \<longleftrightarrow>
     (\<exists>intermediates. xc_parse x (h_certDER h) = Some (cert # intermediates) \<and> h_signature h \<noteq> [] \<and>
        xc_ecdsaVerify x cert (cr_sha256 c transcript) (h_signature h) \<and>
        (\<forall>conf. tlsConf = Some conf \<longrightarrow> (\<exists>chain. trusted_chain x roots name cert intermediates chain \<and>
           (\<forall>callback. tc_VerifyPeerCertificate conf = Some callback \<longrightarrow> callback (cert # intermediates) [chain]))))"

definition roots_of :: "verifySide \<Rightarrow> tls_conf option \<Rightarrow> bytes list option" where
  "roots_of side tlsConf =
     (case tlsConf of None \<Rightarrow> None | Some conf \<Rightarrow> (case side of verifyClientSide \<Rightarrow> tc_RootCAs conf | verifyServerSide \<Rightarrow> tc_ClientCAs conf))"

definition name_of :: "verifySide \<Rightarrow> tls_conf option \<Rightarrow> string" where
  "name_of side tlsConf =
     (case tlsConf of None \<Rightarrow> [] | Some conf \<Rightarrow> (case side of verifyClientSide \<Rightarrow> tc_ServerName conf | verifyServerSide \<Rightarrow> []))"

lemma verifiedChain_trusted:
  "verifiedChain x cert ints side conf = Inr chain \<longleftrightarrow>
   trusted_chain x (roots_of side (Some conf)) (name_of side (Some conf)) cert ints chain"
  by (cases side) (auto simp: verifiedChain_def trusted_chain_def roots_of_def name_of_def split: option.splits list.splits)

lemma verifyHello_iff:
  "verifyHello c x h side tlsConf options transcript = Inr r \<longleftrightarrow>
   (case r of
      None \<Rightarrow> h_certDER h = [] \<and> \<not> op_RequirePeerAuth options \<and> \<not> peerAuthRequired side tlsConf
    | Some cert \<Rightarrow> h_certDER h \<noteq> [] \<and> peer_proven c x (roots_of side tlsConf) (name_of side tlsConf) tlsConf transcript h cert)"
proof (cases "h_certDER h = [] \<or> h_signature h = []")
  case True
  then show ?thesis
    by (auto simp: verifyHello_def peer_proven_def Let_def split: option.splits list.splits)
next
  case False
  show ?thesis
  proof (cases "xc_parse x (h_certDER h)")
    case (Some certs)
    with False show ?thesis
      by (cases certs; cases tlsConf)
        (auto simp: verifyHello_def verifyCertificateChain_def peer_proven_def pki_Verify_def Let_def
          simp flip: verifiedChain_trusted split: option.splits sum.splits)
  qed (use False in \<open>auto simp: verifyHello_def peer_proven_def split: option.splits\<close>)
qed

text \<open>The certificate recorded when a session is created is never changed by the handoff.\<close>

named_theorems keeps_cert

lemma innerSend_cert [keeps_cert]: "innerSendPacket env p s = (t, ok) \<Longrightarrow> ss_peerCert t = ss_peerCert s"
  by (auto simp: innerSendPacket_def)

lemma SendPacket_cert [keeps_cert]: "session_SendPacket env s p = (t, r) \<Longrightarrow> ss_peerCert t = ss_peerCert s"
  by (auto simp: session_SendPacket_def innerSendPacket_def countSent_def Let_def split: if_splits option.splits)

lemma duplicate_cert [keeps_cert]: "handleDuplicateHandshake env s w = (t, r) \<Longrightarrow> ss_peerCert t = ss_peerCert s"
  using handleDuplicateHandshake_frame by fastforce

lemma openReceivedPacket_cert [keeps_cert]: "openReceivedPacket env s w = (t, r) \<Longrightarrow> ss_peerCert t = ss_peerCert s"
  by (auto simp: openReceivedPacket_def openReceivedRecordNoStats_def recordPacketsReceived_def Let_def
      split: if_splits option.splits sum.splits prod.splits bool.splits dest: duplicate_cert)

lemma recvLoop_cert [keeps_cert]: "recvLoop env s input = (t, input', r) \<Longrightarrow> ss_peerCert t = ss_peerCert s"
  by (induction env s input rule: recvLoop.induct)
    (auto split: prod.splits sum.splits option.splits sess_error.splits dest: openReceivedPacket_cert)

lemma RecvPacket_cert [keeps_cert]: "session_RecvPacket env s input = (t, input', r) \<Longrightarrow> ss_peerCert t = ss_peerCert s"
  by (auto simp: session_RecvPacket_def popRecvPendingPacket_def Let_def split: prod.splits option.splits if_splits
      dest!: recvLoop_cert)

definition cert_kept :: "hs_step \<Rightarrow> bool" where
  "cert_kept f \<longleftrightarrow> (\<forall>s input. ss_peerCert (fst (f s input)) = ss_peerCert s)"

lemma cert_kept_then: "cert_kept f \<Longrightarrow> cert_kept g \<Longrightarrow> cert_kept (hs_then f g)"
  unfolding cert_kept_def hs_then_def by (auto split: prod.splits hs_progress.splits) (metis fst_conv)+

lemma recvTLSHandoffControl_kept: "ss_peerCert (fst (recvTLSHandoffControl c env stage s input)) = ss_peerCert s"
  by (induction c env stage s input rule: recvTLSHandoffControl.induct) (auto split: prod.splits sum.splits dest: duplicate_cert)

lemma handoff_steps_kept:
  "cert_kept (recvTLSHandoffControl c env stage)" "cert_kept (sendTLSHandoffControl c env stage)"
  "cert_kept (sendEncryptedTLSHandoffControl c env stage)" "cert_kept (recvEncryptedTLSHandoffControl c env stage)"
  "cert_kept (detachStep d)"
  by (auto simp: cert_kept_def recvTLSHandoffControl_kept sendTLSHandoffControl_def sendEncryptedTLSHandoffControl_def
      recvEncryptedTLSHandoffControl_def detachStep_def split: prod.splits option.splits received.splits dest: keeps_cert)

lemma handoff_cert:
  assumes "completeTLSDataPlaneHandoff c env inner det s input = (t, input', p)"
  shows "ss_peerCert t = ss_peerCert s"
proof -
  have "cert_kept (completeClientTLSDataPlaneHandoff c env det)" "cert_kept (completeServerTLSDataPlaneHandoff c env det)"
    unfolding completeClientTLSDataPlaneHandoff_def completeServerTLSDataPlaneHandoff_def
    by (intro cert_kept_then handoff_steps_kept)+
  then have "ss_peerCert (fst (completeClientTLSDataPlaneHandoff c env det s input)) = ss_peerCert s"
    "ss_peerCert (fst (completeServerTLSDataPlaneHandoff c env det s input)) = ss_peerCert s"
    by (simp_all add: cert_kept_def)
  with assms show ?thesis
    by (auto simp: completeTLSDataPlaneHandoff_def resetTLSHandoffAccounting_def split: if_splits sess_role.splits prod.splits hs_progress.splits)
qed

lemma newSession_cert:
  assumes "newSession c inner role priv peerPub cr sr cp sp opts cert suite br de ph chr shr = Some (Inr s)"
  shows "ss_peerCert s = cert"
proof -
  have off: "ss_peerCert t = ss_peerCert u" if "enableCryptoOffload inner u ck sk ci si = Inr t" for t u ck sk ci si
    using that by (auto simp: enableCryptoOffload_def clearUserspaceSendCrypto_def Let_def
        split: if_splits option.splits prod.splits offload_result.splits)
  show ?thesis
    using assms by (auto simp: newSession_def initDataHeader_def Let_def split: if_splits option.splits sum.splits dest!: off)
qed

lemma hs_finish_cert:
  assumes "hs_finish c env inner det handoff r input = HsSession s"
    and "\<And>t. r = Some (Inr t) \<Longrightarrow> ss_peerCert t = cert"
  shows "ss_peerCert s = cert"
  using assms by (auto simp: hs_finish_def split: option.splits sum.splits if_splits prod.splits hs_progress.splits dest: handoff_cert)

lemma Client_authenticates:
  assumes "Client c x env inner det priv rnd tlsConf options (Inr raw # input) = (sent, HsSession s)"
  shows "\<exists>own peer. sent = [own] \<and> (\<exists>cH. hello_encode cH = Inr own \<and> parseHello raw helloTypeServer = Inr peer \<and>
    verifyHello c x peer verifyClientSide tlsConf options (serverSignaturePayload cH peer) = Inr (ss_peerCert s))"
proof -
  obtain state cH ch where st: "hello_encode cH = Inr ch" "sent = [ch]"
    and fin: "Client_finish c x env inner det tlsConf options state cH ch raw (inner_input input) = HsSession s"
    using assms by (auto simp: Client_def Client_hello_def split: sum.splits if_splits)
  then obtain sH cert where r: "parseHello raw helloTypeServer = Inr sH"
      "verifyHello c x sH verifyClientSide tlsConf options (serverSignaturePayload cH sH) = Inr cert"
    by (auto simp: Client_finish_def split: sum.splits)
  have "ss_peerCert s = cert"
    using fin r by (auto simp: Client_finish_def split: sum.splits elim!: hs_finish_cert dest: newSession_cert)
  with st r show ?thesis by blast
qed

lemma Server_authenticates:
  assumes "Server c x env inner det priv rnd tlsConf options (Some raw # input) = (sent, HsSession s)"
  shows "\<exists>peer. parseHello raw helloTypeClient = Inr peer \<and>
    verifyHello c x peer verifyServerSide tlsConf options (clientSignaturePayload peer) = Inr (ss_peerCert s)"
proof -
  obtain cH cert where p: "parseHello raw helloTypeClient = Inr cH"
      "verifyHello c x cH verifyServerSide tlsConf options (clientSignaturePayload cH) = Inr cert"
    using assms by (auto simp: Server_def split: sum.splits)
  moreover have "ss_peerCert s = cert"
    using assms p by (auto simp: Server_def Let_def split: sum.splits if_splits elim!: hs_finish_cert dest: newSession_cert)
  ultimately show ?thesis by blast
qed

text \<open>
  C14: authentication of the peer.  When \<open>Client\<close> or \<open>Server\<close> returns a session, the session
  records a certificate only if the peer's hello carried one whose leaf key verifies a
  non-empty signature over the transcript (for the client: of its own hello and the
  server's) and whose chain leads to the configured roots, under the configured server name
  on the client, and passes the callback.  It records none only if the hello carried none and
  neither the options nor the configuration ask for authentication: no roots, no server name
  and no callback on the client; no client roots, no callback and a client-authentication
  mode below \<open>RequireAnyClientCert\<close> on the server.
\<close>
theorem session_authenticates_peer:
  assumes "Client c x env inner det priv rnd tC oC (Inr raw # input) = (sent, HsSession s)"
    and "Server c' x' env' inner' det' priv' rnd' tS oS (Some raw' # input') = (sent', HsSession s')"
  shows "(\<exists>cH own h. hello_encode cH = Inr own \<and> sent = [own] \<and> parseHello raw helloTypeServer = Inr h \<and>
      (case ss_peerCert s of
         Some cert \<Rightarrow> h_certDER h \<noteq> [] \<and>
           peer_proven c x (case tC of None \<Rightarrow> None | Some conf \<Rightarrow> tc_RootCAs conf) (case tC of None \<Rightarrow> [] | Some conf \<Rightarrow> tc_ServerName conf)
             tC (serverSignaturePayload cH h) h cert
       | None \<Rightarrow> h_certDER h = [] \<and> \<not> op_RequirePeerAuth oC \<and> (\<forall>conf. tC = Some conf \<longrightarrow>
           tc_RootCAs conf = None \<and> tc_ServerName conf = [] \<and> tc_VerifyPeerCertificate conf = None))) \<and>
    (\<exists>h. parseHello raw' helloTypeClient = Inr h \<and>
      (case ss_peerCert s' of
         Some cert \<Rightarrow> h_certDER h \<noteq> [] \<and>
           peer_proven c' x' (case tS of None \<Rightarrow> None | Some conf \<Rightarrow> tc_ClientCAs conf) [] tS (clientSignaturePayload h) h cert
       | None \<Rightarrow> h_certDER h = [] \<and> \<not> op_RequirePeerAuth oS \<and> (\<forall>conf. tS = Some conf \<longrightarrow>
           tc_ClientAuth conf < 2 \<and> tc_ClientCAs conf = None \<and> tc_VerifyPeerCertificate conf = None)))"
proof -
  obtain own h cH where c: "sent = [own]" "hello_encode cH = Inr own" "parseHello raw helloTypeServer = Inr h"
      "verifyHello c x h verifyClientSide tC oC (serverSignaturePayload cH h) = Inr (ss_peerCert s)"
    using Client_authenticates [OF assms(1)] by blast
  obtain h' where d: "parseHello raw' helloTypeClient = Inr h'"
      "verifyHello c' x' h' verifyServerSide tS oS (clientSignaturePayload h') = Inr (ss_peerCert s')"
    using Server_authenticates [OF assms(2)] by blast
  have sides: "roots_of verifyClientSide tC = (case tC of None \<Rightarrow> None | Some conf \<Rightarrow> tc_RootCAs conf)"
    "name_of verifyClientSide tC = (case tC of None \<Rightarrow> [] | Some conf \<Rightarrow> tc_ServerName conf)"
    "roots_of verifyServerSide tS = (case tS of None \<Rightarrow> None | Some conf \<Rightarrow> tc_ClientCAs conf)" "name_of verifyServerSide tS = []"
    by (simp_all add: roots_of_def name_of_def split: option.splits)
  have req: "\<not> peerAuthRequired verifyClientSide tC \<longleftrightarrow> (\<forall>conf. tC = Some conf \<longrightarrow>
      tc_RootCAs conf = None \<and> tc_ServerName conf = [] \<and> tc_VerifyPeerCertificate conf = None)"
    "\<not> peerAuthRequired verifyServerSide tS \<longleftrightarrow> (\<forall>conf. tS = Some conf \<longrightarrow>
      tc_ClientAuth conf < 2 \<and> tc_ClientCAs conf = None \<and> tc_VerifyPeerCertificate conf = None)"
    by (auto simp: peerAuthRequired_def not_le split: option.splits)
  have "case ss_peerCert s of
      None \<Rightarrow> h_certDER h = [] \<and> \<not> op_RequirePeerAuth oC \<and> \<not> peerAuthRequired verifyClientSide tC
    | Some cert \<Rightarrow> h_certDER h \<noteq> [] \<and> peer_proven c x (roots_of verifyClientSide tC) (name_of verifyClientSide tC) tC
        (serverSignaturePayload cH h) h cert"
    using c(4) unfolding verifyHello_iff .
  moreover have "case ss_peerCert s' of
      None \<Rightarrow> h_certDER h' = [] \<and> \<not> op_RequirePeerAuth oS \<and> \<not> peerAuthRequired verifyServerSide tS
    | Some cert \<Rightarrow> h_certDER h' \<noteq> [] \<and> peer_proven c' x' (roots_of verifyServerSide tS) (name_of verifyServerSide tS) tS
        (clientSignaturePayload h') h' cert"
    using d(2) unfolding verifyHello_iff .
  ultimately show ?thesis
    using c(1-3) d(1) unfolding sides req by (intro conjI exI [of _ cH] exI [of _ own] exI [of _ h] exI [of _ h'])
qed

section \<open>Bypassing the handshake\<close>

definition firstPeerEndpointEncryption :: "string list \<Rightarrow> string" where
  "firstPeerEndpointEncryption encryptions =
     (case find (\<lambda>e. TrimSpace e \<noteq> []) encryptions of None \<Rightarrow> [] | Some e \<Rightarrow> NormalizeEncryptionMode e)"

definition optionsForPeer :: "hs_options \<Rightarrow> string list \<Rightarrow> hs_options" where
  "optionsForPeer options encryptions =
     (let encryption = firstPeerEndpointEncryption encryptions in
      if encryption \<noteq> [] then options\<lparr>op_Encryption := Some encryption\<rparr> else options)"

definition optionsForEndpoint :: "hs_options \<Rightarrow> string \<Rightarrow> hs_options" where
  "optionsForEndpoint options encryption =
     (if TrimSpace encryption \<noteq> [] then options\<lparr>op_Encryption := Some (NormalizeEncryptionMode encryption)\<rparr> else options)"

text \<open>The inner session may forbid the bypass and may know its peer already.\<close>

definition plaintextHandshakeBypassAllowed :: "bool \<Rightarrow> bool \<Rightarrow> hs_options \<Rightarrow> bool" where
  "plaintextHandshakeBypassAllowed bypassDisabled identityKnown options =
     (if bypassDisabled then False
      else if AnyEncrypted (requestedEncryptionPolicy options) then False
      else if op_RequirePeerAuth options then False
      else if \<not> identityKnown then False
      else True)"

definition newPlaintextBypassSession :: "sess_role \<Rightarrow> hs_options \<Rightarrow> session" where
  "newPlaintextBypassSession role options =
     \<lparr>ss_role = role, ss_sendAEAD = None, ss_recvAEAD = None, ss_sendIV = [], ss_recvIV = [],
      ss_epoch = op_Epoch options, ss_cryptoOffloaded = False,
      ss_cryptoSuite = \<lparr>cs_Name = [], cs_ID = 0, cs_KeyLen = 0, cs_NonceLen = 0, cs_KDFInfo = []\<rparr>, ss_cryptoKeySource = [],
      ss_encryptionMode = ep_Mode (requestedEncryptionPolicy options), ss_sendEncrypted = False, ss_recvEncrypted = False,
      ss_peerGeneration = None, ss_sendSeq = 0, ss_sendHeader = replicate 24 0,
      ss_recvPending = [], ss_recvPendingIndex = 0, ss_replay = newReplayWindow 65536, ss_batchRecords = False,
      ss_batchRecordsOut = 0, ss_batchPacketsOut = 0, ss_batchRecordsIn = 0, ss_batchPacketsIn = 0,
      ss_bytesSent = 0, ss_bytesRecv = 0, ss_packetsOut = 0, ss_packetsIn = 0,
      ss_clientHelloRaw = [], ss_serverHelloRaw = [], ss_cryptoPlacement = [], ss_peerCert = None, ss_tlsHandshakeOnly = False,
      ss_sent = []\<rparr>"

section \<open>A concrete handshake\<close>

definition toy_sum :: "bytes \<Rightarrow> u8" where "toy_sum b = fold (+) b 0"

definition toy_crypto :: crypto where
  "toy_crypto = \<lparr>cr_sha256 = (\<lambda>b. replicate 32 (toy_sum b)), cr_hmac = (\<lambda>k m. replicate 32 (toy_sum k + toy_sum m)),
     cr_public = (\<lambda>k. replicate 32 (toy_sum k)), cr_ecdh = (\<lambda>k p. Some (replicate 32 (toy_sum k + p ! 0))),
     cr_aesgcm = (\<lambda>k. if length k \<in> {16, 24, 32} then Some toy_aead else None),
     cr_chacha = (\<lambda>k. if length k = 32 then Some toy_aead else None)\<rparr>"

definition toy_caps :: inner_caps where
  "toy_caps = \<lparr>ic_batchBuilder = True, ic_batchReceiver = True, ic_datagram = False, ic_handoffAvailable = False,
     ic_exporter = None, ic_tlsEnabled = False, ic_offload = None, ic_envBatchRecords = [], ic_envTLSHandshakeOnly = []\<rparr>"

definition toy_options :: hs_options where
  "toy_options = \<lparr>op_Epoch = 0, op_RequirePeerAuth = False, op_KeySource = Some KeySourceTrustIXX25519, op_Encryption = None,
     op_CryptoSuites = None, op_BatchRecords = None, op_TLSHandshakeOnly = None, op_DerivedEpoch = None, op_SessionGeneration = None\<rparr>"

definition toy_x509 :: x509 where
  "toy_x509 = \<lparr>xc_parse = (\<lambda>_. None), xc_ecdsaVerify = (\<lambda>_ _ _. False), xc_verify = (\<lambda>_ _ _ _. None)\<rparr>"

lemma toy_crypto_laws: "crypto_laws toy_crypto"
  by (simp add: crypto_laws_def toy_crypto_def toy_aead_correct add.commute)

lemma toy_willing: "willing toy_crypto toy_env toy_caps toy_options"
  by (simp add: willing_def toy_crypto_def toy_env_def toy_caps_def toy_options_def requestedKeySource_def normalizeKeySource_def
      KeySourceTrustIXX25519_def KeySourceAuto_def)

lemma toy_matching: "matching_policy toy_caps toy_options toy_caps toy_options"
  by (simp add: matching_policy_def toy_caps_def toy_options_def requestedEncryptionPolicy_def) code_simp

lemma toy_suite: "negotiateSuite (suiteMaskForOptions toy_options) (suiteMaskForOptions toy_options) = Inr suite_aes256"
  by code_simp

lemma toy_randoms: "length (replicate 32 3) = 32" "length (replicate 32 4) = 32"
  by simp_all

lemma toy_no_handoff: "\<not> ic_handoffAvailable toy_caps"
  by (simp add: toy_caps_def)

lemma toy_no_auth: "\<not> op_RequirePeerAuth toy_options"
  by (simp add: toy_options_def)

lemma toy_handshake:
  obtains ch sh sC sS where
    "Client toy_crypto toy_x509 toy_env toy_caps True [1] (replicate 32 3) None toy_options [Inr sh] = ([ch], HsSession sC)"
    "Server toy_crypto toy_x509 toy_env toy_caps True [2] (replicate 32 4) None toy_options [Some ch] = ([sh], HsSession sS)"
proof -
  have "cr_ecdh toy_crypto [1] (cr_public toy_crypto [2]) = Some (replicate 32 3)"
    by (simp add: toy_crypto_def toy_sum_def)
  then show thesis
    using anonymous_handshake_succeeds [OF toy_crypto_laws toy_randoms toy_willing toy_willing toy_no_handoff toy_no_auth toy_no_auth _ toy_suite]
      that by blast
qed

theorem handshake_agreement_witness:
  "\<exists>ch sh sC sS. Client toy_crypto toy_x509 toy_env toy_caps True [1] (replicate 32 3) None toy_options [Inr sh] = ([ch], HsSession sC) \<and>
    Server toy_crypto toy_x509 toy_env toy_caps True [2] (replicate 32 4) None toy_options [Some ch] = ([sh], HsSession sS) \<and>
    (\<exists>a. paired a sC sS) \<and> (\<exists>b. paired b sS sC)"
proof -
  obtain ch sh sC sS where run:
    "Client toy_crypto toy_x509 toy_env toy_caps True [1] (replicate 32 3) None toy_options [Inr sh] = ([ch], HsSession sC)"
    "Server toy_crypto toy_x509 toy_env toy_caps True [2] (replicate 32 4) None toy_options [Some ch] = ([sh], HsSession sS)"
    by (rule toy_handshake)
  with handshake_agreement [OF toy_crypto_laws toy_randoms toy_matching run] show ?thesis by blast
qed

theorem anonymous_handshake_completes_witness:
  "\<exists>ch sh sC sS. Client toy_crypto toy_x509 toy_env toy_caps True [1] (replicate 32 3) None toy_options [] = ([ch], HsPending) \<and>
    Server toy_crypto toy_x509 toy_env toy_caps True [2] (replicate 32 4) None toy_options [Some ch] = ([sh], HsSession sS) \<and>
    Client toy_crypto toy_x509 toy_env toy_caps True [1] (replicate 32 3) None toy_options [Inr sh] = ([ch], HsSession sC)"
proof -
  have "cr_ecdh toy_crypto [1] (cr_public toy_crypto [2]) = Some (replicate 32 3)"
    by (simp add: toy_crypto_def toy_sum_def)
  then show ?thesis
    by (rule anonymous_handshake_completes [OF toy_crypto_laws toy_randoms toy_willing toy_willing toy_no_handoff toy_no_auth toy_no_auth _ toy_suite])
qed

text \<open>A run in which both sides present a certificate and check it against their roots.\<close>

definition toy_pki :: x509 where
  "toy_pki = \<lparr>xc_parse = (\<lambda>b. Some [b]), xc_ecdsaVerify = (\<lambda>cert d s. cert = [5] \<and> s = [9]),
     xc_verify = (\<lambda>cert roots _ _. if cert \<in> set roots then Some [[cert]] else None)\<rparr>"

definition toy_conf :: tls_conf where
  "toy_conf = \<lparr>tc_chain = [[5]], tc_signer = Some (\<lambda>_. Some [9]), tc_RootCAs = Some [[5]], tc_ServerName = [],
     tc_ClientAuth = 4, tc_ClientCAs = Some [[5]], tc_VerifyPeerCertificate = None\<rparr>"

lemma toy_pki_accepts:
  assumes "h_certDER h = [5]" and "h_signature h = [9]"
  shows "verifyHello c toy_pki h side (Some toy_conf) options p = Inr (Some [5])"
  using assms by (cases side) (simp_all add: verifyHello_def pki_Verify_def verifyCertificateChain_def verifiedChain_def toy_pki_def toy_conf_def)

lemma toy_cert_hello:
  assumes "t \<in> {helloTypeClient, helloTypeServer}"
  shows "\<exists>st h. newHandshakeState toy_crypto k (replicate 32 r) t (Some toy_conf) toy_options (secureHelloFeatures toy_caps toy_options) =
      Inr (st, h) \<and> hs_signer st = Some (\<lambda>_. Some [9]) \<and> h_certDER h = [5] \<and> (t = helloTypeClient \<longrightarrow> h_signature h = [9])"
  by (simp add: newHandshakeState_def localCertificate_def handshake_sign_def pki_Sign_def toy_conf_def toy_options_def Let_def)

lemma toy_parses:
  assumes "newHandshakeState toy_crypto k (replicate 32 r) t tc toy_options (secureHelloFeatures toy_caps toy_options) = Inr (st, h)"
    and "h_certDER h = [5]"
    and "t \<in> {helloTypeClient, helloTypeServer}" and "h_signature (h\<lparr>h_signature := sg\<rparr>) = [9]"
  obtains raw n where "hello_encode (h\<lparr>h_signature := sg\<rparr>) = Inr raw" "parseHello raw t = Inr n" "h_certDER n = [5]" "h_signature n = [9]"
proof -
  note f = newHandshakeState_hello [OF toy_crypto_laws _ assms(1)]
  obtain raw where raw: "hello_encode (h\<lparr>h_signature := sg\<rparr>) = Inr raw"
    using assms(2,4) by (simp add: hello_encode_def Let_def)
  have "parseHello raw (h_messageType (h\<lparr>h_signature := sg\<rparr>)) =
      Inr ((h\<lparr>h_signature := sg\<rparr>)\<lparr>h_suiteMask := normalizedSuiteMask (h_suiteMask (h\<lparr>h_signature := sg\<rparr>))\<rparr>)"
    using f(1,2) assms(2,3)
    by (subst parseHello_encoded [OF raw]) (auto simp: hello_fields_def helloTypeReset_def helloTypeClient_def helloTypeServer_def)
  with f(2) raw assms(2,4) show thesis
    by (intro that [of raw "h\<lparr>h_signature := sg, h_suiteMask := normalizedSuiteMask (h_suiteMask h)\<rparr>"]) simp_all
qed

lemma toy_cert_handshake:
  obtains ch sh sC sS where
    "Client toy_crypto toy_pki toy_env toy_caps True [1] (replicate 32 3) (Some toy_conf) toy_options [Inr sh] = ([ch], HsSession sC)"
    "Server toy_crypto toy_pki toy_env toy_caps True [2] (replicate 32 4) (Some toy_conf) toy_options [Some ch] = ([sh], HsSession sS)"
proof -
  obtain stC cH where C: "newHandshakeState toy_crypto [1] (replicate 32 3) helloTypeClient (Some toy_conf) toy_options
      (secureHelloFeatures toy_caps toy_options) = Inr (stC, cH)" "h_certDER cH = [5]" "h_signature cH = [9]"
    using toy_cert_hello [of helloTypeClient "[1]" 3] by auto
  obtain stS sH where S: "newHandshakeState toy_crypto [2] (replicate 32 4) helloTypeServer (Some toy_conf) toy_options
      (secureHelloFeatures toy_caps toy_options) = Inr (stS, sH)" "hs_signer stS = Some (\<lambda>_. Some [9])" "h_certDER sH = [5]"
    using toy_cert_hello [of helloTypeServer "[2]" 4] by auto
  have same: "cH\<lparr>h_signature := [9]\<rparr> = cH" using C(3) by (cases cH) simp
  obtain ch cN where c: "hello_encode cH = Inr ch" "parseHello ch helloTypeClient = Inr cN" "h_certDER cN = [5]" "h_signature cN = [9]"
    by (rule toy_parses [OF C(1,2), of "[9]"]) (simp_all add: same C(3))
  obtain sh sN where s: "hello_encode (sH\<lparr>h_signature := [9]\<rparr>) = Inr sh" "parseHello sh helloTypeServer = Inr sN" "h_certDER sN = [5]" "h_signature sN = [9]"
    by (rule toy_parses [OF S(1,3), of "[9]"]) simp_all
  have sign: "handshake_sign toy_crypto stS p = Inr [9]" for p using S(2) by (simp add: handshake_sign_def pki_Sign_def)
  have dh: "cr_ecdh toy_crypto [1] (cr_public toy_crypto [2]) = Some (replicate 32 3)" by (simp add: toy_crypto_def toy_sum_def)
  show thesis
    using handshake_succeeds [OF toy_crypto_laws toy_randoms toy_willing toy_willing toy_no_handoff dh toy_suite C(1) c(1,2) S(1) sign s(1,2)
        toy_pki_accepts [OF s(3,4)] toy_pki_accepts [OF c(3,4)]] that by blast
qed

theorem session_authenticates_peer_witness:
  "\<exists>ch sh sC sS. Client toy_crypto toy_pki toy_env toy_caps True [1] (replicate 32 3) (Some toy_conf) toy_options [Inr sh] = ([ch], HsSession sC) \<and>
    Server toy_crypto toy_pki toy_env toy_caps True [2] (replicate 32 4) (Some toy_conf) toy_options [Some ch] = ([sh], HsSession sS) \<and>
    ss_peerCert sC = Some [5] \<and> ss_peerCert sS = Some [5]"
proof -
  obtain ch sh sC sS where run:
    "Client toy_crypto toy_pki toy_env toy_caps True [1] (replicate 32 3) (Some toy_conf) toy_options [Inr sh] = ([ch], HsSession sC)"
    "Server toy_crypto toy_pki toy_env toy_caps True [2] (replicate 32 4) (Some toy_conf) toy_options [Some ch] = ([sh], HsSession sS)"
    by (rule toy_cert_handshake)
  have "tc_RootCAs toy_conf \<noteq> None" "tc_ClientCAs toy_conf \<noteq> None" by (simp_all add: toy_conf_def)
  moreover have "peer_proven c toy_pki roots name t p h cert \<Longrightarrow> cert = [5]" for c roots name t p h cert
    by (auto simp: peer_proven_def toy_pki_def)
  ultimately have "ss_peerCert sC = Some [5] \<and> ss_peerCert sS = Some [5]"
    using session_authenticates_peer [OF run] by (cases "ss_peerCert sC"; cases "ss_peerCert sS") fastforce+
  with run show ?thesis by blast
qed

theorem hkdfExpand_returns_rfc5869_witness:
  "hkdfExpand toy_crypto [1] [2] 20 = Some (replicate 20 4)"
proof -
  have "length (cr_hmac toy_crypto k m) = 32" for k m by (simp add: toy_crypto_def)
  then have "hkdfExpand toy_crypto [1] [2] 20 = Some (take 20 (hkdf_blocks (cr_hmac toy_crypto) [1] [2] ((20 + 31) div 32)))"
    by (rule hkdfExpand_returns_rfc5869)
  also have "take 20 (hkdf_blocks (cr_hmac toy_crypto) [1] [2] ((20 + 31) div 32)) = replicate 20 4"
    by (simp add: hkdf_blocks_def toy_crypto_def toy_sum_def)
  finally show ?thesis .
qed

theorem handoff_completes_witness:
  "let step = completeTLSDataPlaneHandoff toy_crypto toy_env (toy_caps\<lparr>ic_handoffAvailable := True\<rparr>) True;
       sC = toy_session\<lparr>ss_replay := newReplayWindow 65536\<rparr>; sS = toy_session\<lparr>ss_replay := newReplayWindow 65536, ss_role := ServerRole\<rparr>
   in \<exists>toS toC tC tS. (handoff_round step step sC sS ^^ 5) ([], []) = (toS, toC) \<and>
     step sC (map Some toC) = (tC, [], HsDone) \<and> ss_sent tC = toS \<and> step sS (map Some toS) = (tS, [], HsDone) \<and> ss_sent tS = toC"
proof -
  let ?sC = "toy_session\<lparr>ss_replay := newReplayWindow 65536\<rparr>" and ?sS = "toy_session\<lparr>ss_replay := newReplayWindow 65536, ss_role := ServerRole\<rparr>"
  have p: "paired toy_aead ?sC ?sS" "paired toy_aead ?sS ?sC"
    using toy_session_paired by (simp_all add: paired_def sealing_def)
  have r: "ss_role toy_session = ClientRole" by (simp add: toy_session_def initDataHeader_def Let_def)
  have f: "fresh_session ?sC" "fresh_session ?sS"
    using toy_session_paired toy_session_fields(1,2,4) by (simp_all add: fresh_session_def paired_def sealing_def no_pending_def)
  have send: "ie_send toy_env q" for q by (simp add: toy_env_def)
  show ?thesis
    unfolding Let_def
    using handoff_completes [OF p f _ _ _ _ send send, of "toy_caps\<lparr>ic_handoffAvailable := True\<rparr>" "toy_caps\<lparr>ic_handoffAvailable := True\<rparr>" toy_crypto]
    by (simp add: r) blast
qed

end
