(* ===== verification/ConfigLog.thy ===== *)
theory ConfigLog
  imports GoStrings "HOL-Library.AList" "HOL-Library.List_Lexorder" "HOL-Library.Char_ord"
    "HOL-Library.Product_Lexorder"
begin

text \<open>
  The signed append-only configuration log of \<^verbatim>\<open>internal/configlog\<close>: events and their
  canonical hash (\<^verbatim>\<open>event.go\<close>), the in-memory store (\<^verbatim>\<open>memory.go\<close>), the file-backed store
  with its atomic replacement and backups (\<^verbatim>\<open>file.go\<close>) and the commit error
  (\<^verbatim>\<open>commit_error.go\<close>).

  JSON encoding and SHA-256 are arguments: the record \<open>json\<close> holds the encoder of the
  canonical struct, the stream encoder of an event and the stream decoder, and \<open>sha\<close> is the
  digest.  The operating system is an argument too: a file system is an association list
  from names to files, and one record per function says which system calls fail.  Mutexes
  are not modelled: every operation holds the lock of its store from its first read to its
  last write, so operations are atomic steps.
\<close>

section \<open>Events (event.go, core/types.go)\<close>

text \<open>
  A \<^verbatim>\<open>time.Time\<close> is its instant, in nanoseconds since the zero time, and the offset of its
  location; both are part of the JSON form.
\<close>

record gotime =
  tm_instant :: int
  tm_offset :: int

definition IsZero :: "gotime \<Rightarrow> bool" where
  "IsZero t \<longleftrightarrow> tm_instant t = 0"

text \<open>
  A \<^verbatim>\<open>[]byte\<close> field is \<open>None\<close> when it is nil: JSON writes \<^verbatim>\<open>null\<close> for it, and a string for an
  empty slice.  A list of proofs is left out of the JSON form when it is nil or empty.
\<close>

type_synonym byteSlice = "bytes option"

definition slice_len :: "byteSlice \<Rightarrow> nat" where
  "slice_len s = (case s of None \<Rightarrow> 0 | Some bs \<Rightarrow> length bs)"

record AdminProof =
  ap_SignerID :: string
  ap_Certificate :: byteSlice
  ap_Method :: string
  ap_RequestURI :: string
  ap_BodySHA256 :: string
  ap_Timestamp :: gotime
  ap_Signature :: byteSlice

record Event =
  ev_DomainID :: string
  ev_EventID :: string
  ev_Seq :: u64
  ev_PrevHash :: string
  ev_Resource :: string
  ev_Action :: string
  ev_Payload :: byteSlice
  ev_SignerID :: string
  ev_Signature :: byteSlice
  ev_CreatedAt :: gotime
  ev_EffectiveAt :: gotime
  ev_AdminProofs :: "AdminProof list"

definition ActionCreate :: string where "ActionCreate = ''create''"
definition ActionUpsert :: string where "ActionUpsert = ''upsert''"
definition ActionDelete :: string where "ActionDelete = ''delete''"

record Head =
  hd_Seq :: u64
  hd_Hash :: string

datatype conflict = SeqConflict u64 u64 | FirstHasPrevHash | PrevHashMismatch

text \<open>
  Errors.  \<open>Wrap\<close> is \<^verbatim>\<open>fmt.Errorf\<close> with the verb \<^verbatim>\<open>%w\<close>, \<open>Opaque\<close> the same with \<^verbatim>\<open>%v\<close> (the
  cause is only printed), \<open>Join\<close> is \<^verbatim>\<open>errors.Join\<close>, \<open>CommitError\<close> the type of the same name.
\<close>

datatype log_error =
    Required string | SeqRequired | PrevHashRequired u64 | UnsupportedAction string
  | SignatureRequired | CreatedAtRequired | ErrConflict conflict | JSONError
  | FromSeqRequired | RangeReversed u64 u64 | RangeBeyondHead u64 nat
  | PathRequired | OSError string | CommitError log_error
  | Wrap string log_error | Opaque string log_error | Join log_error log_error

definition validateNonEmpty :: "string \<Rightarrow> string \<Rightarrow> log_error option" where
  "validateNonEmpty name val = (if TrimSpace val = '''' then Some (Required name) else None)"

definition DomainID_Validate :: "string \<Rightarrow> log_error option" where
  "DomainID_Validate = validateNonEmpty ''domain id''"

definition EventID_Validate :: "string \<Rightarrow> log_error option" where
  "EventID_Validate = validateNonEmpty ''event id''"

definition SignerID_Validate :: "string \<Rightarrow> log_error option" where
  "SignerID_Validate = validateNonEmpty ''signer id''"

definition ResourcePath_Validate :: "string \<Rightarrow> log_error option" where
  "ResourcePath_Validate = validateNonEmpty ''resource path''"

definition ValidateBasic :: "Event \<Rightarrow> log_error option" where
  "ValidateBasic ev =
    (case DomainID_Validate (ev_DomainID ev) of Some err \<Rightarrow> Some err | None \<Rightarrow>
    (case EventID_Validate (ev_EventID ev) of Some err \<Rightarrow> Some err | None \<Rightarrow>
     if ev_Seq ev = 0 then Some SeqRequired
     else if 1 < ev_Seq ev \<and> ev_PrevHash ev = '''' then Some (PrevHashRequired (ev_Seq ev))
     else (case ResourcePath_Validate (ev_Resource ev) of Some err \<Rightarrow> Some err | None \<Rightarrow>
       if ev_Action ev \<noteq> ActionCreate \<and> ev_Action ev \<noteq> ActionUpsert \<and> ev_Action ev \<noteq> ActionDelete
       then Some (UnsupportedAction (ev_Action ev))
       else (case SignerID_Validate (ev_SignerID ev) of Some err \<Rightarrow> Some err | None \<Rightarrow>
         if slice_len (ev_Signature ev) = 0 then Some SignatureRequired
         else if IsZero (ev_CreatedAt ev) then Some CreatedAtRequired
         else None))))"

text \<open>The canonical struct of \<^verbatim>\<open>SigningBytes\<close>: every field but the signature.\<close>

record canonical_event =
  ce_DomainID :: string
  ce_EventID :: string
  ce_Seq :: u64
  ce_PrevHash :: string
  ce_Resource :: string
  ce_Action :: string
  ce_Payload :: byteSlice
  ce_SignerID :: string
  ce_CreatedAt :: gotime
  ce_EffectiveAt :: gotime
  ce_AdminProofs :: "AdminProof list"

definition canonical :: "Event \<Rightarrow> canonical_event" where
  "canonical ev =
    \<lparr> ce_DomainID = ev_DomainID ev, ce_EventID = ev_EventID ev, ce_Seq = ev_Seq ev,
      ce_PrevHash = ev_PrevHash ev, ce_Resource = ev_Resource ev, ce_Action = ev_Action ev,
      ce_Payload = ev_Payload ev, ce_SignerID = ev_SignerID ev, ce_CreatedAt = ev_CreatedAt ev,
      ce_EffectiveAt = ev_EffectiveAt ev, ce_AdminProofs = ev_AdminProofs ev \<rparr>"

record json =
  js_canonical :: "canonical_event \<Rightarrow> bytes option"
  js_event :: "Event \<Rightarrow> bytes option"
  js_stream :: "bytes \<Rightarrow> Event list \<times> bool"

definition SigningBytes :: "json \<Rightarrow> Event \<Rightarrow> log_error + bytes" where
  "SigningBytes J ev =
     (case js_canonical J (canonical ev) of None \<Rightarrow> Inl JSONError | Some p \<Rightarrow> Inr p)"

definition hexDigit :: "nat \<Rightarrow> char" where
  "hexDigit n = ''0123456789abcdef'' ! n"

definition EncodeToString :: "bytes \<Rightarrow> string" where
  "EncodeToString bs = concat (map (\<lambda>b. [hexDigit (unat b div 16), hexDigit (unat b mod 16)]) bs)"

definition Event_Hash :: "json \<Rightarrow> (bytes \<Rightarrow> bytes) \<Rightarrow> Event \<Rightarrow> log_error + string" where
  "Event_Hash J sha ev =
     (case SigningBytes J ev of Inl err \<Rightarrow> Inl err | Inr p \<Rightarrow> Inr (EncodeToString (sha p)))"


section \<open>The in-memory store (memory.go)\<close>

text \<open>A \<^verbatim>\<open>MemoryStore\<close> is its slice of events.\<close>

type_synonym MemoryStore = "Event list"

definition NewMemoryStore :: MemoryStore where "NewMemoryStore = []"

text \<open>
  The body of the loop of \<open>AppendBatch\<close> on the copy \<^verbatim>\<open>next\<close>, and the loop.
\<close>

definition appendStep :: "json \<Rightarrow> (bytes \<Rightarrow> bytes) \<Rightarrow> Event list \<Rightarrow> Event \<Rightarrow> log_error + Event list" where
  "appendStep J sha nxt ev =
    (case ValidateBasic ev of Some err \<Rightarrow> Inl err | None \<Rightarrow>
      let expectedSeq = word_of_nat (length nxt + 1) in
      if ev_Seq ev \<noteq> expectedSeq then Inl (ErrConflict (SeqConflict expectedSeq (ev_Seq ev)))
      else if length nxt = 0 then
        (if ev_PrevHash ev \<noteq> '''' then Inl (ErrConflict FirstHasPrevHash) else Inr (nxt @ [ev]))
      else (case Event_Hash J sha (nxt ! (length nxt - 1)) of Inl err \<Rightarrow> Inl err
        | Inr prevHash \<Rightarrow>
          if ev_PrevHash ev \<noteq> prevHash then Inl (ErrConflict PrevHashMismatch)
          else Inr (nxt @ [ev])))"

fun appendLoop :: "json \<Rightarrow> (bytes \<Rightarrow> bytes) \<Rightarrow> Event list \<Rightarrow> Event list \<Rightarrow> log_error + Event list" where
  "appendLoop J sha nxt [] = Inr nxt"
| "appendLoop J sha nxt (ev # evs) =
     (case appendStep J sha nxt ev of Inl err \<Rightarrow> Inl err | Inr nxt' \<Rightarrow> appendLoop J sha nxt' evs)"

definition MemoryStore_AppendBatch ::
  "json \<Rightarrow> (bytes \<Rightarrow> bytes) \<Rightarrow> Event list \<Rightarrow> MemoryStore \<Rightarrow> MemoryStore \<times> log_error option" where
  "MemoryStore_AppendBatch J sha evs store =
    (if length evs = 0 then (store, None)
     else (case appendLoop J sha store evs of
         Inl err \<Rightarrow> (store, Some err)
       | Inr nxt \<Rightarrow> (nxt, None)))"

definition MemoryStore_Append ::
  "json \<Rightarrow> (bytes \<Rightarrow> bytes) \<Rightarrow> Event \<Rightarrow> MemoryStore \<Rightarrow> MemoryStore \<times> log_error option" where
  "MemoryStore_Append J sha ev store = MemoryStore_AppendBatch J sha [ev] store"

definition MemoryStore_ReplaceAll ::
  "json \<Rightarrow> (bytes \<Rightarrow> bytes) \<Rightarrow> Event list \<Rightarrow> MemoryStore \<Rightarrow> MemoryStore \<times> log_error option" where
  "MemoryStore_ReplaceAll J sha evs store =
    (case MemoryStore_AppendBatch J sha evs NewMemoryStore of
       (_, Some err) \<Rightarrow> (store, Some err)
     | (nxt, None) \<Rightarrow> (nxt, None))"

definition MemoryStore_Head :: "json \<Rightarrow> (bytes \<Rightarrow> bytes) \<Rightarrow> MemoryStore \<Rightarrow> log_error + Head" where
  "MemoryStore_Head J sha store =
    (if length store = 0 then Inr \<lparr> hd_Seq = 0, hd_Hash = '''' \<rparr>
     else let final = store ! (length store - 1) in
       (case Event_Hash J sha final of Inl err \<Rightarrow> Inl err
        | Inr h \<Rightarrow> Inr \<lparr> hd_Seq = ev_Seq final, hd_Hash = h \<rparr>))"

text \<open>The loop of \<open>Range\<close> indexes the slice with \<^verbatim>\<open>seq-1\<close> for each \<^verbatim>\<open>seq\<close> from \<open>a\<close> to \<open>b\<close>.\<close>

definition MemoryStore_Range :: "u64 \<Rightarrow> u64 \<Rightarrow> MemoryStore \<Rightarrow> log_error + Event list" where
  "MemoryStore_Range fromSeq toSeq store =
    (if fromSeq = 0 then Inl FromSeqRequired
     else if toSeq < fromSeq then Inl (RangeReversed toSeq fromSeq)
     else if word_of_nat (length store) < toSeq then Inl (RangeBeyondHead toSeq (length store))
     else Inr (map (\<lambda>s. store ! (s - 1)) [unat fromSeq ..< Suc (unat toSeq)]))"

definition MemoryStore_snapshot :: "MemoryStore \<Rightarrow> Event list" where
  "MemoryStore_snapshot store = store"


section \<open>Commit errors (commit_error.go)\<close>

text \<open>\<^verbatim>\<open>errors.As\<close> follows \<^verbatim>\<open>%w\<close> and \<^verbatim>\<open>errors.Join\<close>, and stops at a \<open>CommitError\<close>.\<close>

fun CommitSucceeded :: "log_error \<Rightarrow> bool" where
  "CommitSucceeded (CommitError _) = True"
| "CommitSucceeded (Wrap _ err) = CommitSucceeded err"
| "CommitSucceeded (Join a b) = (CommitSucceeded a \<or> CommitSucceeded b)"
| "CommitSucceeded _ = False"


section \<open>The file-backed store (file.go)\<close>

text \<open>
  A file system maps names to directories and files, with their modification times and the
  content of files.
\<close>

datatype fnode = FDir int | FFile bytes int

type_synonym fsys = "(string \<times> fnode) list"

fun isDir :: "fnode option \<Rightarrow> bool" where
  "isDir (Some (FDir _)) = True"
| "isDir _ = False"

fun modTime :: "fnode option \<Rightarrow> int" where
  "modTime (Some (FDir t)) = t"
| "modTime (Some (FFile _ t)) = t"
| "modTime None = 0"

text \<open>
  The temporary file of \<^verbatim>\<open>os.CreateTemp(dir, "."+base+".*.tmp")\<close>: the star is replaced by a
  random string.
\<close>

definition tempName :: "string \<Rightarrow> string \<Rightarrow> string" where
  "tempName path rnd =
    (let base = rev (takeWhile (\<lambda>c. c \<noteq> CHR ''/'') (rev path));
         dir = take (length path - length base) path
     in dir @ ''.'' @ base @ ''.'' @ rnd @ ''.tmp'')"

text \<open>
  The outcome of each system call of \<open>writeFileAtomic\<close>; a flag is true when the call
  succeeds.  \<open>we_write = Some k\<close> is a write that fails after \<open>k\<close> bytes, \<open>we_close'\<close> is the
  deferred close.
\<close>

record write_env =
  we_now :: int
  we_mkdir :: bool
  we_temp :: "string option"
  we_write :: "nat option"
  we_chmod :: bool
  we_sync :: bool
  we_close :: bool
  we_rename :: bool
  we_syncdir :: bool
  we_close' :: bool
  we_remove :: bool

text \<open>The deferred function on the paths where \<^verbatim>\<open>tmp\<close> is still set.\<close>

definition discardTemp ::
  "write_env \<Rightarrow> bool \<Rightarrow> string \<Rightarrow> fsys \<Rightarrow> log_error \<Rightarrow> fsys \<times> bool \<times> log_error option" where
  "discardTemp E closed tmp fs err =
    (let err1 = (if \<not> closed \<and> \<not> we_close' E then Join err (OSError ''close temporary file'') else err)
     in if we_remove E then (AList.delete tmp fs, False, Some err1)
        else (fs, False, Some (Join err1 (OSError ''remove temporary file''))))"

definition writeFileAtomic ::
  "write_env \<Rightarrow> string \<Rightarrow> bytes \<Rightarrow> fsys \<Rightarrow> fsys \<times> bool \<times> log_error option" where
  "writeFileAtomic E path contents fs =
    (if \<not> we_mkdir E then (fs, False, Some (OSError ''create directory''))
     else (case we_temp E of None \<Rightarrow> (fs, False, Some (OSError ''create temporary file''))
     | Some rnd \<Rightarrow>
       let tmp = tempName path rnd in
       if map_of fs tmp \<noteq> None then (fs, False, Some (OSError ''create temporary file''))
       else (case we_write E of
         Some k \<Rightarrow> discardTemp E False tmp (AList.update tmp (FFile (take k contents) (we_now E)) fs)
                     (OSError ''write temporary file'')
       | None \<Rightarrow>
         let fs1 = AList.update tmp (FFile contents (we_now E)) fs in
         if \<not> we_chmod E then discardTemp E False tmp fs1 (OSError ''chmod temporary file'')
         else if \<not> we_sync E then discardTemp E False tmp fs1 (OSError ''sync temporary file'')
         else if \<not> we_close E then discardTemp E True tmp fs1 (OSError ''close temporary file'')
         else if \<not> we_rename E \<or> isDir (map_of fs1 path)
         then discardTemp E True tmp fs1 (OSError ''rename temporary file'')
         else
           let fs2 = AList.update path (FFile contents (we_now E)) (AList.delete tmp fs1) in
           if \<not> we_syncdir E then (fs2, True, Some (CommitError (OSError ''sync directory'')))
           else (fs2, True, None))))"

fun encodeEvents :: "json \<Rightarrow> Event list \<Rightarrow> log_error + bytes" where
  "encodeEvents J [] = Inr []"
| "encodeEvents J (ev # evs) =
     (case js_event J ev of None \<Rightarrow> Inl (Wrap ''encode config event'' JSONError)
      | Some p \<Rightarrow> (case encodeEvents J evs of Inl err \<Rightarrow> Inl err | Inr ps \<Rightarrow> Inr (p @ ps)))"

subsection \<open>Backups\<close>

text \<open>
  \<^verbatim>\<open>filepath.Glob(path + ".backup.*")\<close> for a path without pattern characters: the names that
  extend the literal part within the same directory, in lexical order.  \<open>BackupFiles\<close> sorts
  them by modification time and then by name; every listed file can be examined.
\<close>

definition globBackups :: "string \<Rightarrow> fsys \<Rightarrow> string list" where
  "globBackups path fs =
    (let lit = path @ ''.backup.'' in
     sort (filter (\<lambda>n. is_prefix lit n \<and> CHR ''/'' \<notin> set (drop (length lit) n)) (map fst fs)))"

definition BackupFiles :: "string \<Rightarrow> fsys \<Rightarrow> string list" where
  "BackupFiles path fs =
    (if path = '''' then []
     else sort_key (\<lambda>n. (modTime (map_of fs n), n)) (globBackups path fs))"

definition DefaultBackupKeep :: int where "DefaultBackupKeep = 16"

definition BackupKeepFromEnv :: "string \<Rightarrow> int" where
  "BackupKeepFromEnv val =
    (let raw = TrimSpace val in
     if raw = '''' then DefaultBackupKeep
     else if ToLower raw \<in> set [''0'', ''off'', ''false'', ''no'', ''disabled''] then 0
     else (case Atoi raw of None \<Rightarrow> DefaultBackupKeep
       | Some keep \<Rightarrow> if keep < 0 then DefaultBackupKeep else keep))"

text \<open>
  \<open>pruneLoop rm protected removeCount backups fs\<close> is the loop of \<open>pruneBackups\<close>; \<open>rm name\<close>
  says whether removing \<open>name\<close> succeeds.
\<close>

fun pruneLoop ::
  "(string \<Rightarrow> bool) \<Rightarrow> string \<Rightarrow> nat \<Rightarrow> string list \<Rightarrow> fsys \<Rightarrow> fsys \<times> log_error option" where
  "pruneLoop rm protected removeCount [] fs = (fs, None)"
| "pruneLoop rm protected removeCount (backup # backups) fs =
    (if removeCount = 0 then (fs, None)
     else if protected \<noteq> '''' \<and> backup = protected then pruneLoop rm protected removeCount backups fs
     else if \<not> rm backup then (fs, Some (Wrap ''prune config log backup'' (OSError ''remove'')))
     else pruneLoop rm protected (removeCount - 1) backups (AList.delete backup fs))"

definition pruneBackups ::
  "(string \<Rightarrow> bool) \<Rightarrow> string \<Rightarrow> int \<Rightarrow> string \<Rightarrow> fsys \<Rightarrow> fsys \<times> log_error option" where
  "pruneBackups rm path keep protected fs =
    (if path = '''' \<or> keep \<le> 0 then (fs, None)
     else let backups = BackupFiles path fs in
       if int (length backups) \<le> keep then (fs, None)
       else pruneLoop rm protected (length backups - nat keep) backups fs)"

definition PruneBackups :: "(string \<Rightarrow> bool) \<Rightarrow> string \<Rightarrow> int \<Rightarrow> fsys \<Rightarrow> fsys \<times> log_error option" where
  "PruneBackups rm path keep fs = pruneBackups rm path keep '''' fs"

text \<open>
  The outcome of the calls of \<open>BackupFile\<close>: \<open>be_stat\<close> and \<open>be_stat'\<close> are the failures other than
  a missing file of the two \<^verbatim>\<open>os.Stat\<close>, \<open>be_now\<close> the formatted time, \<open>be_keep\<close> the value of
  the environment variable.
\<close>

record backup_env =
  be_stat :: bool
  be_mkdir :: bool
  be_now :: string
  be_stat' :: "string \<Rightarrow> bool"
  be_read :: bool
  be_write :: write_env
  be_keep :: string
  be_remove :: "string \<Rightarrow> bool"

text \<open>
  The search for an unused name: \<^verbatim>\<open>base\<close>, then \<^verbatim>\<open>base.1\<close>, \<^verbatim>\<open>base.2\<close>, and so on.  The names are
  distinct, so the number of files plus one bounds the number of rounds
  (\<open>unusedBackupName_total\<close>).
\<close>

definition backupCandidate :: "string \<Rightarrow> nat \<Rightarrow> string" where
  "backupCandidate base i = (if i = 0 then base else base @ ''.'' @ FormatNat i)"

fun freeName :: "backup_env \<Rightarrow> string \<Rightarrow> fsys \<Rightarrow> nat \<Rightarrow> nat \<Rightarrow> (log_error + string) option" where
  "freeName E base fs i 0 = None"
| "freeName E base fs i (Suc fuel) =
    (let backup = backupCandidate base i in
     if \<not> be_stat' E backup then Some (Inl (Wrap ''stat config log backup'' (OSError ''stat'')))
     else if map_of fs backup = None then Some (Inr backup)
     else freeName E base fs (Suc i) fuel)"

definition unusedBackupName :: "backup_env \<Rightarrow> string \<Rightarrow> fsys \<Rightarrow> (log_error + string) option" where
  "unusedBackupName E base fs = freeName E base fs 0 (Suc (length fs))"

definition BackupFile :: "backup_env \<Rightarrow> string \<Rightarrow> fsys \<Rightarrow> fsys \<times> string \<times> log_error option" where
  "BackupFile E path fs =
    (if path = '''' then (fs, '''', None)
     else if \<not> be_stat E then (fs, '''', Some (Wrap ''stat config log for backup'' (OSError ''stat'')))
     else (case map_of fs path of
       None \<Rightarrow> (fs, '''', None)
     | Some (FDir _) \<Rightarrow> (fs, '''', None)
     | Some (FFile contents _) \<Rightarrow>
       if length contents = 0 then (fs, '''', None)
       else if \<not> be_mkdir E then (fs, '''', Some (Wrap ''create config log backup directory'' (OSError ''mkdir'')))
       else (case unusedBackupName E (path @ ''.backup.'' @ be_now E) fs of
         None \<Rightarrow> (fs, '''', None)
       | Some (Inl err) \<Rightarrow> (fs, '''', Some err)
       | Some (Inr backup) \<Rightarrow>
         if \<not> be_read E then (fs, '''', Some (Wrap ''read config log for backup'' (OSError ''read'')))
         else (case writeFileAtomic (be_write E) backup contents fs of
           (fs1, committed, Some err) \<Rightarrow>
             if committed then (fs1, backup, Some (Opaque ''commit config log backup'' err))
             else (fs1, '''', Some (Wrap ''write config log backup'' err))
         | (fs1, committed, None) \<Rightarrow>
             (case pruneBackups (be_remove E) path (BackupKeepFromEnv (be_keep E)) backup fs1 of
               (fs2, Some err) \<Rightarrow> (fs2, backup, Some err)
             | (fs2, None) \<Rightarrow> (fs2, backup, None))))))"


subsection \<open>Store operations\<close>

record FileStore =
  st_path :: string
  st_memory :: MemoryStore

record load_env =
  le_open :: bool
  le_close :: bool

text \<open>
  The decoding loop of \<open>load\<close>: \<open>js_stream\<close> gives the values before the first error and whether
  the stream then ended cleanly; each value is appended as it is read.
\<close>

fun loadLoop :: "json \<Rightarrow> (bytes \<Rightarrow> bytes) \<Rightarrow> Event list \<Rightarrow> bool \<Rightarrow> MemoryStore \<Rightarrow> MemoryStore \<times> log_error option" where
  "loadLoop J sha [] clean mem =
    (if clean then (mem, None) else (mem, Some (Wrap ''decode config log'' JSONError)))"
| "loadLoop J sha (ev # evs) clean mem =
    (case MemoryStore_Append J sha ev mem of
       (mem', Some err) \<Rightarrow> (mem', Some (Wrap ''validate config log'' err))
     | (mem', None) \<Rightarrow> loadLoop J sha evs clean mem')"

definition FileStore_load ::
  "json \<Rightarrow> (bytes \<Rightarrow> bytes) \<Rightarrow> load_env \<Rightarrow> fsys \<Rightarrow> FileStore \<Rightarrow> FileStore \<times> log_error option" where
  "FileStore_load J sha E fs store =
    (case map_of fs (st_path store) of
       None \<Rightarrow> (store, None)
     | Some nd \<Rightarrow>
       if \<not> le_open E then (store, Some (Wrap ''open config log'' (OSError ''open'')))
       else
         let (mem, err) =
           (case nd of FDir _ \<Rightarrow> (st_memory store, Some (Wrap ''decode config log'' (OSError ''read'')))
            | FFile contents _ \<Rightarrow> loadLoop J sha (fst (js_stream J contents)) (snd (js_stream J contents)) (st_memory store))
         in (store \<lparr> st_memory := mem \<rparr>,
             if le_close E then err
             else Some (case err of None \<Rightarrow> OSError ''close config log''
               | Some e \<Rightarrow> Join e (OSError ''close config log''))))"

definition NewFileStore ::
  "json \<Rightarrow> (bytes \<Rightarrow> bytes) \<Rightarrow> load_env \<Rightarrow> string \<Rightarrow> fsys \<Rightarrow> log_error + FileStore" where
  "NewFileStore J sha E path fs =
    (if path = '''' then Inl PathRequired
     else (case FileStore_load J sha E fs \<lparr> st_path = path, st_memory = NewMemoryStore \<rparr> of
         (_, Some err) \<Rightarrow> Inl err
       | (store, None) \<Rightarrow> Inr store))"

record store_env =
  se_mkdir :: bool
  se_backup :: backup_env
  se_write :: write_env

definition FileStore_AppendBatch ::
  "json \<Rightarrow> (bytes \<Rightarrow> bytes) \<Rightarrow> store_env \<Rightarrow> Event list \<Rightarrow> FileStore \<times> fsys \<Rightarrow> (FileStore \<times> fsys) \<times> log_error option" where
  "FileStore_AppendBatch J sha E evs st =
    (let (store, fs) = st in
     if length evs = 0 then ((store, fs), None)
     else (case MemoryStore_AppendBatch J sha evs (MemoryStore_snapshot (st_memory store)) of
         (_, Some err) \<Rightarrow> ((store, fs), Some err)
       | (nxt, None) \<Rightarrow>
         (case encodeEvents J (MemoryStore_snapshot nxt) of
           Inl err \<Rightarrow> ((store, fs), Some err)
         | Inr contents \<Rightarrow>
           (case writeFileAtomic (se_write E) (st_path store) contents fs of
             (fs', committed, err) \<Rightarrow>
               ((if committed then store \<lparr> st_memory := nxt \<rparr> else store, fs'),
                map_option (Wrap ''commit config log'') err)))))"

definition FileStore_Append ::
  "json \<Rightarrow> (bytes \<Rightarrow> bytes) \<Rightarrow> store_env \<Rightarrow> Event \<Rightarrow> FileStore \<times> fsys \<Rightarrow> (FileStore \<times> fsys) \<times> log_error option" where
  "FileStore_Append J sha E ev st = FileStore_AppendBatch J sha E [ev] st"

definition FileStore_ReplaceAll ::
  "json \<Rightarrow> (bytes \<Rightarrow> bytes) \<Rightarrow> store_env \<Rightarrow> Event list \<Rightarrow> FileStore \<times> fsys \<Rightarrow> (FileStore \<times> fsys) \<times> log_error option" where
  "FileStore_ReplaceAll J sha E evs st =
    (let (store, fs) = st in
     case MemoryStore_AppendBatch J sha evs NewMemoryStore of
       (_, Some err) \<Rightarrow> ((store, fs), Some err)
     | (nxt, None) \<Rightarrow>
       (case encodeEvents J evs of
         Inl err \<Rightarrow> ((store, fs), Some err)
       | Inr contents \<Rightarrow>
         if \<not> se_mkdir E then ((store, fs), Some (Wrap ''create config log directory'' (OSError ''mkdir'')))
         else (case BackupFile (se_backup E) (st_path store) fs of
             (fs1, _, Some err) \<Rightarrow> ((store, fs1), Some err)
           | (fs1, _, None) \<Rightarrow>
             (case writeFileAtomic (se_write E) (st_path store) contents fs1 of
               (fs2, committed, err) \<Rightarrow>
                 ((if committed then store \<lparr> st_memory := nxt \<rparr> else store, fs2),
                  map_option (Wrap ''replace config log'') err)))))"

definition FileStore_Head ::
  "json \<Rightarrow> (bytes \<Rightarrow> bytes) \<Rightarrow> FileStore \<times> fsys \<Rightarrow> log_error + Head" where
  "FileStore_Head J sha st = MemoryStore_Head J sha (st_memory (fst st))"

definition FileStore_Range :: "u64 \<Rightarrow> u64 \<Rightarrow> FileStore \<times> fsys \<Rightarrow> log_error + Event list" where
  "FileStore_Range fromSeq toSeq st = MemoryStore_Range fromSeq toSeq (st_memory (fst st))"

section \<open>The hash chain\<close>

text \<open>
  A log is well formed when every event passes \<open>ValidateBasic\<close>, carries its position as
  sequence number, and names the hash of its predecessor; the first names none.
\<close>

definition log_link :: "json \<Rightarrow> (bytes \<Rightarrow> bytes) \<Rightarrow> Event list \<Rightarrow> Event \<Rightarrow> bool" where
  "log_link J sha before ev \<longleftrightarrow>
     ValidateBasic ev = None \<and> ev_Seq ev = word_of_nat (Suc (length before)) \<and>
     (if before = [] then ev_PrevHash ev = ''''
      else Event_Hash J sha (last before) = Inr (ev_PrevHash ev))"

definition log_chain :: "json \<Rightarrow> (bytes \<Rightarrow> bytes) \<Rightarrow> Event list \<Rightarrow> bool" where
  "log_chain J sha es \<longleftrightarrow> (\<forall>i < length es. log_link J sha (take i es) (es ! i))"

lemma log_chain_Nil [simp]: "log_chain J sha []"
  by (simp add: log_chain_def)

lemma log_chain_snoc: "log_chain J sha (es @ [e]) \<longleftrightarrow> log_chain J sha es \<and> log_link J sha es e"
  by (auto simp: log_chain_def less_Suc_eq nth_append)

lemma log_chain_append: "log_chain J sha (es @ fs) \<Longrightarrow> log_chain J sha es"
  by (induction fs rule: rev_induct) (simp_all add: log_chain_snoc flip: append_assoc)

lemma appendStep_iff: "appendStep J sha nxt ev = Inr r \<longleftrightarrow> r = nxt @ [ev] \<and> log_link J sha nxt ev"
  by (auto simp: appendStep_def log_link_def Let_def last_conv_nth split: option.splits sum.splits)

lemma appendLoop_iff:
  "log_chain J sha nxt \<Longrightarrow>
   appendLoop J sha nxt evs = Inr r \<longleftrightarrow> r = nxt @ evs \<and> log_chain J sha (nxt @ evs)"
proof (induction evs arbitrary: nxt)
  case Nil
  then show ?case by auto
next
  case (Cons ev evs)
  show ?case
  proof (cases "appendStep J sha nxt ev")
    case (Inl err)
    then have "\<not> log_link J sha nxt ev" by (metis Inl_Inr_False appendStep_iff)
    then have "\<not> log_chain J sha (nxt @ ev # evs)"
      using log_chain_append [of J sha "nxt @ [ev]" evs] by (auto simp: log_chain_snoc)
    with Inl show ?thesis by simp
  next
    case (Inr nxt')
    then have "nxt' = nxt @ [ev]" "log_chain J sha nxt'"
      using Cons.prems by (simp_all add: appendStep_iff log_chain_snoc)
    with Inr Cons.IH [of nxt'] show ?thesis by simp
  qed
qed

lemma appendLoop_Inr: "log_chain J sha nxt \<Longrightarrow> appendLoop J sha nxt evs = Inr r \<Longrightarrow> r = nxt @ evs \<and> log_chain J sha r"
  by (simp add: appendLoop_iff)

lemma MemoryStore_AppendBatch_cases:
  obtains (failed) err where "MemoryStore_AppendBatch J sha evs store = (store, Some err)"
      "appendLoop J sha store evs = Inl err"
  | (ok) nxt where "MemoryStore_AppendBatch J sha evs store = (nxt, None)"
      "appendLoop J sha store evs = Inr nxt"
proof (cases "appendLoop J sha store evs")
  case (Inl err)
  then have "evs \<noteq> []" by auto
  with Inl that show ?thesis by (auto simp: MemoryStore_AppendBatch_def)
next
  case (Inr nxt)
  then have "MemoryStore_AppendBatch J sha evs store = (nxt, None)"
    by (cases evs) (auto simp: MemoryStore_AppendBatch_def split: sum.splits)
  with Inr that show ?thesis by blast
qed

lemma appendStep_error: "appendStep J sha nxt ev = Inl err \<Longrightarrow> \<not> CommitSucceeded err"
  by (auto simp: appendStep_def ValidateBasic_def DomainID_Validate_def EventID_Validate_def
      SignerID_Validate_def ResourcePath_Validate_def validateNonEmpty_def Let_def Event_Hash_def
      SigningBytes_def split: option.splits sum.splits if_splits)

lemma appendLoop_error: "appendLoop J sha nxt evs = Inl err \<Longrightarrow> \<not> CommitSucceeded err"
  by (induction evs arbitrary: nxt) (auto dest: appendStep_error split: sum.splits)


section \<open>The Store interface\<close>

text \<open>
  What \<^verbatim>\<open>Store\<close> promises of its two updates: without an error, or with an error that wraps a
  \<open>CommitError\<close>, the new log is the accepted one; with any other error the log is unchanged.
\<close>

locale config_store =
  fixes J :: json and sha :: "bytes \<Rightarrow> bytes"
    and append_batch :: "'env \<Rightarrow> Event list \<Rightarrow> 's \<Rightarrow> 's \<times> log_error option"
    and replace_all :: "'env \<Rightarrow> Event list \<Rightarrow> 's \<Rightarrow> 's \<times> log_error option"
    and log :: "'s \<Rightarrow> Event list"
  assumes append_batch: "append_batch E evs s = (s', r) \<Longrightarrow>
      (if r = None \<or> CommitSucceeded (the r) then appendLoop J sha (log s) evs = Inr (log s')
       else log s' = log s)"
    and replace_all: "replace_all E evs s = (s', r) \<Longrightarrow>
      (if r = None \<or> CommitSucceeded (the r) then appendLoop J sha [] evs = Inr (log s')
       else log s' = log s)"

datatype 'env store_op = AppendOp 'env "Event list" | ReplaceOp 'env "Event list"

fun store_step ::
  "('env \<Rightarrow> Event list \<Rightarrow> 's \<Rightarrow> 's \<times> log_error option) \<Rightarrow> ('env \<Rightarrow> Event list \<Rightarrow> 's \<Rightarrow> 's \<times> log_error option) \<Rightarrow>
   'env store_op \<Rightarrow> 's \<Rightarrow> 's \<times> log_error option" where
  "store_step ab ra (AppendOp E evs) s = ab E evs s"
| "store_step ab ra (ReplaceOp E evs) s = ra E evs s"

definition store_run ::
  "('env \<Rightarrow> Event list \<Rightarrow> 's \<Rightarrow> 's \<times> log_error option) \<Rightarrow> ('env \<Rightarrow> Event list \<Rightarrow> 's \<Rightarrow> 's \<times> log_error option) \<Rightarrow>
   'env store_op list \<Rightarrow> 's \<Rightarrow> 's" where
  "store_run ab ra ops s = fold (\<lambda>op s. fst (store_step ab ra op s)) ops s"

fun is_append :: "'env store_op \<Rightarrow> bool" where
  "is_append (AppendOp _ _) = True"
| "is_append (ReplaceOp _ _) = False"

context config_store
begin

lemma step_chain:
  assumes "log_chain J sha (log s)"
  shows "log_chain J sha (log (fst (store_step append_batch replace_all op s)))"
proof (cases op)
  case (AppendOp E evs)
  obtain s' r where "append_batch E evs s = (s', r)" by fastforce
  with append_batch [OF this] assms AppendOp show ?thesis
    by (auto dest: appendLoop_Inr [OF assms] split: if_splits)
next
  case (ReplaceOp E evs)
  obtain s' r where "replace_all E evs s = (s', r)" by fastforce
  with replace_all [OF this] assms ReplaceOp show ?thesis
    by (auto dest: appendLoop_Inr [OF log_chain_Nil] split: if_splits)
qed

lemma step_append_only:
  assumes "log_chain J sha (log s)" and "is_append op"
  shows "\<exists>new. log (fst (store_step append_batch replace_all op s)) = log s @ new"
proof (cases op)
  case (AppendOp E evs)
  obtain s' r where "append_batch E evs s = (s', r)" by fastforce
  with append_batch [OF this] AppendOp show ?thesis
    by (auto dest: appendLoop_Inr [OF assms(1)] split: if_splits)
qed (use assms(2) in simp)

lemma run_chain:
  "log_chain J sha (log s) \<Longrightarrow> log_chain J sha (log (store_run append_batch replace_all ops s))"
  by (induction ops arbitrary: s) (auto simp: store_run_def step_chain)

lemma run_append_only:
  assumes "log_chain J sha (log s)" and "\<forall>op \<in> set ops. is_append op"
  shows "\<exists>new. log (store_run append_batch replace_all ops s) = log s @ new"
  using assms
proof (induction ops arbitrary: s)
  case Nil
  then show ?case by (simp add: store_run_def)
next
  case (Cons op ops)
  let ?s = "fst (store_step append_batch replace_all op s)"
  from Cons.prems have "\<exists>new. log ?s = log s @ new" by (intro step_append_only) simp_all
  moreover have "\<exists>new. log (store_run append_batch replace_all ops ?s) = log ?s @ new"
    using Cons.prems by (intro Cons.IH) (simp_all add: step_chain)
  ultimately show ?case by (auto simp: store_run_def)
qed

end

interpretation memory_store: config_store J sha "\<lambda>_ :: unit. MemoryStore_AppendBatch J sha"
  "\<lambda>_. MemoryStore_ReplaceAll J sha" "\<lambda>store. store" for J sha
proof unfold_locales
  fix evs s s' r
  show "if r = None \<or> CommitSucceeded (the r) then appendLoop J sha s evs = Inr s' else s' = s"
    if "MemoryStore_AppendBatch J sha evs s = (s', r)"
    using that by (cases J sha s evs rule: MemoryStore_AppendBatch_cases) (auto dest: appendLoop_error)
  show "if r = None \<or> CommitSucceeded (the r) then appendLoop J sha [] evs = Inr s' else s' = s"
    if "MemoryStore_ReplaceAll J sha evs s = (s', r)"
    using that
    by (cases J sha NewMemoryStore evs rule: MemoryStore_AppendBatch_cases)
      (auto simp: MemoryStore_ReplaceAll_def NewMemoryStore_def dest: appendLoop_error)
qed


section \<open>Atomic replacement\<close>

lemma length_tempName: "length path < length (tempName path rnd)"
proof -
  have "length (takeWhile (\<lambda>c. c \<noteq> CHR ''/'') (rev path)) \<le> length path"
    using length_takeWhile_le [of _ "rev path"] by simp
  then show ?thesis by (simp add: tempName_def Let_def)
qed

lemma tempName_neq [simp]: "tempName path rnd \<noteq> path" "path \<noteq> tempName path rnd"
  using length_tempName [of path rnd] by (metis less_irrefl)+

lemmas alist_maps = update_conv' delete_conv'

lemma discardTemp_spec:
  assumes "discardTemp E closed tmp fs err = (fs', c, r)" and "\<not> CommitSucceeded err"
  shows "\<not> c \<and> r \<noteq> None \<and> \<not> CommitSucceeded (the r) \<and> (\<forall>q. q \<noteq> tmp \<longrightarrow> map_of fs' q = map_of fs q)"
  using assms by (auto simp: discardTemp_def Let_def alist_maps split: if_splits)

lemma writeFileAtomic_cases:
  assumes "writeFileAtomic E path p fs = (fs', c, r)"
  shows "(c \<longleftrightarrow> r = None \<or> CommitSucceeded (the r)) \<and>
    (if c then map_of fs' path = Some (FFile p (we_now E)) else map_of fs' path = map_of fs path) \<and>
    (\<forall>q. length q < length path \<longrightarrow> map_of fs' q = map_of fs q)"
proof (cases "c")
  case True
  with assms have "map_of fs' = (map_of fs)(tempName path (the (we_temp E)) := None, path \<mapsto> FFile p (we_now E))"
    and "r = None \<or> CommitSucceeded (the r)"
    by (auto simp: writeFileAtomic_def discardTemp_def Let_def alist_maps fun_eq_iff
        split: if_splits option.splits)
  moreover have "length q < length path \<Longrightarrow> q \<noteq> tempName path (the (we_temp E))" for q
    using length_tempName [of path "the (we_temp E)"] by auto
  ultimately show ?thesis using True by auto
next
  case False
  have "\<exists>tmp. length path < length tmp \<and> r \<noteq> None \<and> \<not> CommitSucceeded (the r) \<and>
    (\<forall>q. q \<noteq> tmp \<longrightarrow> map_of fs' q = map_of fs q)"
  proof (cases "we_temp E")
    case None
    have "length path < length (tempName path [])" by (rule length_tempName)
    with assms None False show ?thesis
      by (intro exI [of _ "tempName path []"]) (auto simp: writeFileAtomic_def split: if_splits)
  next
    case (Some rnd)
    have "length path < length (tempName path rnd)" by (rule length_tempName)
    with assms Some False show ?thesis
      by (intro exI [of _ "tempName path rnd"])
        (auto simp: writeFileAtomic_def Let_def alist_maps dest!: discardTemp_spec split: if_splits option.splits)
  qed
  with False show ?thesis by (metis less_irrefl less_trans)
qed

lemma writeFileAtomic_committed:
  "writeFileAtomic E path p fs = (fs', c, r) \<Longrightarrow> c \<longleftrightarrow> r = None \<or> CommitSucceeded (the r)"
  using writeFileAtomic_cases by blast

lemma writeFileAtomic_content:
  "writeFileAtomic E path p fs = (fs', c, r) \<Longrightarrow>
   map_of fs' path = (if c then Some (FFile p (we_now E)) else map_of fs path)"
  using writeFileAtomic_cases by (metis (full_types))

lemma writeFileAtomic_other:
  "writeFileAtomic E path p fs = (fs', c, r) \<Longrightarrow> length q < length path \<Longrightarrow> map_of fs' q = map_of fs q"
  using writeFileAtomic_cases by blast


section \<open>Backups leave the log alone\<close>

lemma set_BackupFiles: "q \<in> set (BackupFiles path fs) \<Longrightarrow> is_prefix (path @ ''.backup.'') q \<and> q \<in> set (map fst fs)"
  by (auto simp: BackupFiles_def globBackups_def Let_def split: if_splits)

lemma is_prefix_longer: "is_prefix (p @ s) q \<Longrightarrow> s \<noteq> [] \<Longrightarrow> length p < length q"
proof -
  assume "is_prefix (p @ s) q" "s \<noteq> []"
  then have "length (take (length (p @ s)) q) = length p + length s" by (simp add: is_prefix_def)
  with \<open>s \<noteq> []\<close> show ?thesis by (simp add: min_def split: if_splits)
qed

lemma pruneLoop_spec:
  assumes "pruneLoop rm protected n backups fs = (fs', r)"
  shows "(\<forall>q. q \<notin> set backups \<longrightarrow> map_of fs' q = map_of fs q) \<and> (\<forall>e. r = Some e \<longrightarrow> \<not> CommitSucceeded e)"
  using assms by (induction rm protected n backups fs rule: pruneLoop.induct)
    (auto simp: alist_maps split: if_splits)

lemma pruneBackups_spec:
  assumes "pruneBackups rm path keep protected fs = (fs', r)"
  shows "map_of fs' path = map_of fs path \<and> (\<forall>e. r = Some e \<longrightarrow> \<not> CommitSucceeded e)"
proof -
  have "path \<notin> set (BackupFiles path fs)"
    using set_BackupFiles is_prefix_longer by fastforce
  then show ?thesis
    using assms by (auto simp: pruneBackups_def Let_def dest!: pruneLoop_spec split: if_splits)
qed

lemma freeName_spec:
  assumes "freeName E base fs i fuel = Some res"
  shows "(\<exists>e. res = Inl e \<and> \<not> CommitSucceeded e) \<or> (\<exists>j. res = Inr (backupCandidate base j) \<and> map_of fs (backupCandidate base j) = None)"
  using assms by (induction fuel arbitrary: i) (auto simp: Let_def split: if_splits)

lemma length_backupCandidate: "length base \<le> length (backupCandidate base i)"
  by (simp add: backupCandidate_def)

lemma inj_backupCandidate: "inj (backupCandidate base)"
  by (auto simp: inj_def backupCandidate_def)

text \<open>The search for a free name ends within the fuel \<open>BackupFile\<close> gives it.\<close>

lemma unusedBackupName_total: "\<exists>res. unusedBackupName E base fs = Some res"
proof (rule ccontr)
  assume contra: "\<not> ?thesis"
  have none: "freeName E base fs 0 (Suc (length fs)) = None"
    using contra unfolding unusedBackupName_def not_ex option.simps(3) by (metis not_Some_eq)
  have taken: "freeName E base fs i fuel = None \<Longrightarrow> j < fuel \<Longrightarrow> backupCandidate base (i + j) \<in> dom (map_of fs)" for i j fuel
  proof (induction fuel arbitrary: i j)
    case (Suc fuel)
    then show ?case
    proof (cases j)
      case (Suc k)
      with Suc.prems Suc.IH [of "Suc i" k] show ?thesis by (auto simp: Let_def split: if_splits)
    qed (auto simp: Let_def split: if_splits)
  qed simp
  have "backupCandidate base ` {..length fs} \<subseteq> dom (map_of fs)"
    using taken [OF none] by (simp add: image_subset_iff less_Suc_eq_le)
  then have "backupCandidate base ` {..length fs} \<subseteq> fst ` set fs" by (simp add: dom_map_of_conv_image_fst)
  then have "card (backupCandidate base ` {..length fs}) \<le> card (fst ` set fs)" by (intro card_mono) simp_all
  also have "\<dots> \<le> length fs" using card_image_le [of "set fs" fst] card_length [of fs] by simp
  finally show False
    by (simp add: card_image inj_on_subset [OF inj_backupCandidate])
qed

lemma unusedBackupName_spec:
  assumes "unusedBackupName E base fs = Some res"
  shows "(\<exists>e. res = Inl e \<and> \<not> CommitSucceeded e) \<or> (\<exists>q. res = Inr q \<and> length base \<le> length q \<and> map_of fs q = None)"
  using freeName_spec assms length_backupCandidate unfolding unusedBackupName_def by metis

lemma BackupFile_spec:
  assumes "BackupFile E path fs = (fs', b, r)"
  shows "map_of fs' path = map_of fs path \<and> (\<forall>e. r = Some e \<longrightarrow> \<not> CommitSucceeded e)"
proof -
  let ?base = "path @ ''.backup.'' @ be_now E"
  consider (early) "fs' = fs \<and> (\<forall>e. r = Some e \<longrightarrow> \<not> CommitSucceeded e)"
    | (stored) contents q fs1 committed err where
        "unusedBackupName E ?base fs = Some (Inr q)"
        "writeFileAtomic (be_write E) q contents fs = (fs1, committed, err)"
        "(case err of Some e \<Rightarrow> fs' = fs1 \<and> (r = Some (Opaque ''commit config log backup'' e) \<or>
             \<not> committed \<and> r = Some (Wrap ''write config log backup'' e))
          | None \<Rightarrow> pruneBackups (be_remove E) path (BackupKeepFromEnv (be_keep E)) q fs1 = (fs', r))"
    using assms unusedBackupName_spec [of E ?base fs]
    by (fastforce simp: BackupFile_def split: if_splits option.splits fnode.splits sum.splits prod.splits)
  then show ?thesis
  proof cases
    case early
    then show ?thesis by simp
  next
    case stored
    have "length path < length q"
      using unusedBackupName_spec [OF stored(1)] by auto
    with stored(2) have "map_of fs1 path = map_of fs path" by (rule writeFileAtomic_other)
    moreover note writeFileAtomic_committed [OF stored(2)]
    ultimately show ?thesis using stored(3) by (auto dest!: pruneBackups_spec split: option.splits)
  qed
qed

section \<open>The file-backed store implements the interface\<close>

lemma encodeEvents_error: "encodeEvents J evs = Inl err \<Longrightarrow> \<not> CommitSucceeded err"
  by (induction evs) (auto split: option.splits sum.splits)

text \<open>Either nothing reaches the log file, or the file is replaced as a whole.\<close>

lemma FileStore_AppendBatch_cases:
  assumes "FileStore_AppendBatch J sha E evs (store, fs) = ((store', fs'), r)"
  obtains (rejected) "store' = store" "map_of fs' (st_path store) = map_of fs (st_path store)"
      "r = None \<longrightarrow> evs = []" "r \<noteq> None \<longrightarrow> \<not> CommitSucceeded (the r)"
  | (committed) nxt p where "appendLoop J sha (st_memory store) evs = Inr nxt"
      "encodeEvents J nxt = Inr p" "store' = store \<lparr> st_memory := nxt \<rparr>"
      "map_of fs' (st_path store) = Some (FFile p (we_now (se_write E)))"
      "r = None \<or> CommitSucceeded (the r)"
proof (cases "evs = []")
  case True
  with assms rejected show ?thesis by (simp add: FileStore_AppendBatch_def)
next
  case ne: False
  show ?thesis
  proof (cases J sha "st_memory store" evs rule: MemoryStore_AppendBatch_cases)
    case (failed err)
    with assms rejected ne appendLoop_error [OF failed(2)] show ?thesis
      by (auto simp: FileStore_AppendBatch_def MemoryStore_snapshot_def)
  next
    case (ok nxt)
    show ?thesis
    proof (cases "encodeEvents J nxt")
      case (Inl err)
      with assms rejected ne ok encodeEvents_error [OF Inl] show ?thesis
        by (auto simp: FileStore_AppendBatch_def MemoryStore_snapshot_def)
    next
      case (Inr p)
      obtain c e where w: "writeFileAtomic (se_write E) (st_path store) p fs = (fs', c, e)"
        and st: "store' = (if c then store \<lparr> st_memory := nxt \<rparr> else store)"
        and r: "r = map_option (Wrap ''commit config log'') e"
        using assms ne ok Inr
        by (auto simp: FileStore_AppendBatch_def MemoryStore_snapshot_def split: prod.splits)
      show ?thesis
        using writeFileAtomic_committed [OF w] writeFileAtomic_content [OF w] st r
          rejected committed [OF ok(2) Inr] by (cases e; cases c) auto
    qed
  qed
qed

lemma FileStore_ReplaceAll_cases:
  assumes "FileStore_ReplaceAll J sha E evs (store, fs) = ((store', fs'), r)"
  obtains (rejected) err where "store' = store" "map_of fs' (st_path store) = map_of fs (st_path store)"
      "r = Some err" "\<not> CommitSucceeded err"
  | (committed) p where "appendLoop J sha [] evs = Inr evs"
      "encodeEvents J evs = Inr p" "store' = store \<lparr> st_memory := evs \<rparr>"
      "map_of fs' (st_path store) = Some (FFile p (we_now (se_write E)))"
      "r = None \<or> CommitSucceeded (the r)"
proof (cases J sha NewMemoryStore evs rule: MemoryStore_AppendBatch_cases)
  case (failed err)
  with assms rejected appendLoop_error [OF failed(2)] show ?thesis
    by (auto simp: FileStore_ReplaceAll_def)
next
  case (ok nxt)
  then have nxt: "nxt = evs" by (auto simp: NewMemoryStore_def dest!: appendLoop_Inr [OF log_chain_Nil])
  show ?thesis
  proof (cases "encodeEvents J evs")
    case (Inl err)
    with assms rejected ok encodeEvents_error [OF Inl] show ?thesis
      by (auto simp: FileStore_ReplaceAll_def)
  next
    case (Inr p)
    show ?thesis
    proof (cases "se_mkdir E")
      case False
      with assms rejected ok Inr show ?thesis by (auto simp: FileStore_ReplaceAll_def)
    next
      case True
      obtain fs1 b e where bk: "BackupFile (se_backup E) (st_path store) fs = (fs1, b, e)"
        by (metis prod_cases3)
      show ?thesis
      proof (cases e)
        case (Some err)
        with assms rejected ok Inr True bk BackupFile_spec [OF bk] show ?thesis
          by (auto simp: FileStore_ReplaceAll_def)
      next
        case None
        obtain c e' where w: "writeFileAtomic (se_write E) (st_path store) p fs1 = (fs', c, e')"
          and st: "store' = (if c then store \<lparr> st_memory := evs \<rparr> else store)"
          and r: "r = map_option (Wrap ''replace config log'') e'"
          using assms ok Inr True bk None nxt by (auto simp: FileStore_ReplaceAll_def split: prod.splits)
        show ?thesis
          using writeFileAtomic_committed [OF w] writeFileAtomic_content [OF w] st r
            BackupFile_spec [OF bk] rejected committed [OF _ Inr] ok(2)
          by (cases e'; cases c) (auto simp: nxt NewMemoryStore_def)
      qed
    qed
  qed
qed

interpretation file_store: config_store J sha "FileStore_AppendBatch J sha" "FileStore_ReplaceAll J sha"
  "\<lambda>st. st_memory (fst st)" for J sha
proof unfold_locales
  fix E evs and s s' :: "FileStore \<times> fsys" and r
  show "if r = None \<or> CommitSucceeded (the r)
        then appendLoop J sha (st_memory (fst s)) evs = Inr (st_memory (fst s'))
        else st_memory (fst s') = st_memory (fst s)"
    if "FileStore_AppendBatch J sha E evs s = (s', r)"
    using that by (cases s; cases s') (auto elim!: FileStore_AppendBatch_cases split: if_splits)
  show "if r = None \<or> CommitSucceeded (the r)
        then appendLoop J sha [] evs = Inr (st_memory (fst s'))
        else st_memory (fst s') = st_memory (fst s)"
    if "FileStore_ReplaceAll J sha E evs s = (s', r)"
    using that by (cases s; cases s') (auto elim!: FileStore_ReplaceAll_cases split: if_splits)
qed


section \<open>What a restart finds\<close>

text \<open>
  The documented behaviour of \<^verbatim>\<open>encoding/json\<close>, on the events \<open>ok\<close> whose strings and times JSON
  can represent: a stream decoder reads back the values an encoder wrote.
\<close>

definition json_laws :: "json \<Rightarrow> (Event \<Rightarrow> bool) \<Rightarrow> bool" where
  "json_laws J ok \<longleftrightarrow>
     (\<forall>evs p. list_all ok evs \<longrightarrow> encodeEvents J evs = Inr p \<longrightarrow> js_stream J p = (evs, True))"

fun holds_log :: "json \<Rightarrow> Event list \<Rightarrow> fnode option \<Rightarrow> bool" where
  "holds_log J evs None = (evs = [])"
| "holds_log J evs (Some (FDir _)) = False"
| "holds_log J evs (Some (FFile p _)) = (encodeEvents J evs = Inr p)"

definition synced :: "json \<Rightarrow> FileStore \<times> fsys \<Rightarrow> bool" where
  "synced J st \<longleftrightarrow> holds_log J (st_memory (fst st)) (map_of (snd st) (st_path (fst st)))"

fun op_events :: "'env store_op \<Rightarrow> Event list" where
  "op_events (AppendOp _ evs) = evs"
| "op_events (ReplaceOp _ evs) = evs"

abbreviation file_step :: "json \<Rightarrow> (bytes \<Rightarrow> bytes) \<Rightarrow> store_env store_op \<Rightarrow> FileStore \<times> fsys \<Rightarrow> FileStore \<times> fsys" where
  "file_step J sha op st \<equiv> fst (store_step (FileStore_AppendBatch J sha) (FileStore_ReplaceAll J sha) op st)"

abbreviation file_run :: "json \<Rightarrow> (bytes \<Rightarrow> bytes) \<Rightarrow> store_env store_op list \<Rightarrow> FileStore \<times> fsys \<Rightarrow> FileStore \<times> fsys" where
  "file_run J sha \<equiv> store_run (FileStore_AppendBatch J sha) (FileStore_ReplaceAll J sha)"

definition restartable :: "json \<Rightarrow> (bytes \<Rightarrow> bytes) \<Rightarrow> (Event \<Rightarrow> bool) \<Rightarrow> FileStore \<times> fsys \<Rightarrow> bool" where
  "restartable J sha ok st \<longleftrightarrow>
     st_path (fst st) \<noteq> '''' \<and> synced J st \<and> log_chain J sha (st_memory (fst st)) \<and> list_all ok (st_memory (fst st))"

lemma file_step_restartable:
  assumes "restartable J sha ok st" and "list_all ok (op_events op)"
  shows "restartable J sha ok (file_step J sha op st) \<and> st_path (fst (file_step J sha op st)) = st_path (fst st)"
proof -
  obtain store fs where st: "st = (store, fs)" by fastforce
  have chain: "log_chain J sha (st_memory store)" using assms(1) by (simp add: st restartable_def)
  have chain': "log_chain J sha (st_memory (fst (file_step J sha op st)))"
    using file_store.step_chain [of J sha st op] chain by (simp add: st)
  show ?thesis
  proof (cases op)
    case (AppendOp E evs)
    obtain store' fs' r where step: "FileStore_AppendBatch J sha E evs (store, fs) = ((store', fs'), r)"
      by (metis prod.exhaust)
    show ?thesis
      by (rule FileStore_AppendBatch_cases [OF step])
        (use assms chain' AppendOp step in \<open>auto simp: st restartable_def synced_def dest!: appendLoop_Inr [OF chain]\<close>)
  next
    case (ReplaceOp E evs)
    obtain store' fs' r where step: "FileStore_ReplaceAll J sha E evs (store, fs) = ((store', fs'), r)"
      by (metis prod.exhaust)
    show ?thesis
      by (rule FileStore_ReplaceAll_cases [OF step])
        (use assms chain' ReplaceOp step in \<open>auto simp: st restartable_def synced_def\<close>)
  qed
qed

lemma file_run_restartable:
  assumes "restartable J sha ok st" and "\<forall>op \<in> set ops. list_all ok (op_events op)"
  shows "restartable J sha ok (file_run J sha ops st) \<and> st_path (fst (file_run J sha ops st)) = st_path (fst st)"
  using assms
proof (induction ops arbitrary: st)
  case Nil
  then show ?case by (simp add: store_run_def)
next
  case (Cons op ops)
  have *: "restartable J sha ok (file_step J sha op st)" "st_path (fst (file_step J sha op st)) = st_path (fst st)"
    using Cons.prems by (simp_all add: file_step_restartable)
  show ?case using Cons.IH [OF *(1)] Cons.prems(2) *(2) by (simp add: store_run_def)
qed

lemma loadLoop_chain:
  "log_chain J sha (mem @ evs) \<Longrightarrow> loadLoop J sha evs True mem = (mem @ evs, None)"
proof (induction evs arbitrary: mem)
  case Nil
  then show ?case by simp
next
  case (Cons ev evs)
  have "log_chain J sha (mem @ [ev])" using log_chain_append [of J sha "mem @ [ev]" evs] Cons.prems by simp
  then have "appendLoop J sha mem [ev] = Inr (mem @ [ev])"
    by (subst appendLoop_iff) (simp_all add: log_chain_append [of J sha mem "[ev]"])
  then have "MemoryStore_Append J sha ev mem = (mem @ [ev], None)"
    unfolding MemoryStore_Append_def by (cases J sha mem "[ev]" rule: MemoryStore_AppendBatch_cases) simp_all
  with Cons show ?case by simp
qed

lemma restart:
  assumes "json_laws J ok" and "restartable J sha ok (store, fs)" and "le_open E" and "le_close E"
  shows "NewFileStore J sha E (st_path store) fs = Inr store"
proof (cases "map_of fs (st_path store)")
  case None
  with assms(2) show ?thesis
    by (simp add: NewFileStore_def FileStore_load_def restartable_def synced_def NewMemoryStore_def)
next
  case (Some nd)
  with assms(2) obtain p t where nd: "nd = FFile p t" and enc: "encodeEvents J (st_memory store) = Inr p"
    by (cases nd) (auto simp: restartable_def synced_def)
  have "js_stream J p = (st_memory store, True)"
    using assms(1,2) enc by (simp add: json_laws_def restartable_def)
  moreover have "loadLoop J sha (st_memory store) True [] = (st_memory store, None)"
    using assms(2) by (simp add: loadLoop_chain [of J sha "[]", simplified] restartable_def)
  ultimately show ?thesis
    using Some nd assms(2-) by (simp add: NewFileStore_def FileStore_load_def restartable_def NewMemoryStore_def)
qed

section \<open>The head commits to the log\<close>

text \<open>
  The documented behaviour of \<^verbatim>\<open>encoding/json\<close> on the canonical structs \<open>ok\<close> whose strings and
  times it can represent: different values have different encodings.
\<close>

definition canonical_laws :: "json \<Rightarrow> (canonical_event \<Rightarrow> bool) \<Rightarrow> bool" where
  "canonical_laws J ok \<longleftrightarrow>
     (\<forall>c c' p. ok c \<longrightarrow> ok c' \<longrightarrow> js_canonical J c = Some p \<longrightarrow> js_canonical J c' = Some p \<longrightarrow> c = c')"

lemma hexDigit_inject: "i < 16 \<Longrightarrow> j < 16 \<Longrightarrow> hexDigit i = hexDigit j \<longleftrightarrow> i = j"
proof -
  assume "i < 16" "j < 16"
  moreover have "distinct ''0123456789abcdef''" by simp
  ultimately show ?thesis unfolding hexDigit_def by (subst nth_eq_iff_index_eq) simp_all
qed

lemma hex_byte_inject:
  assumes "hexDigit (unat a div 16) = hexDigit (unat b div 16)" and "hexDigit (unat a mod 16) = hexDigit (unat b mod 16)"
  shows "a = (b :: byte)"
proof -
  have "unat a div 16 = unat b div 16" "unat a mod 16 = unat b mod 16"
    using assms unat_byte_less [of a] unat_byte_less [of b] by (simp_all add: hexDigit_inject less_mult_imp_div_less)
  then have "unat a = unat b" by (metis div_mult_mod_eq)
  then show ?thesis by (simp add: word_unat_eq_iff)
qed

lemma EncodeToString_inject: "EncodeToString p = EncodeToString q \<longleftrightarrow> p = q"
proof
  show "p = q" if "EncodeToString p = EncodeToString q"
    using that
  proof (induction p arbitrary: q)
    case Nil
    then show ?case by (cases q) (simp_all add: EncodeToString_def)
  next
    case (Cons a p)
    then obtain b q' where q: "q = b # q'" by (cases q) (simp_all add: EncodeToString_def)
    with Cons.prems have "a = b" "EncodeToString p = EncodeToString q'"
      by (auto simp: EncodeToString_def intro: hex_byte_inject)
    with Cons.IH q show ?case by simp
  qed
qed simp

lemma canonical_same: "canonical x = canonical y \<longleftrightarrow> x \<lparr> ev_Signature := ev_Signature y \<rparr> = y"
  by (cases x; cases y) (auto simp: canonical_def)

text \<open>Two events with the same hash encode the same canonical struct, or show a collision of the digest.\<close>

lemma same_hash:
  assumes "Event_Hash J sha x = Inr h" and "Event_Hash J sha y = Inr h"
    and "canonical_laws J ok" and "ok (canonical x)" and "ok (canonical y)"
  shows "canonical x = canonical y \<or>
    (\<exists>p q. SigningBytes J x = Inr p \<and> SigningBytes J y = Inr q \<and> p \<noteq> q \<and> sha p = sha q)"
proof -
  obtain p q where p: "js_canonical J (canonical x) = Some p" "js_canonical J (canonical y) = Some q" and "sha p = sha q"
    using assms(1,2) by (auto simp: Event_Hash_def SigningBytes_def EncodeToString_inject split: option.splits)
  moreover have "canonical x = canonical y" if "p = q"
    using p assms(3-5) that unfolding canonical_laws_def by blast
  ultimately show ?thesis by (auto simp: SigningBytes_def)
qed

lemma same_head_hash:
  assumes "log_chain J sha xs" and "log_chain J sha ys" and "length xs = length ys" and "xs \<noteq> []"
    and "Event_Hash J sha (last xs) = Inr h" and "Event_Hash J sha (last ys) = Inr h"
  shows "map canonical xs = map canonical ys \<or>
    (\<exists>x \<in> set xs. \<exists>y \<in> set ys. \<exists>h. canonical x \<noteq> canonical y \<and> Event_Hash J sha x = Inr h \<and> Event_Hash J sha y = Inr h)"
  using assms(4,3,1,2,5,6)
proof (induction xs arbitrary: ys h rule: rev_nonempty_induct)
  case (single x)
  then obtain y where "ys = [y]" by (cases ys) simp_all
  with single show ?case by auto
next
  case (snoc x xs)
  then obtain zs y where ys: "ys = zs @ [y]" by (cases ys rule: rev_cases) simp_all
  have len: "length xs = length zs" using snoc.prems(1) by (simp add: ys)
  have ne: "zs \<noteq> []" using snoc.hyps len by auto
  have links: "log_link J sha xs x" "log_link J sha zs y" "log_chain J sha xs" "log_chain J sha zs"
    using snoc.prems(2,3) by (simp_all add: ys log_chain_snoc)
  have hash: "Event_Hash J sha x = Inr h" "Event_Hash J sha y = Inr h" using snoc.prems(4,5) by (simp_all add: ys)
  show ?case
  proof (cases "canonical x = canonical y")
    case False
    with hash show ?thesis by (auto simp: ys)
  next
    case True
    then have "ev_PrevHash x = ev_PrevHash y" by (simp add: canonical_def)
    with links(1,2) snoc.hyps ne have "Event_Hash J sha (last xs) = Inr (ev_PrevHash x)" "Event_Hash J sha (last zs) = Inr (ev_PrevHash x)"
      by (simp_all add: log_link_def)
    from snoc.IH [OF len links(3,4) this] True show ?thesis by (simp add: ys) blast
  qed
qed

lemma log_chain_last_Seq:
  "log_chain J sha xs \<Longrightarrow> xs \<noteq> [] \<Longrightarrow> ev_Seq (last xs) = word_of_nat (length xs)"
  by (cases xs rule: rev_cases) (simp_all add: log_chain_snoc log_link_def)

lemma MemoryStore_Head_last:
  "xs \<noteq> [] \<Longrightarrow> MemoryStore_Head J sha xs =
     map_sum id (\<lambda>h. \<lparr> hd_Seq = ev_Seq (last xs), hd_Hash = h \<rparr>) (Event_Hash J sha (last xs))"
  by (simp add: MemoryStore_Head_def Let_def last_conv_nth split: sum.splits)

lemma unat_word_of_nat_u64: "n < 2 ^ 64 \<Longrightarrow> unat (word_of_nat n :: u64) = n"
  by (simp add: unat_of_nat take_bit_nat_eq_self)

lemma same_head:
  assumes "log_chain J sha xs" and "log_chain J sha ys"
    and "length xs < 2 ^ 63" and "length ys < 2 ^ 63"
    and "MemoryStore_Head J sha xs = Inr h" and "MemoryStore_Head J sha ys = Inr h"
  shows "map canonical xs = map canonical ys \<or>
    (\<exists>x \<in> set xs. \<exists>y \<in> set ys. \<exists>h. canonical x \<noteq> canonical y \<and> Event_Hash J sha x = Inr h \<and> Event_Hash J sha y = Inr h)"
proof -
  have seq: "hd_Seq h = word_of_nat (length zs)"
    if "log_chain J sha zs" "MemoryStore_Head J sha zs = Inr h" for zs
  proof (cases "zs = []")
    case True
    with that(2) show ?thesis by (auto simp: MemoryStore_Head_def)
  next
    case False
    with that show ?thesis
      by (auto simp: MemoryStore_Head_last log_chain_last_Seq map_sum_def split: sum.splits)
  qed
  have len: "length xs = length ys"
    using seq [OF assms(1,5)] seq [OF assms(2,6)] assms(3,4)
      unat_word_of_nat_u64 [of "length xs"] unat_word_of_nat_u64 [of "length ys"] by simp
  show ?thesis
  proof (cases "xs = []")
    case True
    with len show ?thesis by simp
  next
    case False
    with len have "ys \<noteq> []" by auto
    with False assms(5,6) have "Event_Hash J sha (last xs) = Inr (hd_Hash h)" "Event_Hash J sha (last ys) = Inr (hd_Hash h)"
      by (auto simp: MemoryStore_Head_last map_sum_def split: sum.splits)
    with assms(1,2) len False show ?thesis by (intro same_head_hash) simp_all
  qed
qed

lemma same_head_events:
  assumes "log_chain J sha xs" and "log_chain J sha ys"
    and "length xs < 2 ^ 63" and "length ys < 2 ^ 63"
    and "MemoryStore_Head J sha xs = Inr h" and "MemoryStore_Head J sha ys = Inr h"
    and "canonical_laws J ok" and "\<forall>e \<in> set xs \<union> set ys. ok (canonical e)"
  shows "list_all2 (\<lambda>x y. x \<lparr> ev_Signature := ev_Signature y \<rparr> = y) xs ys \<or>
    (\<exists>x \<in> set xs. \<exists>y \<in> set ys. \<exists>p q. SigningBytes J x = Inr p \<and> SigningBytes J y = Inr q \<and> p \<noteq> q \<and> sha p = sha q)"
proof (rule disjE [OF same_head [OF assms(1-6)]])
  assume "map canonical xs = map canonical ys"
  then have "list_all2 (\<lambda>x y. canonical x = canonical y) xs ys" by (simp add: list_eq_iff_nth_eq list_all2_conv_all_nth) 
  then show ?thesis by (simp add: canonical_same)
next
  assume "\<exists>x \<in> set xs. \<exists>y \<in> set ys. \<exists>h. canonical x \<noteq> canonical y \<and> Event_Hash J sha x = Inr h \<and> Event_Hash J sha y = Inr h"
  then show ?thesis using same_hash [OF _ _ assms(7)] assms(8) by blast
qed


section \<open>Reading back what was appended\<close>

lemma MemoryStore_Range_suffix:
  assumes "evs \<noteq> []" and "length (es @ evs) < 2 ^ 64"
  shows "MemoryStore_Range (word_of_nat (Suc (length es))) (word_of_nat (length (es @ evs))) (es @ evs) = Inr evs"
proof -
  have u: "unat (word_of_nat (Suc (length es)) :: u64) = Suc (length es)"
    "unat (word_of_nat (length (es @ evs)) :: u64) = length (es @ evs)"
    by (rule unat_word_of_nat_u64; use assms in \<open>cases evs; simp\<close>)+
  have "map (\<lambda>s. (es @ evs) ! (s - 1)) [Suc (length es) ..< Suc (length (es @ evs))] = evs"
    by (rule nth_equalityI) (simp_all add: nth_append del: upt_Suc)
  moreover have "\<not> length (es @ evs) < Suc (length es)" using assms(1) by (cases evs) simp_all
  ultimately show ?thesis
    using u
    by (simp add: MemoryStore_Range_def word_less_nat_alt flip: unat_eq_0 del: length_append upt_Suc)
qed

lemma FileStore_AppendBatch_visible:
  assumes "FileStore_AppendBatch J sha E evs st = (st', None)"
    and "log_chain J sha (st_memory (fst st))"
  shows "st_memory (fst st') = st_memory (fst st) @ evs \<and> log_chain J sha (st_memory (fst st'))"
  using file_store.append_batch [OF assms(1)] by (auto dest!: appendLoop_Inr [OF assms(2)])


section \<open>Pruning\<close>

lemma sort_key_cong: "(\<And>x. x \<in> set xs \<Longrightarrow> f x = g x) \<Longrightarrow> sort_key f xs = sort_key g xs"
proof (induction xs)
  case (Cons x xs)
  have "insort_key f x ys = insort_key g x ys" if "set ys \<subseteq> set xs" for ys
    using that Cons.prems by (induction ys) auto
  with Cons show ?case by simp
qed simp

lemma pruneLoop_ok:
  "(\<And>q. rm q) \<Longrightarrow> pruneLoop rm protected n backups fs =
     (fold AList.delete (take n (filter (\<lambda>q. \<not> (protected \<noteq> '''' \<and> q = protected)) backups)) fs, None)"
  by (induction rm protected n backups fs rule: pruneLoop.induct) (auto simp: take_Cons')

lemma fold_delete: "fold AList.delete ks al = filter (\<lambda>(k, _). k \<notin> set ks) al"
  by (induction ks arbitrary: al) (auto simp: AList.delete_eq intro!: filter_cong)

lemma map_of_filter_key: "P k \<Longrightarrow> map_of (filter (\<lambda>(k, _). P k) al) k = map_of al k"
  by (induction al) auto

lemma map_fst_filter_key: "map fst (filter (\<lambda>(k, _). P k) al) = filter P (map fst al)"
  by (induction al) auto

lemma BackupFiles_delete:
  "BackupFiles path (filter (\<lambda>(k, _). P k) fs) = filter P (BackupFiles path fs)"
proof -
  let ?fs = "filter (\<lambda>(k, _). P k) fs"
  have g: "globBackups path ?fs = filter P (globBackups path fs)"
    unfolding globBackups_def Let_def map_fst_filter_key filter_sort filter_filter
    by (intro arg_cong [of _ _ sort] filter_cong) auto
  have "sort_key (\<lambda>n. (modTime (map_of ?fs n), n)) (filter P (globBackups path fs)) =
    sort_key (\<lambda>n. (modTime (map_of fs n), n)) (filter P (globBackups path fs))"
    by (rule sort_key_cong) (simp add: map_of_filter_key)
  then show ?thesis by (simp add: BackupFiles_def g filter_sort)
qed

lemma distinct_BackupFiles: "distinct (map fst fs) \<Longrightarrow> distinct (BackupFiles path fs)"
  by (simp add: BackupFiles_def globBackups_def Let_def)

lemma length_filter_notin:
  assumes "distinct xs" and "set ys \<subseteq> set xs" and "distinct ys"
  shows "length (filter (\<lambda>x. x \<notin> set ys) xs) = length xs - length ys"
proof -
  have "set (filter (\<lambda>x. x \<notin> set ys) xs) = set xs - set ys" by auto
  then have "length (filter (\<lambda>x. x \<notin> set ys) xs) = card (set xs - set ys)"
    using assms(1) by (metis distinct_card distinct_filter)
  also have "\<dots> = length xs - length ys"
    using assms by (simp add: card_Diff_subset distinct_card)
  finally show ?thesis .
qed

text \<open>The backups a pruning run removes: the oldest ones, the protected one skipped.\<close>

definition prunable :: "string \<Rightarrow> int \<Rightarrow> string \<Rightarrow> fsys \<Rightarrow> string list" where
  "prunable path keep protected fs =
    (let backups = BackupFiles path fs in
     take (length backups - nat keep) (filter (\<lambda>q. q \<noteq> protected) backups))"

lemma pruneBackups_ok:
  assumes "\<And>q. rm q" and "path \<noteq> ''''" and "0 < keep"
  shows "pruneBackups rm path keep protected fs =
    (filter (\<lambda>(k, _). k \<notin> set (prunable path keep protected fs)) fs, None)"
proof -
  have "q \<noteq> ''''" if "q \<in> set (BackupFiles path fs)" for q
    using set_BackupFiles [OF that] is_prefix_longer by fastforce
  then have "filter (\<lambda>q. \<not> (protected \<noteq> '''' \<and> q = protected)) (BackupFiles path fs) =
      filter (\<lambda>q. q \<noteq> protected) (BackupFiles path fs)"
    by (intro filter_cong) auto
  then show ?thesis
    using assms by (simp add: pruneBackups_def Let_def pruneLoop_ok fold_delete prunable_def)
qed

lemma length_prunable:
  assumes "distinct (map fst fs)" and "0 < keep"
  shows "length (prunable path keep protected fs) = length (BackupFiles path fs) - nat keep"
proof -
  let ?bs = "BackupFiles path fs"
  have "length ?bs - 1 \<le> length (filter (\<lambda>q. q \<noteq> protected) ?bs)"
  proof (cases "protected \<in> set ?bs")
    case True
    then show ?thesis
      using length_filter_notin [of ?bs "[protected]"] distinct_BackupFiles [OF assms(1)] by simp
  next
    case False
    then have "filter (\<lambda>q. q \<noteq> protected) ?bs = ?bs" by (auto simp: filter_id_conv)
    then show ?thesis by simp
  qed
  then show ?thesis using assms(2) by (simp add: prunable_def Let_def)
qed

lemma prune_count:
  assumes "distinct (map fst fs)" and "0 < keep"
  shows "length (filter (\<lambda>q. q \<notin> set (prunable path keep protected fs)) (BackupFiles path fs)) =
    min (length (BackupFiles path fs)) (nat keep)"
proof -
  have "distinct (prunable path keep protected fs)"
    using distinct_BackupFiles [OF assms(1)] by (simp add: prunable_def Let_def)
  moreover have "set (prunable path keep protected fs) \<subseteq> set (BackupFiles path fs)"
    by (auto simp: prunable_def Let_def dest: in_set_takeD)
  ultimately show ?thesis
    using length_prunable [OF assms] by (simp add: length_filter_notin distinct_BackupFiles [OF assms(1)])
qed

lemma prunable_spares: "protected \<notin> set (prunable path keep protected fs)"
  by (auto simp: prunable_def Let_def dest: in_set_takeD)

section \<open>Properties\<close>

text \<open>
  A concrete two-event log for the witnesses: a JSON codec that knows these two events, a
  digest with one value, and an operating system on which every call succeeds.
\<close>

definition toy_event1 :: Event where
  "toy_event1 =
    \<lparr> ev_DomainID = ''d'', ev_EventID = ''e'', ev_Seq = 1, ev_PrevHash = '''', ev_Resource = ''r'',
      ev_Action = ActionCreate, ev_Payload = Some [9], ev_SignerID = ''s'', ev_Signature = Some [1],
      ev_CreatedAt = \<lparr> tm_instant = 1, tm_offset = 0 \<rparr>, ev_EffectiveAt = \<lparr> tm_instant = 1, tm_offset = 0 \<rparr>,
      ev_AdminProofs = [] \<rparr>"

definition toy_event2 :: Event where
  "toy_event2 = toy_event1 \<lparr> ev_Seq := 2, ev_PrevHash := ''07'', ev_Action := ActionDelete \<rparr>"

definition toy_json :: json where
  "toy_json =
    \<lparr> js_canonical = (\<lambda>_. Some []),
      js_event = (\<lambda>e. if e = toy_event1 then Some [1] else if e = toy_event2 then Some [2] else None),
      js_stream = (\<lambda>p. (map (\<lambda>b. if b = 1 then toy_event1 else toy_event2) p, True)) \<rparr>"

definition toy_sha :: "bytes \<Rightarrow> bytes" where "toy_sha _ = [7]"

definition toy_write :: write_env where
  "toy_write =
    \<lparr> we_now = 5, we_mkdir = True, we_temp = Some ''x'', we_write = None, we_chmod = True, we_sync = True,
      we_close = True, we_rename = True, we_syncdir = True, we_close' = True, we_remove = True \<rparr>"

definition toy_store_env :: store_env where
  "toy_store_env =
    \<lparr> se_mkdir = True,
      se_backup = \<lparr> be_stat = True, be_mkdir = True, be_now = ''t'', be_stat' = (\<lambda>_. True), be_read = True,
        be_write = toy_write, be_keep = '''', be_remove = (\<lambda>_. True) \<rparr>,
      se_write = toy_write \<rparr>"

definition toy_store :: FileStore where
  "toy_store = \<lparr> st_path = ''l'', st_memory = [] \<rparr>"

lemma toy_events_neq: "toy_event2 \<noteq> toy_event1"
  by (simp add: toy_event1_def toy_event2_def)

lemma toy_valid: "ValidateBasic toy_event1 = None" "ValidateBasic toy_event2 = None"
  by code_simp+

lemma toy_hash: "Event_Hash toy_json toy_sha e = Inr ''07''"
  by (simp add: Event_Hash_def SigningBytes_def toy_json_def toy_sha_def EncodeToString_def hexDigit_def)

lemma toy_chain: "log_chain toy_json toy_sha [toy_event1, toy_event2]"
  using log_chain_snoc [of toy_json toy_sha "[]" toy_event1]
    log_chain_snoc [of toy_json toy_sha "[toy_event1]" toy_event2]
  by (simp add: log_link_def toy_hash toy_valid) (simp add: toy_event1_def toy_event2_def)

lemma toy_encode: "encodeEvents toy_json evs = Inr p \<Longrightarrow> js_stream toy_json p = (evs, True)"
  by (induction evs arbitrary: p)
    (auto simp: toy_json_def toy_events_neq split: option.splits sum.splits if_splits)

lemma toy_json_laws: "json_laws toy_json (\<lambda>_. True)"
  by (simp add: json_laws_def toy_encode)

lemma toy_restartable: "restartable toy_json toy_sha (\<lambda>_. True) (toy_store, [])"
  by (simp add: restartable_def synced_def toy_store_def list_all_iff)

lemma toy_append:
  "FileStore_AppendBatch toy_json toy_sha toy_store_env [toy_event1, toy_event2] (toy_store, []) =
    ((toy_store \<lparr> st_memory := [toy_event1, toy_event2] \<rparr>, [(''l'', FFile [1, 2] 5)]), None)"
proof -
  have "appendLoop toy_json toy_sha [] [toy_event1, toy_event2] = Inr [toy_event1, toy_event2]"
    by (subst appendLoop_iff) (simp_all add: toy_chain)
  then have "MemoryStore_AppendBatch toy_json toy_sha [toy_event1, toy_event2] [] = ([toy_event1, toy_event2], None)"
    by (cases toy_json toy_sha "[] :: MemoryStore" "[toy_event1, toy_event2]" rule: MemoryStore_AppendBatch_cases) simp_all
  moreover have "encodeEvents toy_json [toy_event1, toy_event2] = Inr [1, 2]"
    by (simp add: toy_json_def toy_events_neq)
  moreover have "writeFileAtomic toy_write ''l'' [1, 2] [] = ([(''l'', FFile [1, 2] 5)], True, None)"
    by (simp add: writeFileAtomic_def toy_write_def tempName_def Let_def)
  ultimately show ?thesis
    by (simp add: FileStore_AppendBatch_def MemoryStore_snapshot_def toy_store_def toy_store_env_def)
qed

text \<open>
  C24: every log the file-backed store reaches from a well-formed one, by any sequence of
  \<open>AppendBatch\<close> and \<open>ReplaceAll\<close> calls on any events and with any system call failing, is a
  hash chain with consecutive sequence numbers of valid events; a sequence of appends only
  extends it.
\<close>

theorem log_stays_chained:
  assumes "log_chain J sha (st_memory store)"
  shows "log_chain J sha (st_memory (fst (file_run J sha ops (store, fs)))) \<and>
    (list_all is_append ops \<longrightarrow>
      (\<exists>new. st_memory (fst (file_run J sha ops (store, fs))) = st_memory store @ new))"
  using file_store.run_chain [of J sha "(store, fs)" ops] file_store.run_append_only [of J sha "(store, fs)" ops] assms
  by (simp add: list_all_iff)

theorem log_stays_chained_witness:
  "log_chain toy_json toy_sha (st_memory toy_store) \<and>
   log_chain toy_json toy_sha
     (st_memory (fst (file_run toy_json toy_sha [AppendOp toy_store_env [toy_event1, toy_event2]] (toy_store, []))))"
proof -
  have start: "log_chain toy_json toy_sha (st_memory toy_store)" by (simp add: toy_store_def)
  from log_stays_chained [OF start, of "[AppendOp toy_store_env [toy_event1, toy_event2]]" "[]"] start
  show ?thesis by simp
qed

text \<open>
  C25: the log survives a restart.  From a store with a well-formed log that its file holds (or
  a new store with no file), after any sequence of updates with any failures of the system
  calls, opening the store again on the resulting file system, when opening and closing the
  file succeed, gives exactly the events the running store had, provided the JSON decoder
  inverts the encoder.
\<close>

theorem restart_restores_log:
  assumes "json_laws J ok" and "restartable J sha ok (store, fs)"
    and "\<forall>op \<in> set ops. list_all ok (op_events op)"
    and "file_run J sha ops (store, fs) = (store', fs')"
    and "le_open E" and "le_close E"
  shows "NewFileStore J sha E (st_path store) fs' = Inr store'"
  using file_run_restartable [OF assms(2,3)] restart [OF assms(1) _ assms(5,6), of sha store' fs'] assms(4) by simp

theorem restart_restores_log_witness:
  "json_laws toy_json (\<lambda>_. True) \<and>
   NewFileStore toy_json toy_sha \<lparr> le_open = True, le_close = True \<rparr> ''l'' [(''l'', FFile [1, 2] 5)] =
     Inr (toy_store \<lparr> st_memory := [toy_event1, toy_event2] \<rparr>)"
proof -
  have "file_run toy_json toy_sha [AppendOp toy_store_env [toy_event1, toy_event2]] (toy_store, []) =
      (toy_store \<lparr> st_memory := [toy_event1, toy_event2] \<rparr>, [(''l'', FFile [1, 2] 5)])"
    by (simp add: store_run_def toy_append)
  from restart_restores_log [OF toy_json_laws toy_restartable _ this, of "\<lparr> le_open = True, le_close = True \<rparr>"]
  show ?thesis by (simp add: toy_json_laws toy_store_def list_all_iff)
qed



text \<open>
  C39: the head commits to the log.  Where the JSON encoding of the canonical struct is
  injective on the values it represents, two well-formed logs with the same head (sequence
  number and hash) have the same events in the same order, equal in every field but the event
  signature, payload and proofs included; or else the signing bytes of two of their events
  are different and have the same digest.
\<close>

theorem head_commits_to_log:
  assumes "log_chain J sha xs" and "log_chain J sha ys"
    and "length xs < 2 ^ 63" and "length ys < 2 ^ 63"
    and "MemoryStore_Head J sha xs = Inr h" and "MemoryStore_Head J sha ys = Inr h"
    and "canonical_laws J ok" and "\<forall>e \<in> set xs \<union> set ys. ok (canonical e)"
  shows "list_all2 (\<lambda>x y. x \<lparr> ev_Signature := ev_Signature y \<rparr> = y) xs ys \<or>
    (\<exists>x \<in> set xs. \<exists>y \<in> set ys. \<exists>p q. SigningBytes J x = Inr p \<and> SigningBytes J y = Inr q \<and> p \<noteq> q \<and> sha p = sha q)"
  using assms by (rule same_head_events)

text \<open>
  For the witness, two logs that differ only in a signature, an encoder that knows their
  canonical structs, and the identity as digest.
\<close>

definition toy_log :: "byteSlice \<Rightarrow> Event list" where
  "toy_log s = [toy_event1 \<lparr> ev_Signature := s \<rparr>, toy_event2 \<lparr> ev_PrevHash := ''01'' \<rparr>]"

definition toy_json_canonical :: json where
  "toy_json_canonical =
    \<lparr> js_canonical = (\<lambda>c. if c = canonical toy_event1 then Some [1]
        else if c = canonical (toy_event2 \<lparr> ev_PrevHash := ''01'' \<rparr>) then Some [2] else None),
      js_event = (\<lambda>_. None), js_stream = (\<lambda>_. ([], False)) \<rparr>"

lemma toy_canonical_laws: "canonical_laws toy_json_canonical (\<lambda>_. True)"
  by (auto simp: canonical_laws_def toy_json_canonical_def split: if_splits)

lemma toy_log_chain:
  assumes "slice_len s \<noteq> 0"
  shows "log_chain toy_json_canonical id (toy_log s)"
    "MemoryStore_Head toy_json_canonical id (toy_log s) = Inr \<lparr> hd_Seq = 2, hd_Hash = ''02'' \<rparr>"
proof -
  let ?e1 = "toy_event1 \<lparr> ev_Signature := s \<rparr>" and ?e2 = "toy_event2 \<lparr> ev_PrevHash := ''01'' \<rparr>"
  have "canonical ?e1 = canonical toy_event1" "canonical ?e2 \<noteq> canonical toy_event1"
    by (simp_all add: canonical_def toy_event1_def toy_event2_def)
  moreover have "EncodeToString [1] = ''01''" "EncodeToString [2] = ''02''" by code_simp+
  ultimately have h: "Event_Hash toy_json_canonical id ?e1 = Inr ''01''" "Event_Hash toy_json_canonical id ?e2 = Inr ''02''"
    by (simp_all add: Event_Hash_def SigningBytes_def toy_json_canonical_def)
  have "ValidateBasic ?e1 = (if slice_len s = 0 then Some SignatureRequired else None)" "ValidateBasic ?e2 = None"
    by (simp add: ValidateBasic_def toy_event1_def, code_simp) code_simp
  then show "log_chain toy_json_canonical id (toy_log s)"
    using assms log_chain_snoc [of toy_json_canonical id "[]" ?e1] log_chain_snoc [of toy_json_canonical id "[?e1]" ?e2] h(1)
    by (simp add: log_link_def toy_log_def) (simp add: toy_event1_def toy_event2_def)
  show "MemoryStore_Head toy_json_canonical id (toy_log s) = Inr \<lparr> hd_Seq = 2, hd_Hash = ''02'' \<rparr>"
    using h(2) by (simp add: MemoryStore_Head_last toy_log_def) (simp add: toy_event2_def)
qed

theorem head_commits_to_log_witness:
  "toy_log (Some [1]) \<noteq> toy_log (Some [2]) \<and>
   MemoryStore_Head toy_json_canonical id (toy_log (Some [1])) = MemoryStore_Head toy_json_canonical id (toy_log (Some [2])) \<and>
   list_all2 (\<lambda>x y. x \<lparr> ev_Signature := ev_Signature y \<rparr> = y) (toy_log (Some [1])) (toy_log (Some [2]))"
proof -
  have len: "slice_len (Some [1]) \<noteq> 0" "slice_len (Some [2]) \<noteq> 0" by (simp_all add: slice_len_def)
  note c = toy_log_chain [OF len(1)] toy_log_chain [OF len(2)]
  from head_commits_to_log [OF c(1,3) _ _ c(2,4) toy_canonical_laws]
  have "list_all2 (\<lambda>x y. x \<lparr> ev_Signature := ev_Signature y \<rparr> = y) (toy_log (Some [1])) (toy_log (Some [2]))"
    by (simp add: toy_log_def)
  moreover have "toy_log (Some [1]) \<noteq> toy_log (Some [2])" by (simp add: toy_log_def toy_event1_def)
  ultimately show ?thesis using c by simp
qed

text \<open>
  What an acknowledged append wrote is what \<open>Range\<close> returns for the sequence numbers it
  took, and the head is the sequence number of the last of its events with their hash.
\<close>

theorem appended_range:
  assumes "log_chain J sha (st_memory (fst st))" and "evs \<noteq> []"
    and "FileStore_AppendBatch J sha E evs st = (st', None)"
    and "length (st_memory (fst st)) + length evs < 2 ^ 63"
  shows "FileStore_Range (word_of_nat (Suc (length (st_memory (fst st)))))
      (word_of_nat (length (st_memory (fst st)) + length evs)) st' = Inr evs \<and>
    (case Event_Hash J sha (last evs) of
       Inr h \<Rightarrow> FileStore_Head J sha st' =
         Inr \<lparr> hd_Seq = word_of_nat (length (st_memory (fst st)) + length evs), hd_Hash = h \<rparr>
     | Inl err \<Rightarrow> FileStore_Head J sha st' = Inl err)"
proof -
  let ?old = "st_memory (fst st)"
  have new: "st_memory (fst st') = ?old @ evs" and "log_chain J sha (st_memory (fst st'))"
    using FileStore_AppendBatch_visible [OF assms(3,1)] by blast+
  then have chain: "log_chain J sha (?old @ evs)" by simp
  have "FileStore_Range (word_of_nat (Suc (length ?old))) (word_of_nat (length (?old @ evs))) st' = Inr evs"
    unfolding FileStore_Range_def new using assms(2,4) by (intro MemoryStore_Range_suffix) simp_all
  moreover have "ev_Seq (last evs) = word_of_nat (length (?old @ evs))"
    using log_chain_last_Seq [OF chain] assms(2) by simp
  ultimately show ?thesis
    using assms(2) by (auto simp: FileStore_Head_def new MemoryStore_Head_last split: sum.splits)
qed

theorem appended_range_witness:
  "log_chain toy_json toy_sha (st_memory toy_store) \<and>
   FileStore_Range 1 2 (toy_store \<lparr> st_memory := [toy_event1, toy_event2] \<rparr>, [(''l'', FFile [1, 2] 5)]) =
     Inr [toy_event1, toy_event2]"
proof -
  have start: "log_chain toy_json toy_sha (st_memory (fst (toy_store, [])))" by (simp add: toy_store_def)
  have "[toy_event1, toy_event2] \<noteq> []" by simp
  from appended_range [OF start this toy_append] start show ?thesis by (simp add: toy_store_def)
qed

text \<open>
  Pruning bounds the backups: with \<open>keep\<close> positive and no removal failing, exactly
  \<open>keep\<close> backups remain when there were more; the ones removed are the oldest, the protected
  one is never among them, and no other file is touched.
\<close>

theorem prune_keeps_newest:
  assumes "\<And>q. rm q" and "path \<noteq> ''''" and "0 < keep" and "distinct (map fst fs)"
    and "pruneBackups rm path keep protected fs = (fs', r)"
  shows "r = None \<and>
    BackupFiles path fs' = filter (\<lambda>q. q \<notin> set (prunable path keep protected fs)) (BackupFiles path fs) \<and>
    length (BackupFiles path fs') = min (length (BackupFiles path fs)) (nat keep) \<and>
    protected \<notin> set (prunable path keep protected fs) \<and>
    (\<forall>q. q \<notin> set (BackupFiles path fs) \<longrightarrow> map_of fs' q = map_of fs q)"
proof -
  have fs': "fs' = filter (\<lambda>(k, _). k \<notin> set (prunable path keep protected fs)) fs" and "r = None"
    using pruneBackups_ok [OF assms(1-3), where protected = protected and fs = fs] assms(5) by simp_all
  moreover have "map_of fs' q = map_of fs q" if "q \<notin> set (BackupFiles path fs)" for q
  proof -
    have "q \<notin> set (prunable path keep protected fs)"
      using that by (auto simp: prunable_def Let_def dest: in_set_takeD)
    then show ?thesis unfolding fs' by (rule map_of_filter_key)
  qed
  ultimately show ?thesis
    using prune_count [OF assms(4,3)] by (simp add: BackupFiles_delete prunable_spares)
qed

theorem prune_keeps_newest_witness:
  "0 < (1 :: int) \<and>
   length (BackupFiles ''l'' (fst (pruneBackups (\<lambda>_. True) ''l'' 1 ''''
     [(''l.backup.1'', FFile [] 3), (''l'', FFile [] 0), (''l.backup.2'', FFile [] 2)]))) = 1"
proof -
  let ?fs = "[(''l.backup.1'', FFile [] 3), (''l'', FFile [] 0), (''l.backup.2'', FFile [] 2)]"
  obtain fs' r where p: "pruneBackups (\<lambda>_. True) ''l'' 1 '''' ?fs = (fs', r)" by fastforce
  have two: "length (BackupFiles ''l'' ?fs) = 2"
    by (simp add: BackupFiles_def globBackups_def is_prefix_def Let_def)
  have "distinct (map fst ?fs)" by simp
  then have "length (BackupFiles ''l'' fs') = min (length (BackupFiles ''l'' ?fs)) (nat 1)"
    using prune_keeps_newest [OF TrueI _ _ _ p, THEN conjunct2, THEN conjunct2, THEN conjunct1] by simp
  with two p show ?thesis by simp
qed

end
