(* ===== verification/Routing.thy ===== *)
theory Routing
  imports NetIP GoStrings
begin

text \<open>
  The routing table of \<^verbatim>\<open>internal/routing\<close>: route validation and compilation
  (\<^verbatim>\<open>Table.Replace\<close>) and longest-prefix lookup (\<^verbatim>\<open>Table.Lookup\<close>, \<^verbatim>\<open>Table.LookupFiltered\<close>),
  with the prefix and identifier types of \<^verbatim>\<open>internal/core\<close>.  The parser of prefixes
  \<^verbatim>\<open>netip.ParsePrefix\<close> is an argument.  The read-write lock is not modelled: both operations
  touch the slice of compiled routes once, under the lock.
\<close>

section \<open>Routes\<close>

definition RouteUnicast :: string where "RouteUnicast = ''unicast''"
definition RouteLocal :: string where "RouteLocal = ''local''"
definition RouteBlackhole :: string where "RouteBlackhole = ''blackhole''"
definition RouteReject :: string where "RouteReject = ''reject''"

record Route =
  rt_Prefix :: string
  rt_Owner :: string
  rt_NextHop :: string
  rt_Endpoint :: string
  rt_Metric :: int
  rt_Policy :: string
  rt_Kind :: string
  rt_LocalProtocol :: u8
  rt_LocalPort :: u16
  rt_Source :: string
  rt_Reason :: string

record Decision =
  dc_Route :: Route
  dc_Prefix :: Prefix

record compiledRoute =
  cr_route :: Route
  cr_prefix :: Prefix

type_synonym Table = "compiledRoute list"

datatype route_error =
    PrefixRequired | PrefixInvalid string | IXIDRequired | UnsupportedKind string string | NegativeMetric string

definition Prefix_Parse :: "(string \<Rightarrow> Prefix option) \<Rightarrow> string \<Rightarrow> route_error + Prefix" where
  "Prefix_Parse parse pfx =
    (let raw = TrimSpace pfx in
     if raw = '''' then Inl PrefixRequired
     else (case parse raw of None \<Rightarrow> Inl (PrefixInvalid raw) | Some parsed \<Rightarrow> Inr (Masked parsed)))"

definition IXID_Validate :: "string \<Rightarrow> route_error option" where
  "IXID_Validate ix = (if TrimSpace ix = '''' then Some IXIDRequired else None)"

definition NewTable :: Table where "NewTable = []"


section \<open>Replace\<close>

text \<open>The checks on next hop and owner, by kind: the body of the \<^verbatim>\<open>switch\<close>.\<close>

definition validateOptional :: "string \<Rightarrow> route_error option" where
  "validateOptional ix = (if ix \<noteq> '''' then IXID_Validate ix else None)"

definition validateKind :: "Route \<Rightarrow> route_error option" where
  "validateKind r =
    (if rt_Kind r = RouteUnicast then
       (case IXID_Validate (rt_NextHop r) of Some err \<Rightarrow> Some err
        | None \<Rightarrow> validateOptional (rt_Owner r))
     else if rt_Kind r = RouteLocal then
       (case validateOptional (rt_NextHop r) of Some err \<Rightarrow> Some err
        | None \<Rightarrow> validateOptional (rt_Owner r))
     else if rt_Kind r = RouteBlackhole \<or> rt_Kind r = RouteReject then
       (case validateOptional (rt_NextHop r) of Some err \<Rightarrow> Some err
        | None \<Rightarrow> validateOptional (rt_Owner r))
     else Some (UnsupportedKind (rt_Prefix r) (rt_Kind r)))"

definition compileRoute :: "(string \<Rightarrow> Prefix option) \<Rightarrow> Route \<Rightarrow> route_error + compiledRoute" where
  "compileRoute parse route =
    (case Prefix_Parse parse (rt_Prefix route) of Inl err \<Rightarrow> Inl err
     | Inr prefix \<Rightarrow>
       let route = (if rt_Kind route = '''' then route \<lparr> rt_Kind := RouteUnicast \<rparr> else route) in
       (case validateKind route of Some err \<Rightarrow> Inl err
        | None \<Rightarrow>
          if rt_Metric route < 0 then Inl (NegativeMetric (rt_Prefix route))
          else Inr \<lparr> cr_route = route, cr_prefix = prefix \<rparr>))"

fun compileRoutes :: "(string \<Rightarrow> Prefix option) \<Rightarrow> Route list \<Rightarrow> route_error + compiledRoute list" where
  "compileRoutes parse [] = Inr []"
| "compileRoutes parse (r # rs) =
    (case compileRoute parse r of Inl err \<Rightarrow> Inl err
     | Inr c \<Rightarrow> (case compileRoutes parse rs of Inl err \<Rightarrow> Inl err | Inr cs \<Rightarrow> Inr (c # cs)))"

definition Table_Replace :: "(string \<Rightarrow> Prefix option) \<Rightarrow> Route list \<Rightarrow> Table \<Rightarrow> Table \<times> route_error option" where
  "Table_Replace parse routes table =
    (case compileRoutes parse routes of Inl err \<Rightarrow> (table, Some err) | Inr compiled \<Rightarrow> (compiled, None))"


section \<open>Lookup\<close>

text \<open>
  The loop of \<open>LookupFiltered\<close>: \<open>(i, bestIndex, bestBits, bestMetric)\<close>, with no best index for
  \<^verbatim>\<open>-1\<close>.  The filter is an option, \<open>None\<close> for the nil function.
\<close>

definition included :: "(Route \<Rightarrow> bool) option \<Rightarrow> Route \<Rightarrow> bool" where
  "included keep r = (case keep of None \<Rightarrow> True | Some f \<Rightarrow> f r)"

fun lookupLoop ::
  "Addr \<Rightarrow> (Route \<Rightarrow> bool) option \<Rightarrow> nat \<Rightarrow> compiledRoute list \<Rightarrow> nat option \<Rightarrow> int \<Rightarrow> int \<Rightarrow> nat option" where
  "lookupLoop dst keep i [] bestIndex bestBits bestMetric = bestIndex"
| "lookupLoop dst keep i (r # rs) bestIndex bestBits bestMetric =
    (if \<not> Contains (cr_prefix r) dst then lookupLoop dst keep (Suc i) rs bestIndex bestBits bestMetric
     else if \<not> included keep (cr_route r) then lookupLoop dst keep (Suc i) rs bestIndex bestBits bestMetric
     else
       let bits = Prefix_Bits (cr_prefix r) in
       if bestBits < bits \<or> bits = bestBits \<and> rt_Metric (cr_route r) < bestMetric
       then lookupLoop dst keep (Suc i) rs (Some i) bits (rt_Metric (cr_route r))
       else lookupLoop dst keep (Suc i) rs bestIndex bestBits bestMetric)"

definition maxInt :: int where "maxInt = 2 ^ 63 - 1"

definition LookupFiltered :: "Addr \<Rightarrow> (Route \<Rightarrow> bool) option \<Rightarrow> Table \<Rightarrow> Decision option" where
  "LookupFiltered dst keep table =
    (case lookupLoop dst keep 0 table None (- 1) maxInt of
       None \<Rightarrow> None
     | Some i \<Rightarrow> Some \<lparr> dc_Route = cr_route (table ! i), dc_Prefix = cr_prefix (table ! i) \<rparr>)"

definition Lookup :: "Addr \<Rightarrow> Table \<Rightarrow> Decision option" where
  "Lookup dst table = LookupFiltered dst None table"

section \<open>Longest prefix match\<close>

definition route_matches :: "Addr \<Rightarrow> (Route \<Rightarrow> bool) option \<Rightarrow> compiledRoute \<Rightarrow> bool" where
  "route_matches dst keep r \<longleftrightarrow> Contains (cr_prefix r) dst \<and> included keep (cr_route r)"

text \<open>
  \<open>preferred table i j\<close>: the route at \<open>i\<close> has the longer prefix, or the same length and the
  smaller metric, or ties in both and comes first.
\<close>

definition preferred :: "Table \<Rightarrow> nat \<Rightarrow> nat \<Rightarrow> bool" where
  "preferred table i j \<longleftrightarrow>
    (let bi = Prefix_Bits (cr_prefix (table ! i)); bj = Prefix_Bits (cr_prefix (table ! j));
         mi = rt_Metric (cr_route (table ! i)); mj = rt_Metric (cr_route (table ! j))
     in bj < bi \<or> bj = bi \<and> (mi < mj \<or> mi = mj \<and> i \<le> j))"

definition best_upto ::
  "Addr \<Rightarrow> (Route \<Rightarrow> bool) option \<Rightarrow> Table \<Rightarrow> nat \<Rightarrow> nat option \<Rightarrow> int \<Rightarrow> int \<Rightarrow> bool" where
  "best_upto dst keep table n best bits metric \<longleftrightarrow>
    (case best of
       None \<Rightarrow> bits = - 1 \<and> (\<forall>j < n. \<not> route_matches dst keep (table ! j))
     | Some b \<Rightarrow> b < n \<and> route_matches dst keep (table ! b) \<and>
         bits = Prefix_Bits (cr_prefix (table ! b)) \<and> metric = rt_Metric (cr_route (table ! b)) \<and>
         (\<forall>j < n. route_matches dst keep (table ! j) \<longrightarrow> preferred table b j))"

lemma best_upto_skip:
  "best_upto dst keep table n best bits metric \<Longrightarrow> \<not> route_matches dst keep (table ! n) \<Longrightarrow>
   best_upto dst keep table (Suc n) best bits metric"
  by (auto simp: best_upto_def less_Suc_eq split: option.splits)

lemma best_upto_keep:
  assumes "best_upto dst keep table n best bits metric" and "route_matches dst keep (table ! n)"
    and "\<not> (bits < Prefix_Bits (cr_prefix (table ! n)) \<or>
      Prefix_Bits (cr_prefix (table ! n)) = bits \<and> rt_Metric (cr_route (table ! n)) < metric)"
  shows "best_upto dst keep table (Suc n) best bits metric"
proof (cases best)
  case None
  have "0 \<le> Prefix_Bits (cr_prefix (table ! n))"
    using assms(2) by (auto simp: route_matches_def intro: Contains_Bits)
  with None assms show ?thesis by (simp add: best_upto_def)
next
  case (Some b)
  with assms show ?thesis by (auto simp: best_upto_def less_Suc_eq preferred_def Let_def)
qed

lemma preferred_trans: "preferred table i j \<Longrightarrow> preferred table j k \<Longrightarrow> preferred table i k"
  by (auto simp: preferred_def Let_def)

lemma best_upto_take:
  assumes "best_upto dst keep table n best bits metric" and "route_matches dst keep (table ! n)"
    and "bits < Prefix_Bits (cr_prefix (table ! n)) \<or>
      Prefix_Bits (cr_prefix (table ! n)) = bits \<and> rt_Metric (cr_route (table ! n)) < metric"
  shows "best_upto dst keep table (Suc n) (Some n) (Prefix_Bits (cr_prefix (table ! n)))
    (rt_Metric (cr_route (table ! n)))"
proof -
  have "preferred table n j" if "j < n" "route_matches dst keep (table ! j)" for j
  proof (cases best)
    case None
    with assms(1) that show ?thesis by (simp add: best_upto_def)
  next
    case (Some b)
    with assms(1,3) have "preferred table n b" by (auto simp: best_upto_def preferred_def Let_def)
    moreover have "preferred table b j" using assms(1) Some that by (simp add: best_upto_def)
    ultimately show ?thesis by (rule preferred_trans)
  qed
  moreover have "preferred table n n" by (simp add: preferred_def)
  ultimately show ?thesis using assms(2) by (auto simp: best_upto_def less_Suc_eq)
qed

lemma lookupLoop_best:
  assumes "table = pre @ rs" and "best_upto dst keep table (length pre) best bits metric"
  shows "\<exists>bits' metric'. best_upto dst keep table (length table)
    (lookupLoop dst keep (length pre) rs best bits metric) bits' metric'"
  using assms
proof (induction rs arbitrary: pre best bits metric)
  case Nil
  then show ?case by auto
next
  case (Cons r rs)
  have r: "table ! length pre = r" and split: "table = (pre @ [r]) @ rs" using Cons.prems(1) by simp_all
  note next_round = Cons.IH [OF split, simplified]
  show ?case
  proof (cases "route_matches dst keep r")
    case False
    with Cons.prems(2) r have "best_upto dst keep table (Suc (length pre)) best bits metric"
      by (intro best_upto_skip) simp_all
    with next_round False show ?thesis by (auto simp: route_matches_def)
  next
    case True
    show ?thesis
    proof (cases "bits < Prefix_Bits (cr_prefix r) \<or> Prefix_Bits (cr_prefix r) = bits \<and> rt_Metric (cr_route r) < metric")
      case better: True
      with Cons.prems(2) r True have "best_upto dst keep table (Suc (length pre)) (Some (length pre))
          (Prefix_Bits (cr_prefix r)) (rt_Metric (cr_route r))"
        using best_upto_take [of dst keep table "length pre"] by simp
      with next_round True better show ?thesis by (simp add: route_matches_def Let_def)
    next
      case worse: False
      with Cons.prems(2) r True have "best_upto dst keep table (Suc (length pre)) best bits metric"
        by (intro best_upto_keep) simp_all
      with next_round have "\<exists>bits' metric'. best_upto dst keep table (length table)
          (lookupLoop dst keep (Suc (length pre)) rs best bits metric) bits' metric'" by blast
      moreover have "lookupLoop dst keep (length pre) (r # rs) best bits metric =
          lookupLoop dst keep (Suc (length pre)) rs best bits metric"
        unfolding lookupLoop.simps using True worse by (simp only: route_matches_def Let_def if_False if_True not_True_eq_False)
      ultimately show ?thesis by simp
    qed
  qed
qed

lemma LookupFiltered_best:
  "\<exists>bits metric. best_upto dst keep table (length table) (lookupLoop dst keep 0 table None (- 1) maxInt) bits metric"
  using lookupLoop_best [of table "[]" table dst keep None "- 1" maxInt] by (simp add: best_upto_def)

section \<open>Compiled tables\<close>

text \<open>
  The type invariant of a table: each route has one of the four kinds and a metric that is
  not negative, a unicast route names a next hop, and the prefix is masked.
\<close>

definition route_wf :: "compiledRoute \<Rightarrow> bool" where
  "route_wf r \<longleftrightarrow>
     rt_Kind (cr_route r) \<in> {RouteUnicast, RouteLocal, RouteBlackhole, RouteReject} \<and>
     0 \<le> rt_Metric (cr_route r) \<and>
     (rt_Kind (cr_route r) = RouteUnicast \<longrightarrow> TrimSpace (rt_NextHop (cr_route r)) \<noteq> '''') \<and>
     Masked (cr_prefix r) = cr_prefix r"

lemma push_drop_push_drop: "push_bit n (drop_bit n (push_bit n (drop_bit n (a :: 'a :: len word)))) = push_bit n (drop_bit n a)"
  by (simp add: drop_push_drop)

lemma Masked_Masked [simp]: "Masked (Masked p) = Masked p"
proof (cases "Prefix_IsValid p")
  case True
  moreover have "Prefix_IsValid (Masked p)"
    using True by (cases "pf_addr p") (simp_all add: Masked_def Prefix_IsValid_def)
  ultimately show ?thesis
    by (cases "pf_addr p") (simp_all add: Masked_def push_drop_push_drop)
next
  case False
  then show ?thesis by (simp add: Masked_def Prefix_IsValid_def [of "\<lparr>pf_addr = NoAddr, pf_bits = - 1\<rparr>"])
qed

lemma validateKind_wf:
  "validateKind r = None \<Longrightarrow> rt_Kind r \<in> {RouteUnicast, RouteLocal, RouteBlackhole, RouteReject} \<and>
     (rt_Kind r = RouteUnicast \<longrightarrow> TrimSpace (rt_NextHop r) \<noteq> '''')"
  by (auto simp: validateKind_def IXID_Validate_def split: if_splits option.splits)

lemma compileRoute_wf: "compileRoute parse route = Inr c \<Longrightarrow> route_wf c"
  by (auto simp: compileRoute_def Prefix_Parse_def route_wf_def Let_def dest!: validateKind_wf
      split: sum.splits option.splits if_splits)

lemma compileRoutes_wf: "compileRoutes parse routes = Inr cs \<Longrightarrow> list_all route_wf cs"
  by (induction routes arbitrary: cs) (auto simp: compileRoute_wf split: sum.splits)

lemma compileRoutes_map:
  "compileRoutes parse routes = Inr cs \<Longrightarrow> map Inr cs = map (compileRoute parse) routes"
  by (induction routes arbitrary: cs) (auto split: sum.splits)


section \<open>Properties\<close>

definition toy_route :: "string \<Rightarrow> int \<Rightarrow> Route" where
  "toy_route pfx metric =
    \<lparr> rt_Prefix = pfx, rt_Owner = '''', rt_NextHop = ''ix'', rt_Endpoint = '''', rt_Metric = metric,
      rt_Policy = '''', rt_Kind = '''', rt_LocalProtocol = 0, rt_LocalPort = 0, rt_Source = '''', rt_Reason = '''' \<rparr>"

definition toy_parse :: "string \<Rightarrow> Prefix option" where
  "toy_parse s =
    (if s = ''10.0.0.0/8'' then Some \<lparr> pf_addr = V4 0x0A000000, pf_bits = 8 \<rparr>
     else if s = ''10.1.0.0/16'' then Some \<lparr> pf_addr = V4 0x0A010000, pf_bits = 16 \<rparr>
     else None)"

text \<open>
  C40: replacing the table keeps its type invariant.  Whatever routes are offered, the table
  afterwards consists of well-formed routes; it is either the old one, with an error, or
  holds the compilation of exactly the offered routes, in their order.
\<close>

theorem replace_keeps_wf:
  assumes "list_all route_wf table" and "Table_Replace parse routes table = (table', r)"
  shows "list_all route_wf table' \<and>
    (case r of Some err \<Rightarrow> table' = table
     | None \<Rightarrow> map Inr table' = map (compileRoute parse) routes)"
  using assms compileRoutes_wf [of parse routes] compileRoutes_map [of parse routes]
  by (auto simp: Table_Replace_def split: sum.splits)

theorem replace_keeps_wf_witness:
  "list_all route_wf NewTable \<and>
   list_all route_wf (fst (Table_Replace toy_parse [toy_route ''10.0.0.0/8'' 5, toy_route ''10.1.0.0/16'' 9] NewTable)) \<and>
   length (fst (Table_Replace toy_parse [toy_route ''10.0.0.0/8'' 5, toy_route ''10.1.0.0/16'' 9] NewTable)) = 2"
proof -
  let ?routes = "[toy_route ''10.0.0.0/8'' 5, toy_route ''10.1.0.0/16'' 9]"
  obtain table' r where eq: "Table_Replace toy_parse ?routes NewTable = (table', r)" by fastforce
  have "snd (Table_Replace toy_parse ?routes NewTable) = None" by code_simp
  then have "r = None" by (simp add: eq)
  have start: "list_all route_wf NewTable" by (simp add: NewTable_def)
  from replace_keeps_wf [OF start eq] \<open>r = None\<close> have "list_all route_wf table'"
    "length (map Inr table' :: (route_error + compiledRoute) list) = 2" by simp_all
  then show ?thesis using start by (simp add: eq)
qed

text \<open>
  C30: lookup is longest-prefix match.  No decision means that no route of the table that the
  filter admits contains the destination; a decision is such a route, and it is preferred to
  every other one: longer prefix first, then the smaller metric, then the earlier position.
\<close>

theorem lookup_longest_prefix:
  "case LookupFiltered dst keep table of
     None \<Rightarrow> \<forall>r \<in> set table. \<not> route_matches dst keep r
   | Some d \<Rightarrow> \<exists>i < length table.
       d = \<lparr> dc_Route = cr_route (table ! i), dc_Prefix = cr_prefix (table ! i) \<rparr> \<and>
       route_matches dst keep (table ! i) \<and>
       (\<forall>j < length table. route_matches dst keep (table ! j) \<longrightarrow> preferred table i j)"
  using LookupFiltered_best [of dst keep table]
  by (auto simp: LookupFiltered_def best_upto_def all_set_conv_all_nth split: option.splits)

theorem lookup_longest_prefix_witness:
  "let table = fst (Table_Replace toy_parse [toy_route ''10.0.0.0/8'' 5, toy_route ''10.1.0.0/16'' 9] NewTable) in
   (case LookupFiltered (V4 0x0A010203) None table of
      None \<Rightarrow> False
    | Some d \<Rightarrow> \<exists>i < length table.
       d = \<lparr> dc_Route = cr_route (table ! i), dc_Prefix = cr_prefix (table ! i) \<rparr> \<and>
       route_matches (V4 0x0A010203) None (table ! i) \<and>
       (\<forall>j < length table. route_matches (V4 0x0A010203) None (table ! j) \<longrightarrow> preferred table i j))"
proof -
  define table where "table = fst (Table_Replace toy_parse [toy_route ''10.0.0.0/8'' 5, toy_route ''10.1.0.0/16'' 9] NewTable)"
  have "LookupFiltered (V4 0x0A010203) None table \<noteq> None" unfolding table_def by code_simp
  then obtain d where "LookupFiltered (V4 0x0A010203) None table = Some d" by auto
  with lookup_longest_prefix [where dst = "V4 0x0A010203" and keep = None and table = table] show ?thesis
    unfolding Let_def table_def [symmetric] by simp
qed

end
