(* ===== verification/IPv4Packet.thy ===== *)
theory IPv4Packet
  imports TixTCP
begin

unbundle bit_operations_syntax

text \<open>
  The packet routines of \<^verbatim>\<open>internal/daemon/flows.go\<close>: finding the IPv4 header of a captured
  packet (with or without an Ethernet header), the flow key, the time-to-live decrement with
  its incremental checksum, the clamp of the TCP maximum segment size, and the
  normalisation of the checksums a capture may have left to hardware.

  A packet is a list of bytes.  A Go slice \<^verbatim>\<open>ip := packet[o:o+n]\<close> shares its bytes with
  \<^verbatim>\<open>packet\<close>: routines that write through the slice return the packet with the slice
  written back.
\<close>

section \<open>Checksums\<close>

function dm_add32 :: "u32 \<Rightarrow> bytes \<Rightarrow> u32 \<times> bytes" where
  "dm_add32 sm payload =
     (if 32 \<le> length payload then
        let sm = sm + ucast (Uint16 (subslice 0 2 payload));
            sm = sm + ucast (Uint16 (subslice 2 4 payload));
            sm = sm + ucast (Uint16 (subslice 4 6 payload));
            sm = sm + ucast (Uint16 (subslice 6 8 payload));
            sm = sm + ucast (Uint16 (subslice 8 10 payload));
            sm = sm + ucast (Uint16 (subslice 10 12 payload));
            sm = sm + ucast (Uint16 (subslice 12 14 payload));
            sm = sm + ucast (Uint16 (subslice 14 16 payload));
            sm = sm + ucast (Uint16 (subslice 16 18 payload));
            sm = sm + ucast (Uint16 (subslice 18 20 payload));
            sm = sm + ucast (Uint16 (subslice 20 22 payload));
            sm = sm + ucast (Uint16 (subslice 22 24 payload));
            sm = sm + ucast (Uint16 (subslice 24 26 payload));
            sm = sm + ucast (Uint16 (subslice 26 28 payload));
            sm = sm + ucast (Uint16 (subslice 28 30 payload));
            sm = sm + ucast (Uint16 (subslice 30 32 payload))
        in dm_add32 sm (drop 32 payload)
      else (sm, payload))"
  by auto
termination by (relation "measure (\<lambda>(_, p). length p)") auto

function dm_add8 :: "u32 \<Rightarrow> bytes \<Rightarrow> u32 \<times> bytes" where
  "dm_add8 sm payload =
     (if 8 \<le> length payload then
        let v = Uint64 (take 8 payload);
            sm = sm + ucast (drop_bit 48 v);
            sm = sm + ucast (drop_bit 32 v AND 0xffff);
            sm = sm + ucast (drop_bit 16 v AND 0xffff);
            sm = sm + ucast (v AND 0xffff)
        in dm_add8 sm (drop 8 payload)
      else (sm, payload))"
  by auto
termination by (relation "measure (\<lambda>(_, p). length p)") auto

function dm_add2 :: "u32 \<Rightarrow> bytes \<Rightarrow> u32 \<times> bytes" where
  "dm_add2 sm payload =
     (if 1 < length payload then dm_add2 (sm + ucast (Uint16 (take 2 payload))) (drop 2 payload)
      else (sm, payload))"
  by auto
termination by (relation "measure (\<lambda>(_, p). length p)") auto

declare dm_add32.simps [simp del] dm_add8.simps [simp del] dm_add2.simps [simp del]

definition checksumAddBytes :: "u32 \<Rightarrow> bytes \<Rightarrow> u32" where
  "checksumAddBytes sm payload =
     (let (sm, payload) = dm_add32 sm payload;
          (sm, payload) = dm_add8 sm payload;
          (sm, payload) = dm_add2 sm payload
      in if length payload = 1 then sm + push_bit 8 (ucast (payload ! 0)) else sm)"

function checksumFold :: "u32 \<Rightarrow> u16" where
  "checksumFold sm =
     (if drop_bit 16 sm \<noteq> 0 then checksumFold ((sm AND 0xffff) + drop_bit 16 sm) else NOT (ucast sm))"
  by auto
termination by (relation "measure unat") (auto intro: carry_step_less)

declare checksumFold.simps [simp del]

definition ipv4Checksum :: "bytes \<Rightarrow> u16" where
  "ipv4Checksum payload = checksumFold (checksumAddBytes 0 payload)"

definition transportSum :: "bytes \<Rightarrow> bytes \<Rightarrow> byte \<Rightarrow> nat \<Rightarrow> u32" where
  "transportSum src dst protocol n =
     (let sm = checksumAddBytes 0 src;
          sm = checksumAddBytes sm dst;
          sm = sm + ucast protocol
      in sm + word_of_nat n)"

definition transportChecksum :: "bytes \<Rightarrow> bytes \<Rightarrow> byte \<Rightarrow> bytes \<Rightarrow> u16" where
  "transportChecksum src dst protocol segment =
     (let sm = checksumAddBytes (transportSum src dst protocol (length segment)) segment;
          checksum = checksumFold sm
      in if checksum = 0 then 0xffff else checksum)"

text \<open>The loops are those of \<^verbatim>\<open>tixtcp\<close>, so the contract of a checksum follows from there.\<close>

lemma dm_add32_eq: "dm_add32 s p = tix_add32 s p"
  by (induction s p rule: tix_add32.induct) (simp add: dm_add32.simps tix_add32.simps Let_def)

lemma dm_add8_eq: "dm_add8 s p = tix_add8 s p"
  by (induction s p rule: tix_add8.induct) (simp add: dm_add8.simps tix_add8.simps Let_def)

lemma dm_add2_eq: "dm_add2 s p = tix_add2 s p"
  by (induction s p rule: tix_add2.induct) (simp add: dm_add2.simps tix_add2.simps)

lemma checksumAddBytes_eq: "checksumAddBytes = tix_checksumAddBytes"
  by (intro ext) (simp add: checksumAddBytes_def tix_checksumAddBytes_def dm_add32_eq dm_add8_eq dm_add2_eq)

interpretation dm_ck: inet_checksum checksumAddBytes checksumFold
proof unfold_locales
  show "unat (checksumAddBytes s bs) = unat s + bsum bs" if "unat s + bsum bs < 4294967296" for s bs
    using that by (simp add: checksumAddBytes_eq tix_ck.addBytes_spec)
  show "unat (checksumFold s) = 65535 - oc (unat s)" for s
    by (rule fold_loop_spec) (rule checksumFold.simps)
qed


section \<open>Headers\<close>

datatype pkt_error =
    TooShortForIPv4 nat | NotIPv4 | InvalidIHL nat | InvalidTotalLen nat nat | TTLExpired
  | TooShortFor string | InvalidLengthFor string nat | AddrNotIPv4 | OnlyIPv4

definition ethOffset :: "bytes \<Rightarrow> nat" where
  "ethOffset packet = (if 14 \<le> length packet \<and> Uint16 (subslice 12 14 packet) = 0x0800 then 14 else 0)"

definition ipv4HeaderBounds :: "bytes \<Rightarrow> pkt_error + (nat \<times> nat \<times> nat)" where
  "ipv4HeaderBounds packet =
    (let ipOffset = ethOffset packet in
     if length packet < ipOffset + 20 then Inl (TooShortForIPv4 (length packet - ipOffset))
     else let ip = drop ipOffset packet in
       if drop_bit 4 (ip ! 0) \<noteq> 4 then Inl NotIPv4
       else let ihl = unat (ip ! 0 AND 0x0f) * 4 in
         if ihl < 20 \<or> length ip < ihl then Inl (InvalidIHL ihl)
         else let totalLen = unat (Uint16 (subslice 2 4 ip)) in
           if totalLen < ihl \<or> length ip < totalLen then Inl (InvalidTotalLen totalLen (length ip))
           else Inr (ipOffset, ihl, totalLen))"

definition fragmentMask :: u16 where "fragmentMask = 0x2000 OR 0x1fff"

definition fragmented :: "bytes \<Rightarrow> bool" where
  "fragmented ip \<longleftrightarrow> Uint16 (subslice 6 8 ip) AND fragmentMask \<noteq> 0"

record FlowKey =
  fk_SourceIP :: Addr
  fk_DestinationIP :: Addr
  fk_SourcePort :: u16
  fk_DestinationPort :: u16
  fk_Protocol :: u8

definition flowKeyFromIPv4Packet :: "bytes \<Rightarrow> FlowKey option" where
  "flowKeyFromIPv4Packet packet =
    (let packet = drop (ethOffset packet) packet in
     if length packet < 20 \<or> drop_bit 4 (packet ! 0) \<noteq> 4 then None
     else let ihl = unat (packet ! 0 AND 0x0f) * 4 in
       if ihl < 20 \<or> length packet < ihl then None
       else let totalLen = unat (Uint16 (subslice 2 4 packet)) in
         if totalLen < ihl \<or> length packet < totalLen then None
         else if Uint16 (subslice 6 8 packet) AND 0x1fff \<noteq> 0 then None
         else
           let key = \<lparr> fk_SourceIP = AddrFrom4 (subslice 12 16 packet),
                       fk_DestinationIP = AddrFrom4 (subslice 16 20 packet),
                       fk_SourcePort = 0, fk_DestinationPort = 0, fk_Protocol = packet ! 9 \<rparr>
           in if fk_Protocol key = 6 \<or> fk_Protocol key = 17 then
                (if totalLen < ihl + 4 then None
                 else Some (key \<lparr> fk_SourcePort := Uint16 (subslice ihl (ihl + 2) packet),
                                  fk_DestinationPort := Uint16 (subslice (ihl + 2) (ihl + 4) packet) \<rparr>))
              else Some key)"

definition ipv4PacketFragmented :: "bytes \<Rightarrow> bool" where
  "ipv4PacketFragmented packet =
    (let packet = drop (ethOffset packet) packet in
     if length packet < 20 \<or> drop_bit 4 (packet ! 0) \<noteq> 4 then False
     else let ihl = unat (packet ! 0 AND 0x0f) * 4 in
       if ihl < 20 \<or> length packet < ihl then False
       else fragmented packet)"

definition ipv4Destination :: "bytes \<Rightarrow> pkt_error + Addr" where
  "ipv4Destination packet =
    (case ipv4HeaderBounds packet of Inl err \<Rightarrow> Inl err
     | Inr (ipOffset, _, _) \<Rightarrow> Inr (AddrFrom4 (subslice 16 20 (drop ipOffset packet))))"


section \<open>Time to live\<close>

definition decrementIPv4TTLAndChecksumInPlace :: "bytes \<Rightarrow> nat \<Rightarrow> bytes" where
  "decrementIPv4TTLAndChecksumInPlace ip ihl =
    (if length ip < ihl \<or> ihl < 20 then ip
     else
       let oldWord = Uint16 (subslice 8 10 ip);
           newWord = oldWord - 0x0100;
           oldChecksum = Uint16 (subslice 10 12 ip);
           ip = ip[8 := ip ! 8 - 1];
           sm = ucast (NOT oldChecksum AND 0xffff) + ucast (NOT oldWord AND 0xffff) + ucast newWord
       in PutUint16 10 (checksumFold sm) ip)"

definition decrementIPv4TTL :: "bytes \<Rightarrow> pkt_error + bytes" where
  "decrementIPv4TTL packet =
    (case ipv4HeaderBounds packet of Inl err \<Rightarrow> Inl err
     | Inr (ipOffset, ihl, totalLen) \<Rightarrow>
       let ip = subslice ipOffset (ipOffset + totalLen) packet in
       if ip ! 8 \<le> 1 then Inl TTLExpired
       else Inr (overwrite ipOffset (decrementIPv4TTLAndChecksumInPlace ip ihl) packet))"

text \<open>The in-place variants return the packet they leave behind, with the error if any.\<close>

definition decrementIPv4TTLInPlace :: "bytes \<Rightarrow> bytes \<times> pkt_error option" where
  "decrementIPv4TTLInPlace packet =
    (case ipv4HeaderBounds packet of Inl err \<Rightarrow> (packet, Some err)
     | Inr (ipOffset, ihl, totalLen) \<Rightarrow>
       let ip = subslice ipOffset (ipOffset + totalLen) packet in
       if ip ! 8 \<le> 1 then (packet, Some TTLExpired)
       else (overwrite ipOffset (decrementIPv4TTLAndChecksumInPlace ip ihl) packet, None))"

definition decrementIPv4TTLBeforeChecksumInPlace :: "bytes \<Rightarrow> bytes \<times> pkt_error option" where
  "decrementIPv4TTLBeforeChecksumInPlace packet =
    (case ipv4HeaderBounds packet of Inl err \<Rightarrow> (packet, Some err)
     | Inr (ipOffset, ihl, totalLen) \<Rightarrow>
       let ip = subslice ipOffset (ipOffset + totalLen) packet in
       if ip ! 8 \<le> 1 then (packet, Some TTLExpired)
       else (overwrite ipOffset (ip[8 := ip ! 8 - 1]) packet, None))"


section \<open>Maximum segment size\<close>

text \<open>
  The guards of \<open>clampCapturedTCPMSSInPlaceWithMSS\<close>, which
  \<open>capturedPacketNeedsTCPMSSClamp\<close> repeats: the position in the packet of the options of an
  unfragmented TCP SYN segment.
\<close>

definition synOptions :: "bytes \<Rightarrow> (nat \<times> nat) option" where
  "synOptions packet =
    (let ipOffset = ethOffset packet in
     if length packet < ipOffset + 20 then None
     else let ip = drop ipOffset packet in
       if drop_bit 4 (ip ! 0) \<noteq> 4 \<or> ip ! 9 \<noteq> 6 then None
       else let ihl = unat (ip ! 0 AND 0x0f) * 4 in
         if ihl < 20 \<or> length ip < ihl + 20 then None
         else let totalLen = unat (Uint16 (subslice 2 4 ip)) in
           if totalLen < ihl + 20 \<or> length ip < totalLen then None
           else if fragmented ip then None
           else
             let tcp = subslice ihl totalLen ip;
                 hlen = unat (drop_bit 4 (tcp ! 12)) * 4
             in if hlen < 20 \<or> length tcp < hlen \<or> tcp ! 13 AND 0x02 = 0 then None
                else Some (ipOffset + ihl + 20, ipOffset + ihl + hlen))"

text \<open>The scan of the options: the position of the first MSS option of length 4, if the scan reaches one.\<close>

function mssOption :: "bytes \<Rightarrow> nat \<Rightarrow> nat option" where
  "mssOption options i =
    (if length options \<le> i then None
     else if options ! i = 0 then None
     else if options ! i = 1 then mssOption options (i + 1)
     else if length options \<le> i + 1 then None
     else let n = unat (options ! (i + 1)) in
       if n < 2 \<or> length options < i + n then None
       else if options ! i = 2 \<and> n = 4 then Some i
       else mssOption options (i + n))"
  by auto
termination by (relation "measure (\<lambda>(options, i). length options - i)") auto

declare mssOption.simps [simp del]

definition clampCapturedTCPMSSInPlaceWithMSS :: "bytes \<Rightarrow> int \<Rightarrow> bytes" where
  "clampCapturedTCPMSSInPlaceWithMSS packet mss =
    (if mss \<le> 0 \<or> 0xffff < mss then packet
     else (case synOptions packet of None \<Rightarrow> packet
       | Some (a, b) \<Rightarrow>
         (case mssOption (subslice a b packet) 0 of None \<Rightarrow> packet
          | Some i \<Rightarrow>
            let current = Uint16 (subslice (i + 2) (i + 4) (subslice a b packet)) in
            if word_of_int mss < current
            then overwrite a (PutUint16 (i + 2) (word_of_int mss) (subslice a b packet)) packet
            else packet)))"

definition capturedPacketNeedsTCPMSSClamp :: "bytes \<Rightarrow> int \<Rightarrow> bool" where
  "capturedPacketNeedsTCPMSSClamp packet mss =
    (if mss \<le> 0 \<or> 0xffff < mss then False
     else (case synOptions packet of None \<Rightarrow> False
       | Some (a, b) \<Rightarrow>
         (case mssOption (subslice a b packet) 0 of None \<Rightarrow> False
          | Some i \<Rightarrow> word_of_int mss < Uint16 (subslice (i + 2) (i + 4) (subslice a b packet)))))"


section \<open>Recomputing checksums\<close>

text \<open>
  The last part of \<open>normalizeCapturedIPv4ChecksumsInPlace\<close> and of \<open>rewriteIPv4Address\<close>, on an
  unfragmented IPv4 packet without trailing bytes: the transport checksum by protocol.  The
  first routine returns silently where the second reports the error, so the error is the
  left result.
\<close>

definition fixTransport :: "bytes \<Rightarrow> nat \<Rightarrow> pkt_error + bytes" where
  "fixTransport ip ihl =
    (let segment = drop ihl ip in
     if ip ! 9 = 6 then
       (if length segment < 20 then Inl (TooShortFor ''TCP'')
        else let hlen = unat (drop_bit 4 (segment ! 12)) * 4 in
          if hlen < 20 \<or> length segment < hlen then Inl (InvalidLengthFor ''TCP'' hlen)
          else
            let segment = PutUint16 16 0 segment;
                segment = PutUint16 16 (transportChecksum (subslice 12 16 ip) (subslice 16 20 ip) (ip ! 9) segment) segment
            in Inr (take ihl ip @ segment))
     else if ip ! 9 = 17 then
       (if length segment < 8 then Inl (TooShortFor ''UDP'')
        else let udpLen = unat (Uint16 (subslice 4 6 segment)) in
          if udpLen < 8 \<or> length segment < udpLen then Inl (InvalidLengthFor ''UDP'' udpLen)
          else
            let udp = take udpLen segment;
                udp = PutUint16 6 0 udp;
                udp = PutUint16 6 (transportChecksum (subslice 12 16 ip) (subslice 16 20 ip) (ip ! 9) udp) udp
            in Inr (take ihl ip @ udp @ drop udpLen segment))
     else if ip ! 9 = 1 then
       (if length segment < 8 then Inl (TooShortFor ''ICMP'')
        else
          let segment = PutUint16 2 0 segment;
              segment = PutUint16 2 (ipv4Checksum segment) segment
          in Inr (take ihl ip @ segment))
     else Inr ip)"

definition fixHeader :: "bytes \<Rightarrow> nat \<Rightarrow> bytes" where
  "fixHeader ip ihl =
    (let ip = PutUint16 10 0 ip in PutUint16 10 (ipv4Checksum (take ihl ip)) ip)"

definition normalizeCapturedIPv4ChecksumsInPlace :: "bytes \<Rightarrow> bytes" where
  "normalizeCapturedIPv4ChecksumsInPlace packet =
    (case ipv4HeaderBounds packet of Inl _ \<Rightarrow> packet
     | Inr (ipOffset, ihl, totalLen) \<Rightarrow>
       let ip = fixHeader (subslice ipOffset (ipOffset + totalLen) packet) ihl in
       overwrite ipOffset
         (if fragmented ip then ip else (case fixTransport ip ihl of Inl _ \<Rightarrow> ip | Inr ip' \<Rightarrow> ip'))
         packet)"

definition normalizeCapturedIPv4ChecksumsWithMSS :: "bytes \<Rightarrow> int \<Rightarrow> bytes" where
  "normalizeCapturedIPv4ChecksumsWithMSS packet mss =
    normalizeCapturedIPv4ChecksumsInPlace (clampCapturedTCPMSSInPlaceWithMSS packet mss)"

section \<open>Header bounds\<close>

lemma ipv4HeaderBounds_facts:
  assumes "ipv4HeaderBounds p = Inr (off, ihl, n)"
  shows "off = ethOffset p" "20 \<le> ihl" "ihl \<le> n" "off + n \<le> length p" "n \<le> 65535"
    "drop_bit 4 (p ! off) = 4" "ihl = unat (p ! off AND 0x0f) * 4" "n = unat (Uint16 (subslice (off + 2) (off + 4) p))"
proof -
  have sub: "subslice 2 4 (drop k p) = subslice (k + 2) (k + 4) p" for k
    by (simp add: subslice_def add.commute)
  show "off = ethOffset p" "20 \<le> ihl" "ihl \<le> n" "off + n \<le> length p"
    "drop_bit 4 (p ! off) = 4" "ihl = unat (p ! off AND 0x0f) * 4" "n = unat (Uint16 (subslice (off + 2) (off + 4) p))"
    using assms by (auto simp: ipv4HeaderBounds_def Let_def sub split: if_splits)
  then show "n \<le> 65535" using unat_u16_less [of "Uint16 (subslice (off + 2) (off + 4) p)"] by simp
qed

text \<open>The IPv4 packet proper, and writing it back.\<close>

definition ipv4Slice :: "bytes \<Rightarrow> nat \<Rightarrow> nat \<Rightarrow> bytes" where
  "ipv4Slice p off n = subslice off (off + n) p"

lemma length_ipv4Slice [simp]: "off + n \<le> length p \<Longrightarrow> length (ipv4Slice p off n) = n"
  by (simp add: ipv4Slice_def)

lemma nth_ipv4Slice: "i < n \<Longrightarrow> off + n \<le> length p \<Longrightarrow> ipv4Slice p off n ! i = p ! (off + i)"
  by (simp add: ipv4Slice_def subslice_def)

lemma ipv4Slice_overwrite: "length ip = n \<Longrightarrow> off + n \<le> length p \<Longrightarrow> ipv4Slice (overwrite off ip p) off n = ip"
  by (auto simp: ipv4Slice_def intro: subslice_overwrite_same)


section \<open>Header checksum\<close>

lemma bsum_bound_u16: "length xs \<le> 65535 \<Longrightarrow> bsum xs \<le> 2147483648"
  using bsum_bound [of xs] mult_le_mono2 [of "(length xs + 1) div 2" 32768 65535] by linarith

lemma unat_add0: "length xs \<le> 65535 \<Longrightarrow> unat (checksumAddBytes 0 xs) = bsum xs"
  using bsum_bound_u16 [of xs] dm_ck.addBytes_spec [of 0 xs] by simp

lemma ipv4Checksum_zero_iff:
  "length xs \<le> 65535 \<Longrightarrow> ipv4Checksum xs = 0 \<longleftrightarrow> bsum xs \<noteq> 0 \<and> bsum xs mod 65535 = 0"
  by (simp add: ipv4Checksum_def dm_ck.foldSum_eq_0_iff unat_add0)

lemma unat_ipv4Checksum: "length xs \<le> 65535 \<Longrightarrow> unat (ipv4Checksum xs) = 65535 - oc (bsum xs)"
  by (simp add: ipv4Checksum_def dm_ck.foldSum_spec unat_add0)

lemma bsum_pos: "xs \<noteq> [] \<Longrightarrow> xs ! 0 \<noteq> 0 \<Longrightarrow> bsum xs \<noteq> 0"
  by (cases xs rule: bsum.cases) (auto simp: unat_eq_0)

lemma PutUint16_twice: "off + 2 \<le> length xs \<Longrightarrow> PutUint16 off v (PutUint16 off w xs) = PutUint16 off v xs"
  by (simp add: overwrite_def)

lemma Uint16_PutUint16: "off + 2 \<le> length xs \<Longrightarrow> Uint16 (drop off (PutUint16 off v xs)) = v"
  by (rule be16.get_put) simp

lemma take_PutUint16: "off + 2 \<le> k \<Longrightarrow> k \<le> length xs \<Longrightarrow> take k (PutUint16 off v xs) = PutUint16 off v (take k xs)"
  by (simp add: overwrite_def min_def drop_take)

lemma length_PutUint16 [simp]: "off + 2 \<le> length xs \<Longrightarrow> length (PutUint16 off v xs) = length xs"
  by simp

lemma nth_PutUint16: "off + 2 \<le> length xs \<Longrightarrow> i < length xs \<Longrightarrow> i < off \<or> off + 2 \<le> i \<Longrightarrow> PutUint16 off v xs ! i = xs ! i"
  by (subst nth_overwrite) auto

lemma length_fixHeader [simp]: "20 \<le> length ip \<Longrightarrow> length (fixHeader ip ihl) = length ip"
  by (simp add: fixHeader_def Let_def)

text \<open>A recomputed header checksum verifies.\<close>

lemma fixHeader_verifies:
  assumes "20 \<le> ihl" and "ihl \<le> length ip" and "ihl \<le> 65535"
  shows "ipv4Checksum (take ihl (fixHeader ip ihl)) = 0"
proof -
  let ?z = "take ihl (PutUint16 10 0 ip)"
  have len: "length ?z = ihl" using assms by simp
  have "Uint16 (drop 10 ?z) = 0"
    using assms Uint16_PutUint16 [of 10 "take ihl ip" 0] by (simp add: take_PutUint16)
  then have "checksumFold (checksumAddBytes 0 (PutUint16 10 (ipv4Checksum ?z) ?z)) = 0"
    using assms(1) len bsum_bound_u16 [of ?z] assms(3)
    by (intro dm_ck.stored_checksum_verifies) (simp_all add: ipv4Checksum_def)
  moreover have "take ihl (fixHeader ip ihl) = PutUint16 10 (ipv4Checksum ?z) ?z"
    using assms by (simp add: fixHeader_def Let_def take_PutUint16 PutUint16_twice)
  ultimately show ?thesis by (simp add: ipv4Checksum_def)
qed

text \<open>
  The incremental update gives exactly the checksum a full recomputation gives, when the
  header verified before.
\<close>

lemma u16_not_and: "unat (ucast (NOT (v :: u16) AND 0xffff) :: u32) = 65535 - unat v"
proof -
  have "(0xffff :: u16) = - 1" by simp
  then have "NOT v AND 0xffff = NOT v" by (simp only: and.right_neutral)
  moreover have "unat (NOT v) = 65535 - unat v"
  proof -
    have "NOT v = - 1 - v" by (simp add: not_eq_complement)
    moreover have "unat (- 1 :: u16) = 65535" by (simp add: unsigned_minus_1_eq_mask mask_eq_exp_minus_1)
    ultimately show ?thesis using unat_sub [OF word_order.extremum, of v] by (simp only:)
  qed
  moreover have "unat (NOT v) < 65536" by (rule unat_u16_less)
  ultimately show ?thesis by (simp add: unsigned_ucast_eq take_bit_eq_mod)
qed

lemma unat_list_head16:
  assumes "i + 2 \<le> length xs"
  shows "unat (Uint16 (subslice i (i + 2) xs)) = 256 * unat (xs ! i) + unat (xs ! (i + 1))"
proof -
  have "subslice i (i + 2) xs = [xs ! i, xs ! (i + 1)]"
    using assms subslice_append [of i "i + 1" "i + 2" xs] subslice_single [of i xs] subslice_single [of "i + 1" xs]
    by simp
  then show ?thesis by (simp add: unat_Uint16)
qed

lemma oc_minus_multiple:
  assumes "n mod 65535 = 0" and "k \<le> n" and "k < n" and "k < 131070"
  shows "oc (131070 - k) = oc (n - k)"
proof (rule oc_cong)
  show "131070 - k \<noteq> 0" "n - k \<noteq> 0" using assms by simp_all
  have "(131070 - k + n) mod 65535 = (n - k + 131070) mod 65535"
    using assms by (simp add: add.commute)
  moreover have "(131070 - k + n) mod 65535 = (131070 - k) mod 65535"
    using mod_add_eq [of "131070 - k" 65535 n] assms(1) by (simp only: add_0_right mod_mod_trivial)
  moreover have "(n - k + 131070) mod 65535 = (n - k) mod 65535"
    using mod_add_eq [of "n - k" 65535 131070] by simp
  ultimately show "(131070 - k) mod 65535 = (n - k) mod 65535" by simp
qed

lemma unat_dec_byte: "1 \<le> (b :: byte) \<Longrightarrow> unat (b - 1) = unat b - 1"
  by (simp add: unat_sub)

lemma ttl_header_sum:
  assumes "20 \<le> length h" and "1 \<le> h ! 8"
  shows "bsum (PutUint16 10 0 (h[8 := h ! 8 - 1])) + unat (Uint16 (subslice 10 12 h)) + 256 = bsum h"
proof -
  have "bsum (h[8 := h ! 8 - 1]) + 256 * unat (h ! 8) = bsum h + 256 * unat (h ! 8 - 1)"
    using bsum_list_update [of 8 h "h ! 8 - 1"] assms(1) by (simp add: byte_weight_def)
  moreover have "1 \<le> unat (h ! 8)" using assms(2) by (simp add: word_le_nat_alt)
  ultimately have dec: "bsum (h[8 := h ! 8 - 1]) + 256 = bsum h"
    using unat_dec_byte [OF assms(2)] by simp
  have "Uint16 (drop 10 (h[8 := h ! 8 - 1])) = Uint16 (subslice 10 12 h)"
    by (simp add: subslice_def be16.dec_take assms(1) Uint16_def)
  then show ?thesis
    using bsum_PutUint16 [of 10 "h[8 := h ! 8 - 1]" 0] assms(1) dec by simp
qed

lemma ttl_incremental:
  assumes "20 \<le> ihl" and "ihl \<le> length ip" and "ihl \<le> 65535" and "1 < ip ! 8" and "ip ! 0 \<noteq> 0"
    and ok: "ipv4Checksum (take ihl ip) = 0"
  shows "decrementIPv4TTLAndChecksumInPlace ip ihl = fixHeader (ip[8 := ip ! 8 - 1]) ihl"
proof -
  define h where "h = take ihl ip"
  have h: "length h = ihl" "h ! 8 = ip ! 8" "h ! 0 = ip ! 0" "subslice 8 10 h = subslice 8 10 ip" "subslice 10 12 h = subslice 10 12 ip"
    using assms(1,2) by (simp_all add: h_def subslice_def drop_take)
  define old oldc where "old = Uint16 (subslice 8 10 ip)" and "oldc = Uint16 (subslice 10 12 ip)"
  let ?z = "PutUint16 10 0 (h[8 := h ! 8 - 1])"
  define sm :: u32 where "sm = ucast (NOT oldc AND 0xffff) + ucast (NOT old AND 0xffff) + ucast (old - 0x0100)"
  have ttl: "2 \<le> unat (ip ! 8)" using assms(4) by (simp add: word_less_nat_alt)
  have old: "unat old = 256 * unat (ip ! 8) + unat (ip ! 9)" "unat old < 65536" "unat oldc < 65536"
    using unat_list_head16 [of 8 ip] assms(1,2) by (simp add: old_def) (rule unat_u16_less)+
  have new: "unat (old - 0x0100) = unat old - 256"
    using old ttl by (simp add: unat_sub word_le_nat_alt)
  then have "unat (ucast (old - 0x0100) :: u32) = unat old - 256"
    using old(2) by (simp add: unsigned_ucast_eq take_bit_eq_mod)
  then have sm: "unat sm = 131070 - (unat oldc + 256)"
    using old ttl by (simp add: sm_def unat_word_ariths u16_not_and)
  have n: "bsum h \<noteq> 0" "bsum h mod 65535 = 0"
    using ok assms(3) h(1) by (simp_all add: ipv4Checksum_zero_iff flip: h_def)
  have sum: "bsum ?z + (unat oldc + 256) = bsum h"
    using ttl_header_sum [of h] h assms(1,4) by (simp add: oldc_def word_le_nat_alt word_less_nat_alt)
  have z0: "?z ! 0 = ip ! 0" using h assms(1) by (simp add: nth_overwrite)
  have "bsum ?z \<noteq> 0"
    using assms(1,5) h(1) z0 by (intro bsum_pos) (auto simp: overwrite_def)
  moreover have "bsum ?z = bsum h - (unat oldc + 256)" using sum by linarith
  ultimately have "oc (unat sm) = oc (bsum ?z)"
    using oc_minus_multiple [OF n(2), of "unat oldc + 256"] old(3) by (simp add: sm)
  moreover have "length ?z \<le> 65535" using h(1) assms(1,3) by simp
  ultimately have "checksumFold sm = ipv4Checksum ?z"
    by (simp add: word_unat_eq_iff dm_ck.foldSum_spec unat_ipv4Checksum)
  moreover have "take ihl (PutUint16 10 0 (ip[8 := ip ! 8 - 1])) = ?z"
    using assms(1,2) h(2) by (subst take_PutUint16) (simp_all add: h_def take_update_swap)
  ultimately show ?thesis
    using assms(1,2) by (simp add: decrementIPv4TTLAndChecksumInPlace_def fixHeader_def Let_def
        PutUint16_twice flip: old_def oldc_def sm_def)
qed

section \<open>The MSS clamp\<close>

lemma mssOption_Some:
  "mssOption opts j = Some i \<Longrightarrow> j \<le> i \<and> i + 4 \<le> length opts \<and> opts ! i = 2 \<and> unat (opts ! (i + 1)) = 4"
proof (induction opts j rule: mssOption.induct)
  case (1 opts j)
  show ?case
    using "1.prems" "1.IH" by (subst (asm) (1) mssOption.simps) (auto simp: Let_def split: if_splits)
qed

text \<open>The scan does not look at the value of the option it finds.\<close>

lemma mssOption_cong:
  assumes "mssOption opts j = Some i" and "length opts' = length opts"
    and "\<And>k. k < i + 2 \<Longrightarrow> opts' ! k = opts ! k"
  shows "mssOption opts' j = Some i"
  using assms
proof (induction opts j rule: mssOption.induct)
  case (1 opts j)
  have le: "j \<le> i" using mssOption_Some [OF "1.prems"(1)] by simp
  have same: "opts' ! j = opts ! j" "opts' ! (j + 1) = opts ! (j + 1)" using "1.prems"(3) le by simp_all
  have eq: "mssOption opts j = Some i" by fact
  show ?case
  proof (cases "opts ! j = 1")
    case True
    then have "j < length opts" "mssOption opts (j + 1) = Some i"
      using eq by (subst (asm) mssOption.simps, simp split: if_splits)+
    with True "1.IH"(1) "1.prems"(2,3) have "mssOption opts' (j + 1) = Some i" by simp
    with True \<open>j < length opts\<close> same "1.prems"(2) show ?thesis by (subst mssOption.simps) simp
  next
    case False
    let ?n = "unat (opts ! (j + 1))"
    from False eq have g: "j + 1 < length opts" "opts ! j \<noteq> 0" "2 \<le> ?n" "j + ?n \<le> length opts"
      by (subst (asm) mssOption.simps, simp add: Let_def not_less split: if_splits)+
    show ?thesis
    proof (cases "opts ! j = 2 \<and> ?n = 4")
      case True
      with eq False g have "i = j" by (subst (asm) mssOption.simps) (simp add: Let_def)
      with True False g same "1.prems"(2) show ?thesis by (subst mssOption.simps) (simp add: Let_def)
    next
      case other: False
      with eq False g have "mssOption opts (j + ?n) = Some i"
        by (subst (asm) mssOption.simps) (auto simp: Let_def)
      with other False g "1.IH"(2) "1.prems"(2,3) have "mssOption opts' (j + ?n) = Some i" by auto
      with other False g same "1.prems"(2) show ?thesis by (subst mssOption.simps) (auto simp: Let_def)
    qed
  qed
qed

lemma synOptions_Some:
  assumes "synOptions p = Some (a, b)"
  shows "40 \<le> a" "a \<le> b" "b \<le> length p"
proof -
  show "a \<le> b" "b \<le> length p" "40 \<le> a"
    using assms by (auto simp: synOptions_def Let_def split: if_splits)
qed

lemma subslice_take_cong: "take a q = take a p \<Longrightarrow> j \<le> a \<Longrightarrow> subslice i j q = subslice i j p"
proof -
  assume eq: "take a q = take a p" and j: "j \<le> a"
  have "subslice i j xs = drop i (take j (take a xs))" for xs :: "'a list"
    using j by (simp add: subslice_def drop_take min_absorb1)
  then show ?thesis using eq by metis
qed

lemma nth_take_cong: "take a q = take a p \<Longrightarrow> k < a \<Longrightarrow> q ! k = p ! k"
  by (metis nth_take)

lemma ethOffset_cong: "take a q = take a p \<Longrightarrow> 14 \<le> a \<Longrightarrow> length q = length p \<Longrightarrow> ethOffset q = ethOffset p"
  using subslice_take_cong [of a q p 14 12] by (simp add: ethOffset_def)

lemma subslice_drop: "subslice i j (drop k xs) = subslice (k + i) (k + j) xs"
  by (simp add: subslice_def add.commute)

lemma subslice_nth: "i + k < j \<Longrightarrow> j \<le> length xs \<Longrightarrow> subslice i j xs ! k = xs ! (i + k)"
  by (simp add: subslice_def)

lemma synOptions_iff:
  "synOptions p = Some (a, b) \<longleftrightarrow>
    (let off = ethOffset p; ihl = unat (p ! off AND 0x0f) * 4; n = unat (Uint16 (subslice (off + 2) (off + 4) p));
         h = unat (drop_bit 4 (p ! (off + (ihl + 12)))) * 4
     in off + 20 \<le> length p \<and> drop_bit 4 (p ! off) = 4 \<and> p ! (off + 9) = 6 \<and> 20 \<le> ihl \<and>
        off + (ihl + 20) \<le> length p \<and> ihl + 20 \<le> n \<and> off + n \<le> length p \<and>
        Uint16 (subslice (off + 6) (off + 8) p) AND fragmentMask = 0 \<and>
        20 \<le> h \<and> ihl + h \<le> n \<and> p ! (off + (ihl + 13)) AND 0x02 \<noteq> 0 \<and>
        a = off + (ihl + 20) \<and> b = off + (ihl + h))"
proof -
  let ?o = "ethOffset p"
  have t: "subslice i m (drop ?o p) ! k = p ! (?o + (i + k))" if "i + k < m" "?o + m \<le> length p" for i m k
    using that by (subst subslice_nth) simp_all
  define off where "off = ?o"
  define ihl where "ihl = unat (p ! off AND 0x0f) * 4"
  define n where "n = unat (Uint16 (subslice (off + 2) (off + 4) p))"
  show ?thesis
  proof (cases "off + 20 \<le> length p \<and> drop_bit 4 (p ! off) = 4 \<and> p ! (off + 9) = 6 \<and> 20 \<le> ihl \<and>
      off + (ihl + 20) \<le> length p \<and> ihl + 20 \<le> n \<and> off + n \<le> length p")
    case True
    then have "subslice ihl n (drop off p) ! k = p ! (off + (ihl + k))" if "k < 20" for k
      using t [of ihl k n] that by (simp add: off_def)
    then have "subslice ihl n (drop off p) ! 12 = p ! (off + (ihl + 12))" "subslice ihl n (drop off p) ! 13 = p ! (off + (ihl + 13))"
      by simp_all
    with True show ?thesis
      unfolding synOptions_def Let_def off_def [symmetric]
      by (simp add: subslice_drop fragmented_def not_less flip: ihl_def n_def del: add_2_eq_Suc') auto
  next
    case False
    then consider "\<not> off + 20 \<le> length p" | "off + 20 \<le> length p" "drop_bit 4 (p ! off) \<noteq> 4 \<or> p ! (off + 9) \<noteq> 6"
      | "off + 20 \<le> length p" "drop_bit 4 (p ! off) = 4" "p ! (off + 9) = 6" "\<not> (20 \<le> ihl \<and> off + (ihl + 20) \<le> length p)"
      | "off + 20 \<le> length p" "drop_bit 4 (p ! off) = 4" "p ! (off + 9) = 6" "20 \<le> ihl \<and> off + (ihl + 20) \<le> length p"
        "\<not> (ihl + 20 \<le> n \<and> off + n \<le> length p)"
      by blast
    then have "synOptions p = None"
      by cases (auto simp: synOptions_def Let_def subslice_drop simp flip: off_def ihl_def n_def simp del: add_2_eq_Suc')
    with False show ?thesis unfolding off_def [symmetric] Let_def ihl_def [symmetric] n_def [symmetric] by auto
  qed
qed

lemma synOptions_cong:
  assumes "synOptions p = Some (a, b)" and "take a q = take a p" and "length q = length p"
  shows "synOptions q = Some (a, b)"
proof -
  define off where "off = ethOffset p"
  define ihl where "ihl = unat (p ! off AND 0x0f) * 4"
  have a: "a = off + (ihl + 20)" "20 \<le> ihl"
    using assms(1) by (simp_all add: synOptions_iff Let_def off_def ihl_def)
  have o: "ethOffset q = off" unfolding off_def using assms(2) _ assms(3) by (rule ethOffset_cong) (simp add: a)
  have s: "subslice i j q = subslice i j p" if "j \<le> a" for i j
    using assms(2) that by (rule subslice_take_cong)
  have n: "q ! k = p ! k" if "k < a" for k
    using assms(2) that by (rule nth_take_cong)
  have ihl: "unat (q ! off AND 0x0f) * 4 = ihl" using n [of off] a by (simp add: ihl_def)
  have eqs: "q ! off = p ! off" "q ! (off + 9) = p ! (off + 9)"
    "subslice (off + 2) (off + 4) q = subslice (off + 2) (off + 4) p"
    "subslice (off + 6) (off + 8) q = subslice (off + 6) (off + 8) p"
    "q ! (off + (ihl + 12)) = p ! (off + (ihl + 12))" "q ! (off + (ihl + 13)) = p ! (off + (ihl + 13))"
    using a by (auto intro!: s n)
  show ?thesis
    using assms(1) unfolding synOptions_iff Let_def o ihl off_def [symmetric] ihl_def [symmetric] assms(3) eqs .
qed

lemma clamp_cases:
  assumes "clampCapturedTCPMSSInPlaceWithMSS p mss = q"
  obtains (same) "q = p" "\<not> capturedPacketNeedsTCPMSSClamp p mss"
  | (clamped) a b i where "0 < mss" "mss \<le> 0xffff" "synOptions p = Some (a, b)" "mssOption (subslice a b p) 0 = Some i"
      "capturedPacketNeedsTCPMSSClamp p mss" "word_of_int mss < Uint16 (subslice (i + 2) (i + 4) (subslice a b p))"
      "q = overwrite a (PutUint16 (i + 2) (word_of_int mss) (subslice a b p)) p"
proof (cases "capturedPacketNeedsTCPMSSClamp p mss")
  case False
  then have "q = p"
    using assms unfolding clampCapturedTCPMSSInPlaceWithMSS_def capturedPacketNeedsTCPMSSClamp_def Let_def
    by (simp split: if_splits option.splits prod.splits)
  with False same show ?thesis by blast
next
  case True
  then obtain a b i where *: "\<not> (mss \<le> 0 \<or> 0xffff < mss)" "synOptions p = Some (a, b)" "mssOption (subslice a b p) 0 = Some i"
    "word_of_int mss < Uint16 (subslice (i + 2) (i + 4) (subslice a b p))"
    unfolding capturedPacketNeedsTCPMSSClamp_def by (force split: if_splits option.splits prod.splits)
  with assms have "q = overwrite a (PutUint16 (i + 2) (word_of_int mss) (subslice a b p)) p"
    by (simp add: clampCapturedTCPMSSInPlaceWithMSS_def Let_def)
  moreover from *(1) have "0 < mss" "mss \<le> 0xffff" by simp_all
  ultimately show ?thesis using * True by (intro clamped)
qed

lemma clamp_effect:
  assumes "synOptions p = Some (a, b)" and "mssOption (subslice a b p) 0 = Some i"
    and "q = overwrite a (PutUint16 (i + 2) v (subslice a b p)) p"
  shows "length q = length p" "synOptions q = Some (a, b)" "mssOption (subslice a b q) 0 = Some i"
    "Uint16 (subslice (i + 2) (i + 4) (subslice a b q)) = v"
    "\<forall>k < length p. k \<noteq> a + i + 2 \<and> k \<noteq> a + i + 3 \<longrightarrow> q ! k = p ! k"
proof -
  let ?opts = "subslice a b p"
  let ?new = "PutUint16 (i + 2) v ?opts"
  have ab: "40 \<le> a" "a \<le> b" "b \<le> length p" using synOptions_Some [OF assms(1)] .
  have len: "length ?opts = b - a" using ab by simp
  have i: "i + 4 \<le> b - a" using mssOption_Some [OF assms(2)] len by simp
  have new: "length ?new = b - a" using i len by simp
  then have fit: "a + length ?new \<le> length p" using ab by simp
  show lq: "length q = length p" using fit by (simp add: assms(3))
  have "take a q = take a p" using fit by (simp add: assms(3) take_overwrite_before)
  then show "synOptions q = Some (a, b)" using lq by (rule synOptions_cong [OF assms(1)])
  have opts: "subslice a b q = ?new"
    using subslice_overwrite_same [OF fit] new ab by (simp add: assms(3))
  show "mssOption (subslice a b q) 0 = Some i"
    unfolding opts
  proof (rule mssOption_cong [OF assms(2)])
    show "length ?new = length ?opts" using new len by simp
    show "?new ! k = ?opts ! k" if "k < i + 2" for k using that i len by (subst nth_overwrite) simp_all
  qed
  have "Uint16 (subslice (i + 2) (i + 4) ?new) = Uint16 (take 2 (drop (i + 2) ?new))" by (simp add: subslice_def)
  also have "\<dots> = v" using be16.get_put [of "i + 2" ?opts v] i len by (simp add: Uint16_def)
  finally show "Uint16 (subslice (i + 2) (i + 4) (subslice a b q)) = v" by (simp only: opts)
  show "\<forall>k < length p. k \<noteq> a + i + 2 \<and> k \<noteq> a + i + 3 \<longrightarrow> q ! k = p ! k"
  proof (intro allI impI)
    fix k assume k: "k < length p" "k \<noteq> a + i + 2 \<and> k \<noteq> a + i + 3"
    show "q ! k = p ! k"
    proof (cases "a \<le> k \<and> k < b")
      case True
      then have "q ! k = ?new ! (k - a)" using fit new k by (simp add: assms(3) nth_overwrite)
      also have "\<dots> = ?opts ! (k - a)" using True k i len by (subst nth_overwrite) auto
      also have "\<dots> = p ! k" using True ab by (subst subslice_nth) auto
      finally show ?thesis .
    next
      case False
      then show ?thesis using fit new ab k by (auto simp: assms(3) nth_overwrite)
    qed
  qed
qed

section \<open>Transport checksums\<close>

text \<open>
  What a receiver checks, on natural numbers and without the routines of the code: the
  end-around-carry sum of the 16-bit words of the header, and that of pseudo header (addresses,
  protocol number, length) and segment (the ICMP message alone), stored checksum included, are
  0xffff.
\<close>

definition headerVerifies :: "bytes \<Rightarrow> nat \<Rightarrow> bool" where
  "headerVerifies ip ihl \<longleftrightarrow> oc (bsum (take ihl ip)) = 65535"

definition transportVerifies :: "bytes \<Rightarrow> nat \<Rightarrow> bool" where
  "transportVerifies ip ihl \<longleftrightarrow>
    (let pseudo = bsum (subslice 12 16 ip) + bsum (subslice 16 20 ip); seg = drop ihl ip;
         udp = take (unat (Uint16 (subslice 4 6 seg))) seg
     in if ip ! 9 = 6 then oc (pseudo + 6 + length seg + bsum seg) = 65535
        else if ip ! 9 = 17 then oc (pseudo + 17 + length udp + bsum udp) = 65535
        else if ip ! 9 = 1 then oc (bsum seg) = 65535
        else True)"

lemma headerVerifies_iff:
  "length (take ihl ip) \<le> 65535 \<Longrightarrow> headerVerifies ip ihl \<longleftrightarrow> ipv4Checksum (take ihl ip) = 0"
  by (simp add: headerVerifies_def ipv4Checksum_zero_iff oc_full_iff)

text \<open>The offset of the checksum in the segment, by protocol.\<close>

definition checksumField :: "byte \<Rightarrow> nat option" where
  "checksumField proto = (if proto = 6 then Some 16 else if proto = 17 then Some 6 else if proto = 1 then Some 2 else None)"

lemma unat_transportSum:
  assumes "length src = 4" and "length dst = 4" and "n \<le> 65535"
  shows "unat (transportSum src dst proto n) = bsum src + bsum dst + unat proto + n"
    "unat (transportSum src dst proto n) \<le> 400000"
proof -
  have b: "bsum src \<le> 131070" "bsum dst \<le> 131070" using bsum_bound [of src] bsum_bound [of dst] assms by simp_all
  have s: "unat (checksumAddBytes 0 src) = bsum src" using b dm_ck.addBytes_spec [of 0 src] by simp
  then have d: "unat (checksumAddBytes (checksumAddBytes 0 src) dst) = bsum src + bsum dst"
    using b dm_ck.addBytes_spec [of "checksumAddBytes 0 src" dst] by simp
  have p: "unat (ucast proto :: u32) < 256" using unat_byte_less [of proto] by (simp add: unsigned_ucast_eq take_bit_eq_mod)
  have n: "unat (word_of_nat n :: u32) = n" using assms(3) by (simp add: unat_of_nat take_bit_nat_eq_self)
  have "unat (checksumAddBytes (checksumAddBytes 0 src) dst + ucast proto) = bsum src + bsum dst + unat (ucast proto :: u32)"
    using d p b by (simp add: unat_word_ariths)
  then have "unat (transportSum src dst proto n) = bsum src + bsum dst + unat (ucast proto :: u32) + n"
    using p b n assms(3) by (simp add: transportSum_def Let_def unat_word_ariths)
  moreover have "unat (ucast proto :: u32) = unat proto"
    using unat_byte_less [of proto] by (simp add: unsigned_ucast_eq take_bit_nat_eq_self)
  ultimately show "unat (transportSum src dst proto n) = bsum src + bsum dst + unat proto + n"
    "unat (transportSum src dst proto n) \<le> 400000"
    using b p assms(3) by simp_all
qed

lemma fold_transport:
  assumes "length src = 4" and "length dst = 4" and "length seg = n" and "n \<le> 65535"
  shows "checksumFold (checksumAddBytes (transportSum src dst proto n) seg) = 0 \<longleftrightarrow>
    oc (bsum src + bsum dst + unat proto + n + bsum seg) = 65535"
  using unat_transportSum [OF assms(1,2,4), of proto] bsum_bound_u16 [of seg] assms(3,4)
  by (simp add: dm_ck.foldSum_eq_0_iff dm_ck.addBytes_spec oc_full_iff)

lemma transportChecksum_verifies:
  assumes "length src = 4" and "length dst = 4" and "length seg \<le> 65535"
    and "even k" and "k + 2 \<le> length seg"
    and c: "c = transportChecksum src dst proto (PutUint16 k 0 seg)"
  shows "oc (bsum src + bsum dst + unat proto + length seg + bsum (PutUint16 k c seg)) = 65535"
proof -
  let ?z = "PutUint16 k 0 seg" and ?s = "transportSum src dst proto (length seg)"
  have len: "length ?z = length seg" using assms by simp
  have "checksumFold (checksumAddBytes ?s (PutUint16 k c ?z)) = 0"
  proof (rule dm_ck.stored_checksum_verifies)
    show "even k" "k + 2 \<le> length ?z" using assms len by simp_all
    show "Uint16 (drop k ?z) = 0" using assms by (simp add: Uint16_PutUint16)
    show "unat ?s + bsum ?z < 4294901760"
      using unat_transportSum(2) [OF assms(1-3), of proto] bsum_bound_u16 [of ?z] assms(3) len by simp
    show "c = checksumFold (checksumAddBytes ?s ?z) \<or> c = 65535 \<and> checksumFold (checksumAddBytes ?s ?z) = 0"
      using c len by (simp add: transportChecksum_def Let_def split: if_splits)
  qed
  then have "checksumFold (checksumAddBytes ?s (PutUint16 k c seg)) = 0" using assms(5) by (simp add: PutUint16_twice)
  then show ?thesis using assms(1-3,5) by (subst (asm) fold_transport) simp_all
qed

lemma PutUint16_suffix:
  "ihl \<le> length ip \<Longrightarrow> take ihl ip @ PutUint16 k c (drop ihl ip) = PutUint16 (ihl + k) c ip"
proof -
  assume "ihl \<le> length ip"
  then have "PutUint16 (ihl + k) c (take ihl ip @ drop ihl ip) = take ihl ip @ PutUint16 k c (drop ihl ip)"
    by (subst overwrite_append) simp_all
  then show ?thesis by simp
qed

lemma PutUint16_take_drop:
  "k + 2 \<le> n \<Longrightarrow> n \<le> length xs \<Longrightarrow> PutUint16 k c (take n xs) @ drop n xs = PutUint16 k c xs"
  by (simp add: overwrite_def min_def drop_take) (metis append_take_drop_id le_add_diff_inverse2 drop_drop)

lemma fixTransport_cases:
  assumes "fixTransport ip ihl = Inr ip'" and "ihl \<le> length ip"
  shows "case checksumField (ip ! 9) of None \<Rightarrow> ip' = ip
    | Some k \<Rightarrow> ihl + k + 2 \<le> length ip \<and> ip' = PutUint16 (ihl + k)
        (if ip ! 9 = 1 then ipv4Checksum (PutUint16 2 0 (drop ihl ip))
         else transportChecksum (subslice 12 16 ip) (subslice 16 20 ip) (ip ! 9)
           (PutUint16 k 0 (if ip ! 9 = 17 then take (unat (Uint16 (subslice 4 6 (drop ihl ip)))) (drop ihl ip) else drop ihl ip))) ip"
proof -
  let ?seg = "drop ihl ip"
  consider "ip ! 9 = 6" | "ip ! 9 = 17" | "ip ! 9 = 1" | "ip ! 9 \<noteq> 6" "ip ! 9 \<noteq> 17" "ip ! 9 \<noteq> 1" by blast
  then show ?thesis
  proof cases
    case 1
    then show ?thesis using assms
      by (auto simp: fixTransport_def Let_def checksumField_def PutUint16_twice PutUint16_suffix split: if_splits)
  next
    case 2
    let ?n = "unat (Uint16 (subslice 4 6 ?seg))"
    have g: "8 \<le> ?n" "?n \<le> length ?seg"
      using 2 assms by (auto simp: fixTransport_def Let_def split: if_splits)
    have "PutUint16 6 c (take ?n ?seg) @ drop ?n ?seg = PutUint16 6 c ?seg" for c
      using g by (intro PutUint16_take_drop) simp_all
    then show ?thesis using 2 assms g
      by (auto simp: fixTransport_def Let_def checksumField_def PutUint16_twice PutUint16_suffix split: if_splits)
  next
    case 3
    then show ?thesis using assms
      by (auto simp: fixTransport_def Let_def checksumField_def PutUint16_twice PutUint16_suffix split: if_splits)
  next
    case 4
    then show ?thesis using assms by (simp add: fixTransport_def checksumField_def)
  qed
qed

lemma checksumField_bounds: "checksumField proto = Some k \<Longrightarrow> even k \<and> k \<le> 16"
  by (auto simp: checksumField_def split: if_splits)

lemma fixTransport_frame:
  assumes "fixTransport ip ihl = Inr ip'" and "20 \<le> ihl" and "ihl \<le> length ip"
  shows "length ip' = length ip" "take ihl ip' = take ihl ip" "ip' ! 9 = ip ! 9"
    "subslice 12 16 ip' = subslice 12 16 ip" "subslice 16 20 ip' = subslice 16 20 ip"
proof -
  show len: "length ip' = length ip"
    using fixTransport_cases [OF assms(1,3)] by (auto split: option.splits)
  show tk: "take ihl ip' = take ihl ip"
    using fixTransport_cases [OF assms(1,3)] assms(3)
    by (auto simp: take_overwrite_before split: option.splits)
  show "ip' ! 9 = ip ! 9" using nth_take_cong [OF tk, of 9] assms(2) by simp
  show "subslice 12 16 ip' = subslice 12 16 ip" "subslice 16 20 ip' = subslice 16 20 ip"
    using subslice_take_cong [OF tk] assms(2) by simp_all
qed

lemma fixTransport_verifies:
  assumes "fixTransport ip ihl = Inr ip'" and "20 \<le> ihl" and "ihl \<le> length ip" and "length ip \<le> 65535"
  shows "transportVerifies ip' ihl"
proof -
  let ?seg = "drop ihl ip"
  note frame = fixTransport_frame [OF assms(1-3)] and cases = fixTransport_cases [OF assms(1,3)]
  have seg: "drop ihl (PutUint16 (ihl + k) c ip) = PutUint16 k c ?seg" for k c
    using PutUint16_suffix [OF assms(3), of k c, symmetric] assms(3) by simp
  have lens: "length (subslice 12 16 ip) = 4" "length (subslice 16 20 ip) = 4" "length ?seg \<le> 65535"
    using assms by simp_all
  consider "ip ! 9 = 6" | "ip ! 9 = 17" | "ip ! 9 = 1" | "ip ! 9 \<noteq> 6" "ip ! 9 \<noteq> 17" "ip ! 9 \<noteq> 1" by blast
  then show ?thesis
  proof cases
    case 1
    with cases assms(3) have "16 + 2 \<le> length ?seg" by (auto simp: checksumField_def)
    note v = transportChecksum_verifies [OF lens _ this refl, of 6]
    have ip': "ip' = PutUint16 (ihl + 16) (transportChecksum (subslice 12 16 ip) (subslice 16 20 ip) 6 (PutUint16 16 0 ?seg)) ip"
      using cases 1 by (simp add: checksumField_def)
    from v 1 \<open>16 + 2 \<le> length ?seg\<close> show ?thesis
      by (simp add: transportVerifies_def Let_def frame) (simp add: ip' seg)
  next
    case 2
    let ?n = "unat (Uint16 (subslice 4 6 ?seg))"
    let ?udp = "take ?n ?seg"
    have g: "8 \<le> ?n" "?n \<le> length ?seg"
      using 2 assms(1) by (auto simp: fixTransport_def Let_def split: if_splits)
    let ?c = "transportChecksum (subslice 12 16 ip) (subslice 16 20 ip) 17 (PutUint16 6 0 ?udp)"
    have ip': "ip' = PutUint16 (ihl + 6) ?c ip" using cases 2 by (simp add: checksumField_def)
    have "subslice 4 6 (PutUint16 6 ?c ?seg) = subslice 4 6 ?seg"
      using g by (intro subslice_overwrite_disjoint) simp_all
    moreover have "take ?n (PutUint16 6 ?c ?seg) = PutUint16 6 ?c ?udp"
      using g by (intro take_PutUint16) simp_all
    moreover have "length ?udp \<le> 65535" "6 + 2 \<le> length ?udp" using g lens(3) by simp_all
    note transportChecksum_verifies [OF lens(1,2) this(1) _ this(2) refl, of 17]
    ultimately show ?thesis
      using 2 g by (simp add: transportVerifies_def Let_def frame) (simp add: ip' seg)
  next
    case 3
    let ?c = "ipv4Checksum (PutUint16 2 0 ?seg)"
    have ip': "ip' = PutUint16 (ihl + 2) ?c ip" "2 + 2 \<le> length ?seg"
      using cases 3 assms(3) by (auto simp: checksumField_def)
    have "checksumFold (checksumAddBytes 0 (PutUint16 2 ?c (PutUint16 2 0 ?seg))) = 0"
      using ip'(2) bsum_bound_u16 [of "PutUint16 2 0 ?seg"] lens(3)
      by (intro dm_ck.stored_checksum_verifies) (simp_all add: Uint16_PutUint16 ipv4Checksum_def)
    then have "ipv4Checksum (PutUint16 2 ?c ?seg) = 0"
      using ip'(2) by (simp add: PutUint16_twice ipv4Checksum_def del: add_2_eq_Suc')
    moreover have "length (PutUint16 2 ?c ?seg) \<le> 65535" using lens(3) ip'(2) by simp
    ultimately have "oc (bsum (PutUint16 2 ?c ?seg)) = 65535" by (simp add: ipv4Checksum_zero_iff oc_full_iff)
    then show ?thesis
      using 3 by (simp add: transportVerifies_def Let_def frame) (simp add: ip'(1) seg del: add_2_eq_Suc')
  next
    case 4
    then show ?thesis by (simp add: transportVerifies_def Let_def frame)
  qed
qed

text \<open>
  A packet without its checksums: the fields a recomputation may change, set to zero.
\<close>

definition blankChecksums :: "bytes \<Rightarrow> nat \<Rightarrow> bytes" where
  "blankChecksums ip ihl =
    (let ip = PutUint16 10 0 ip in
     if fragmented ip then ip
     else (case checksumField (ip ! 9) of None \<Rightarrow> ip | Some k \<Rightarrow> PutUint16 (ihl + k) 0 ip))"

lemma PutUint16_commute:
  assumes "a + 2 \<le> b" and "b + 2 \<le> length xs"
  shows "PutUint16 a v (PutUint16 b w xs) = PutUint16 b w (PutUint16 a v xs)"
  using assms by (intro nth_equalityI) (simp_all add: nth_overwrite)

lemma PutUint16_early [simp]:
  assumes "20 \<le> j" and "j + 2 \<le> length ip"
  shows "fragmented (PutUint16 j v ip) = fragmented ip" "PutUint16 j v ip ! 9 = ip ! 9"
    "subslice 12 16 (PutUint16 j v ip) = subslice 12 16 ip" "subslice 16 20 (PutUint16 j v ip) = subslice 16 20 ip"
  using assms by (simp_all add: fragmented_def subslice_overwrite_disjoint nth_overwrite)

lemma PutUint16_header [simp]:
  assumes "20 \<le> length ip"
  shows "fragmented (PutUint16 10 v ip) = fragmented ip" "PutUint16 10 v ip ! 9 = ip ! 9"
    "subslice 12 16 (PutUint16 10 v ip) = subslice 12 16 ip" "subslice 16 20 (PutUint16 10 v ip) = subslice 16 20 ip"
  using assms by (simp_all add: fragmented_def subslice_overwrite_disjoint nth_overwrite)

lemma fixHeader_put: "20 \<le> length ip \<Longrightarrow> \<exists>c. fixHeader ip ihl = PutUint16 10 c ip"
  by (auto simp: fixHeader_def Let_def PutUint16_twice)

lemma fixHeader_frame [simp]:
  assumes "20 \<le> length ip"
  shows "fragmented (fixHeader ip ihl) = fragmented ip" "fixHeader ip ihl ! 9 = ip ! 9"
    "subslice 12 16 (fixHeader ip ihl) = subslice 12 16 ip" "subslice 16 20 (fixHeader ip ihl) = subslice 16 20 ip"
  using fixHeader_put [OF assms, of ihl] assms by auto

text \<open>The recomputation of both checksums, as one step with the error of the transport part.\<close>

definition recomputeChecksums :: "bytes \<Rightarrow> nat \<Rightarrow> pkt_error + bytes" where
  "recomputeChecksums ip ihl =
    (let ip = fixHeader ip ihl in if fragmented ip then Inr ip else fixTransport ip ihl)"

lemma recompute_length:
  assumes "recomputeChecksums ip ihl = Inr r" and "20 \<le> ihl" and "ihl \<le> length ip"
  shows "length r = length ip"
  using assms fixTransport_frame(1) [of "fixHeader ip ihl" ihl r]
  by (auto simp: recomputeChecksums_def Let_def split: if_splits)

lemma recompute_header:
  assumes "recomputeChecksums ip ihl = Inr r" and "20 \<le> ihl" and "ihl \<le> length ip"
  shows "take ihl r = take ihl (fixHeader ip ihl)"
  using assms fixTransport_frame(2) [of "fixHeader ip ihl" ihl r]
  by (auto simp: recomputeChecksums_def Let_def split: if_splits)

lemma recompute_frame:
  assumes "recomputeChecksums ip ihl = Inr r" and "20 \<le> ihl" and "ihl \<le> length ip"
  shows "fragmented r = fragmented ip" "r ! 9 = ip ! 9"
    "subslice 12 16 r = subslice 12 16 ip" "subslice 16 20 r = subslice 16 20 ip"
proof -
  note tk = recompute_header [OF assms]
  show "fragmented r = fragmented ip"
    using subslice_take_cong [OF tk, of 8 6] fixHeader_frame(1) [of ip ihl] assms(2,3) by (simp add: fragmented_def)
  show "r ! 9 = ip ! 9" using nth_take_cong [OF tk, of 9] assms(2,3) by simp
  show "subslice 12 16 r = subslice 12 16 ip" "subslice 16 20 r = subslice 16 20 ip"
    using subslice_take_cong [OF tk] assms(2,3) by simp_all
qed

lemma recompute_verifies:
  assumes "recomputeChecksums ip ihl = Inr r" and "20 \<le> ihl" and "ihl \<le> length ip" and "length ip \<le> 65535"
  shows "headerVerifies r ihl" "fragmented r \<or> transportVerifies r ihl"
proof -
  have "ipv4Checksum (take ihl r) = 0"
    using recompute_header [OF assms(1-3)] fixHeader_verifies [of ihl ip] assms by simp
  moreover have "length (take ihl r) \<le> 65535" using assms(3,4) by simp
  ultimately show "headerVerifies r ihl" by (simp add: headerVerifies_iff)
  show "fragmented r \<or> transportVerifies r ihl"
    using assms fixTransport_verifies [of "fixHeader ip ihl" ihl r]
    by (auto simp: recomputeChecksums_def Let_def split: if_splits)
qed

lemma recompute_blank:
  assumes "recomputeChecksums ip ihl = Inr r" and "20 \<le> ihl" and "ihl \<le> length ip"
  shows "blankChecksums r ihl = blankChecksums ip ihl"
proof -
  obtain c where h: "fixHeader ip ihl = PutUint16 10 c ip" using fixHeader_put [of ip ihl] assms by auto
  show ?thesis
  proof (cases "fragmented ip")
    case True
    with assms h have "r = PutUint16 10 c ip" by (simp add: recomputeChecksums_def Let_def)
    with True assms(2,3) show ?thesis by (simp add: blankChecksums_def PutUint16_twice)
  next
    case False
    with assms h have fx: "fixTransport (PutUint16 10 c ip) ihl = Inr r" by (simp add: recomputeChecksums_def Let_def)
    note cs = fixTransport_cases [OF fx]
    show ?thesis
    proof (cases "checksumField (ip ! 9)")
      case None
      with cs assms(2,3) have "r = PutUint16 10 c ip" by simp
      with None False assms(2,3) show ?thesis by (simp add: blankChecksums_def PutUint16_twice)
    next
      case (Some k)
      with cs assms(2,3) obtain d where r: "r = PutUint16 (ihl + k) d (PutUint16 10 c ip)" and k: "ihl + k + 2 \<le> length ip"
        by auto
      have "PutUint16 10 0 r = PutUint16 (ihl + k) d (PutUint16 10 0 ip)"
        using k assms(2,3) by (simp add: r PutUint16_commute PutUint16_twice)
      with Some False k assms(2,3) show ?thesis
        by (simp add: blankChecksums_def r PutUint16_twice)
    qed
  qed
qed

lemma normalize_recompute:
  assumes "ipv4HeaderBounds p = Inr (off, ihl, n)" and "recomputeChecksums (ipv4Slice p off n) ihl = Inr r"
  shows "normalizeCapturedIPv4ChecksumsInPlace p = overwrite off r p"
  using assms by (auto simp: normalizeCapturedIPv4ChecksumsInPlace_def recomputeChecksums_def ipv4Slice_def Let_def split: if_splits)

section \<open>What the clamp does\<close>

definition ipv4_wellformed :: "bytes \<Rightarrow> nat \<Rightarrow> nat \<Rightarrow> bool" where
  "ipv4_wellformed ip ihl n \<longleftrightarrow>
     drop_bit 4 (ip ! 0) = 4 \<and> ihl = unat (ip ! 0 AND 0x0f) * 4 \<and> n = unat (Uint16 (subslice 2 4 ip)) \<and>
     20 \<le> ihl \<and> ihl \<le> n \<and> n \<le> length ip"

lemma recompute_tcp:
  assumes "20 \<le> ihl" and "ihl + 20 \<le> length ip" and "ip ! 9 = 6"
    and "5 \<le> unat (drop_bit 4 (ip ! (ihl + 12)))" and "ihl + unat (drop_bit 4 (ip ! (ihl + 12))) * 4 \<le> length ip"
  shows "\<exists>r. recomputeChecksums ip ihl = Inr r"
proof -
  have "fixHeader ip ihl ! (ihl + 12) = ip ! (ihl + 12)"
    using fixHeader_put [of ip ihl] assms(1,2) by (auto simp: nth_overwrite)
  then show ?thesis
    using assms by (auto simp: recomputeChecksums_def fixTransport_def Let_def)
qed

text \<open>
  The options of a TCP header before an MSS option: no-operation bytes and complete options
  of other kinds, none of them the end of the list.
\<close>

inductive other_options :: "bytes \<Rightarrow> bool" where
  oo_Nil: "other_options []"
| oo_Nop: "other_options r \<Longrightarrow> other_options (1 # r)"
| oo_Opt: "kind \<noteq> 0 \<Longrightarrow> kind \<noteq> 1 \<Longrightarrow> unat n = length data + 2 \<Longrightarrow> \<not> (kind = 2 \<and> n = 4) \<Longrightarrow> other_options r
    \<Longrightarrow> other_options (kind # n # data @ r)"

lemma mssOption_intro:
  "other_options xs \<Longrightarrow> mssOption (pre @ xs @ 2 # 4 # rest) (length pre) =
     (if 2 \<le> length rest then Some (length pre + length xs) else None)"
proof (induction arbitrary: pre rule: other_options.induct)
  case oo_Nil
  show ?case by (subst mssOption.simps) (auto simp: nth_append Let_def)
next
  case (oo_Nop r)
  from oo_Nop.IH [of "pre @ [1]"] show ?case by (subst mssOption.simps) (simp add: nth_append)
next
  case (oo_Opt kind n data r)
  have "n = 4 \<longleftrightarrow> length data = 2" using oo_Opt.hyps(3) by (simp add: word_unat_eq_iff)
  with oo_Opt.IH [of "pre @ kind # n # data"] oo_Opt.hyps(1-4) show ?case
    by (subst mssOption.simps) (auto simp: nth_append Let_def)
qed

lemma mssOption_elim:
  "mssOption opts j = Some i \<Longrightarrow> \<exists>xs a b rest. other_options xs \<and> drop j opts = xs @ [2, 4, a, b] @ rest \<and> i = j + length xs"
proof (induction opts j rule: mssOption.induct)
  case (1 opts j)
  have j: "j < length opts" "opts ! j \<noteq> 0" using "1.prems" by (subst (asm) mssOption.simps, simp split: if_splits)+
  note d = Cons_nth_drop_Suc [OF j(1), symmetric]
  show ?case
  proof (cases "opts ! j = 1")
    case True
    with "1.prems" j have "mssOption opts (j + 1) = Some i" by (subst (asm) mssOption.simps) simp
    from "1.IH"(1) [OF _ _ _ this] j True obtain xs a b rest
      where *: "other_options xs" "drop (j + 1) opts = xs @ [2, 4, a, b] @ rest" "i = j + 1 + length xs" by auto
    then have "other_options (1 # xs)" "drop j opts = (1 # xs) @ [2, 4, a, b] @ rest" "i = j + length (1 # xs)"
      using d True by (auto intro: oo_Nop)
    then show ?thesis by blast
  next
    case False
    let ?n = "unat (opts ! (j + 1))"
    have g: "j + 1 < length opts" "2 \<le> ?n" "j + ?n \<le> length opts"
      using "1.prems" j False by (subst (asm) mssOption.simps, simp add: Let_def split: if_splits)+
    have d2: "drop j opts = opts ! j # opts ! (j + 1) # drop (j + 2) opts"
      using d Cons_nth_drop_Suc [OF g(1), symmetric] by simp
    show ?thesis
    proof (cases "opts ! j = 2 \<and> ?n = 4")
      case True
      with "1.prems" j False g have i: "i = j" by (subst (asm) mssOption.simps) (simp add: Let_def)
      have two: "\<exists>a b rest. zs = [a, b] @ rest" if "2 \<le> length zs" for zs :: bytes
        using that by (cases zs rule: remdups_adj.cases) auto
      have "2 \<le> length (drop (j + 2) opts)" using True g by simp
      from two [OF this] obtain a b rest where "drop (j + 2) opts = [a, b] @ rest" by blast
      moreover have "opts ! (j + 1) = 4" using True by (simp add: word_unat_eq_iff)
      ultimately have "drop j opts = [] @ [2, 4, a, b] @ rest" using d2 True by simp
      with i oo_Nil show ?thesis by (intro exI [of _ "[]"]) auto
    next
      case other: False
      then have "mssOption opts (j + ?n) = Some i"
        using "1.prems" j False g by (subst (asm) mssOption.simps) (auto simp: Let_def)
      with "1.IH"(2) j False g other obtain xs a b rest
        where *: "other_options xs" "drop (j + ?n) opts = xs @ [2, 4, a, b] @ rest" "i = j + ?n + length xs" by auto
      let ?data = "take (?n - 2) (drop (j + 2) opts)"
      have "drop (j + 2) opts = ?data @ drop (j + ?n) opts"
      proof -
        have "drop (?n - 2) (drop (j + 2) opts) = drop (j + ?n) opts"
          unfolding drop_drop using g(2) by (intro arg_cong [where f = "\<lambda>i. drop i opts"]) linarith
        then show ?thesis by (metis append_take_drop_id)
      qed
      moreover have len: "length ?data + 2 = ?n" using g by simp
      moreover have "\<not> (opts ! j = 2 \<and> opts ! (j + 1) = 4)" using other by auto
      ultimately have "other_options (opts ! j # opts ! (j + 1) # ?data @ xs)"
        "drop j opts = (opts ! j # opts ! (j + 1) # ?data @ xs) @ [2, 4, a, b] @ rest"
        using oo_Opt [OF j(2) False, of "opts ! (j + 1)" ?data xs] * d2 by auto
      moreover have "i = j + length (opts ! j # opts ! (j + 1) # ?data @ xs)" using * len by simp
      ultimately show ?thesis by blast
    qed
  qed
qed


text \<open>
  An unfragmented IPv4 packet with a TCP SYN segment whose first MSS option holds the value
  \<open>v\<close> at offset \<open>k\<close>, read off the bytes of the packet; and such a packet whose value is above
  the limit.
\<close>

definition syn_mss :: "bytes \<Rightarrow> nat \<Rightarrow> u16 \<Rightarrow> bool" where
  "syn_mss ip k v \<longleftrightarrow>
    (\<exists>ihl n hlen opts. ipv4_wellformed ip ihl n \<and> ip ! 9 = 6 \<and> Uint16 (subslice 6 8 ip) AND 0x3fff = 0 \<and>
       hlen = 4 * unat (drop_bit 4 (ip ! (ihl + 12))) \<and> 20 \<le> hlen \<and> ihl + hlen \<le> n \<and> ip ! (ihl + 13) AND 0x02 \<noteq> 0 \<and>
       other_options opts \<and> k = ihl + 20 + length opts + 2 \<and> k + 2 \<le> ihl + hlen \<and>
       subslice (ihl + 20) (k + 2) ip = opts @ [2, 4] @ be16 v)"

lemma fragmentMask_eq: "fragmentMask = 0x3fff"
  by code_simp

lemma mss_at:
  "(\<exists>opts. other_options opts \<and> k = length opts + 2 \<and> k + 2 \<le> length xs \<and> take (k + 2) xs = opts @ [2, 4] @ be16 v) \<longleftrightarrow>
   (\<exists>i. mssOption xs 0 = Some i \<and> k = i + 2 \<and> Uint16 (subslice (i + 2) (i + 4) xs) = v)" (is "?L \<longleftrightarrow> ?R")
proof
  assume ?L
  then obtain opts where o: "other_options opts" "k = length opts + 2" "k + 2 \<le> length xs" "take (k + 2) xs = opts @ [2, 4] @ be16 v"
    by blast
  then have xs: "xs = opts @ 2 # 4 # be16 v @ drop (k + 2) xs" using append_take_drop_id [of "k + 2" xs] by simp
  from mssOption_intro [OF o(1), of "[]" "be16 v @ drop (k + 2) xs"]
  have "mssOption xs 0 = Some (length opts)" by (subst xs) simp
  moreover have "subslice (length opts + 2) (length opts + 4) xs = be16 v"
    by (subst xs) (simp add: subslice_def)
  ultimately show ?R using o(2) by (simp add: be16.dec_enc)
next
  assume ?R
  then obtain i where i: "mssOption xs 0 = Some i" "k = i + 2" "Uint16 (subslice (i + 2) (i + 4) xs) = v" by blast
  from mssOption_elim [OF i(1)] obtain opts a b rest
    where o: "other_options opts" "xs = opts @ [2, 4, a, b] @ rest" "i = length opts" by auto
  then have "subslice (i + 2) (i + 4) xs = [a, b]" by (simp add: subslice_def)
  then have "be16 v = [a, b]" using i(3) be16.enc_dec_exact [of "[a, b]"] by simp
  with o i(2) show ?L by (intro exI [of _ opts]) simp
qed

lemma ethOffset_le: "ethOffset p \<le> length p"
  by (simp add: ethOffset_def)

lemma syn_mss_iff:
  "syn_mss (drop (ethOffset p) p) k v \<longleftrightarrow>
    (\<exists>a b i. synOptions p = Some (a, b) \<and> mssOption (subslice a b p) 0 = Some i \<and> ethOffset p + k = a + (i + 2) \<and>
       Uint16 (subslice (i + 2) (i + 4) (subslice a b p)) = v)" (is "?L \<longleftrightarrow> ?R")
proof -
  define off where "off = ethOffset p"
  define mss where "mss xs j \<longleftrightarrow> (\<exists>opts. other_options opts \<and> j = length opts + 2 \<and> j + 2 \<le> length xs \<and>
      take (j + 2) xs = opts @ [2, 4] @ be16 v)" for xs :: bytes and j
  have nd: "drop off p ! j = p ! (off + j)" for j using ethOffset_le [of p] by (simp add: off_def)
  have sl: "take (j + 2) (subslice (off + (i + 20)) b p) = subslice (i + 20) (i + 20 + j + 2) (drop off p)"
    if "off + (i + 20 + j + 2) \<le> b" for i j b
    using that by (simp add: subslice_def min_def add_ac)
  have "?L \<longleftrightarrow> (\<exists>a b j. synOptions p = Some (a, b) \<and> off + k = a + j \<and> mss (subslice a b p) j)"
  proof
    assume ?L
    then obtain ihl n hlen opts where s: "ipv4_wellformed (drop off p) ihl n" "p ! (off + 9) = 6"
      "Uint16 (subslice (off + 6) (off + 8) p) AND 0x3fff = 0" "hlen = 4 * unat (drop_bit 4 (p ! (off + (ihl + 12))))"
      "20 \<le> hlen" "ihl + hlen \<le> n" "p ! (off + (ihl + 13)) AND 0x02 \<noteq> 0" "other_options opts"
      "k = ihl + 20 + length opts + 2" "k + 2 \<le> ihl + hlen" "subslice (ihl + 20) (k + 2) (drop off p) = opts @ [2, 4] @ be16 v"
      unfolding syn_mss_def off_def [symmetric] nd subslice_drop by blast
    have syn: "synOptions p = Some (off + (ihl + 20), off + (ihl + hlen))"
      using s(1-7) ethOffset_le [of p, folded off_def]
      unfolding synOptions_iff off_def [symmetric] ipv4_wellformed_def nd subslice_drop fragmentMask_eq Let_def length_drop by simp linarith
    moreover have "mss (subslice (off + (ihl + 20)) (off + (ihl + hlen)) p) (length opts + 2)"
      using s(8-11) synOptions_Some(3) [OF syn] sl [of ihl "length opts + 2" "off + (ihl + hlen)"]
      unfolding mss_def by (intro exI [of _ opts]) (simp add: add_ac)
    ultimately show "\<exists>a b j. synOptions p = Some (a, b) \<and> off + k = a + j \<and> mss (subslice a b p) j"
      using s(9) by (intro exI [of _ "off + (ihl + 20)"] exI [of _ "off + (ihl + hlen)"] exI [of _ "length opts + 2"]) simp
  next
    assume "\<exists>a b j. synOptions p = Some (a, b) \<and> off + k = a + j \<and> mss (subslice a b p) j"
    then obtain a b j opts where syn: "synOptions p = Some (a, b)" and k: "off + k = a + j" and o: "other_options opts" "j = length opts + 2"
      "j + 2 \<le> length (subslice a b p)" "take (j + 2) (subslice a b p) = opts @ [2, 4] @ be16 v" unfolding mss_def by blast
    define ihl where "ihl = unat (p ! off AND 0x0f) * 4"
    define n where "n = unat (Uint16 (subslice (off + 2) (off + 4) p))"
    define hlen where "hlen = 4 * unat (drop_bit 4 (p ! (off + (ihl + 12))))"
    have f: "drop_bit 4 (p ! off) = 4" "p ! (off + 9) = 6" "20 \<le> ihl" "off + n \<le> length p"
      "Uint16 (subslice (off + 6) (off + 8) p) AND 0x3fff = 0" "20 \<le> hlen" "ihl + hlen \<le> n"
      "p ! (off + (ihl + 13)) AND 0x02 \<noteq> 0" "a = off + (ihl + 20)" "b = off + (ihl + hlen)"
      using syn unfolding synOptions_iff Let_def off_def [symmetric] ihl_def [symmetric] n_def [symmetric] fragmentMask_eq hlen_def
      by (simp_all add: mult.commute)
    have le: "off + (ihl + 20 + j + 2) \<le> b" using o(2,3) f(9) by (simp add: le_diff_conv2) linarith
    have sub: "subslice (ihl + 20) (k + 2) (drop off p) = opts @ [2, 4] @ be16 v"
      using sl [OF le] o(4) k f(9) by (simp add: add_ac)
    have wf: "ipv4_wellformed (drop off p) ihl n"
      unfolding ipv4_wellformed_def nd subslice_drop using f by (simp add: ihl_def n_def)
    have "k = ihl + 20 + length opts + 2" "k + 2 \<le> ihl + hlen" using k o(2) f(9,10) le by simp_all
    with f o(1) sub wf show ?L
      unfolding syn_mss_def off_def [symmetric] nd subslice_drop
      by (intro exI [of _ ihl] exI [of _ n] exI [of _ hlen] exI [of _ opts] conjI; (simp only: hlen_def)?)
  qed
  also have "\<dots> \<longleftrightarrow> ?R" unfolding mss_def mss_at off_def by blast
  finally show ?thesis .
qed

lemma put_options:
  "i + 2 \<le> b - a \<Longrightarrow> b \<le> length p \<Longrightarrow> overwrite a (PutUint16 i v (subslice a b p)) p = PutUint16 (a + i) v p"
  by (intro nth_equalityI) (auto simp: nth_overwrite subslice_nth)

lemma mss_less: "0 < mss \<Longrightarrow> mss \<le> 65535 \<Longrightarrow> (word_of_int mss :: u16) < v \<longleftrightarrow> mss < int (unat v)"
  by (simp add: word_less_alt uint_word_of_int)

definition mss_above :: "bytes \<Rightarrow> int \<Rightarrow> nat \<Rightarrow> bool" where
  "mss_above ip mss k \<longleftrightarrow> 0 < mss \<and> mss \<le> 65535 \<and> (\<exists>v. syn_mss ip k v \<and> mss < int (unat v))"

lemma needs_clamp_iff:
  "capturedPacketNeedsTCPMSSClamp p mss \<longleftrightarrow> (\<exists>k. mss_above (drop (ethOffset p) p) mss k)" (is "?L \<longleftrightarrow> ?R")
proof (cases "0 < mss \<and> mss \<le> 65535")
  case True
  then have "?L \<longleftrightarrow> (\<exists>a b i. synOptions p = Some (a, b) \<and> mssOption (subslice a b p) 0 = Some i \<and>
      word_of_int mss < Uint16 (subslice (i + 2) (i + 4) (subslice a b p)))"
    by (force simp: capturedPacketNeedsTCPMSSClamp_def split: option.splits)
  also have "\<dots> \<longleftrightarrow> (\<exists>a b i k. synOptions p = Some (a, b) \<and> mssOption (subslice a b p) 0 = Some i \<and> ethOffset p + k = a + (i + 2) \<and>
      word_of_int mss < Uint16 (subslice (i + 2) (i + 4) (subslice a b p)))" (is "?X \<longleftrightarrow> ?Y")
  proof
    assume ?X
    then obtain a b i where *: "synOptions p = Some (a, b)" "mssOption (subslice a b p) 0 = Some i"
      "word_of_int mss < Uint16 (subslice (i + 2) (i + 4) (subslice a b p))" by blast
    then have "ethOffset p + (a + (i + 2) - ethOffset p) = a + (i + 2)" by (simp add: synOptions_iff Let_def)
    with * show ?Y by blast
  qed blast
  also have "\<dots> \<longleftrightarrow> ?R" using True mss_less unfolding mss_above_def syn_mss_iff by blast
  finally show ?thesis .
next
  case False
  then show ?thesis by (auto simp: mss_above_def capturedPacketNeedsTCPMSSClamp_def)
qed

lemma clamp_above:
  assumes "mss_above (drop (ethOffset p) p) mss k"
  shows "clampCapturedTCPMSSInPlaceWithMSS p mss = PutUint16 (ethOffset p + k) (word_of_int mss) p"
    "syn_mss (drop (ethOffset p) (clampCapturedTCPMSSInPlaceWithMSS p mss)) k (word_of_int mss)"
    "ethOffset (clampCapturedTCPMSSInPlaceWithMSS p mss) = ethOffset p" "ethOffset p + k + 2 \<le> length p"
proof -
  from assms obtain v a b i where m: "0 < mss" "mss \<le> 65535" "synOptions p = Some (a, b)" "mssOption (subslice a b p) 0 = Some i"
    "ethOffset p + k = a + (i + 2)" "Uint16 (subslice (i + 2) (i + 4) (subslice a b p)) = v" "word_of_int mss < v"
    unfolding mss_above_def syn_mss_iff using mss_less by blast
  define q where "q = overwrite a (PutUint16 (i + 2) (word_of_int mss) (subslice a b p)) p"
  have c: "clampCapturedTCPMSSInPlaceWithMSS p mss = q"
    using m by (simp add: clampCapturedTCPMSSInPlaceWithMSS_def q_def)
  note e = clamp_effect [OF m(3,4) q_def]
  have le: "i + 2 + 2 \<le> b - a" "b \<le> length p"
    using mssOption_Some [OF m(4)] synOptions_Some [OF m(3)] by simp_all
  then show "ethOffset p + k + 2 \<le> length p" using m(5) by simp
  from put_options [OF le] show "clampCapturedTCPMSSInPlaceWithMSS p mss = PutUint16 (ethOffset p + k) (word_of_int mss) p"
    by (simp only: c q_def m(5))
  have "take a q = take a p" using synOptions_Some [OF m(3)] by (simp add: q_def take_overwrite_before)
  then have eq: "ethOffset q = ethOffset p"
    by (rule ethOffset_cong) (use synOptions_Some(1) [OF m(3)] e(1) in simp_all)
  then show "ethOffset (clampCapturedTCPMSSInPlaceWithMSS p mss) = ethOffset p" by (simp add: c)
  from eq show "syn_mss (drop (ethOffset p) (clampCapturedTCPMSSInPlaceWithMSS p mss)) k (word_of_int mss)"
    using syn_mss_iff [of q k] e(2-4) m(5) by (simp add: c)
qed


lemma subslice_nth_cong:
  assumes "\<And>k. i \<le> k \<Longrightarrow> k < j \<Longrightarrow> q ! k = p ! k" and "j \<le> length q" and "j \<le> length p"
  shows "subslice i j q = subslice i j p"
  using assms by (intro nth_equalityI) (auto simp: subslice_def)

lemma recompute_put:
  assumes "recomputeChecksums ip ihl = Inr r" and "20 \<le> ihl" and "ihl + 20 \<le> length ip" and "ip ! 9 = 6" and "\<not> fragmented ip"
  obtains c d where "r = PutUint16 (ihl + 16) d (PutUint16 10 c ip)"
proof -
  obtain c where h: "fixHeader ip ihl = PutUint16 10 c ip" using fixHeader_put [of ip ihl] assms by auto
  with assms have fx: "fixTransport (PutUint16 10 c ip) ihl = Inr r" by (simp add: recomputeChecksums_def Let_def)
  from fixTransport_cases [OF fx] assms that show ?thesis by (auto simp: checksumField_def)
qed

lemma syn_mssE:
  assumes "syn_mss ip k v" and "ihl = 4 * unat (ip ! 0 AND 0x0f)" and "n = unat (Uint16 (subslice 2 4 ip))"
  obtains hlen opts where "ipv4_wellformed ip ihl n" "ip ! 9 = 6" "Uint16 (subslice 6 8 ip) AND 0x3fff = 0"
      "hlen = 4 * unat (drop_bit 4 (ip ! (ihl + 12)))" "20 \<le> hlen" "ihl + hlen \<le> n" "ip ! (ihl + 13) AND 0x02 \<noteq> 0" "other_options opts"
      "k = ihl + 20 + length opts + 2" "k + 2 \<le> ihl + hlen" "subslice (ihl + 20) (k + 2) ip = opts @ [2, 4] @ be16 v"
proof -
  from assms(1) obtain ihl' n' hlen opts where s: "ipv4_wellformed ip ihl' n'" "ip ! 9 = 6" "Uint16 (subslice 6 8 ip) AND 0x3fff = 0"
      "hlen = 4 * unat (drop_bit 4 (ip ! (ihl' + 12)))" "20 \<le> hlen" "ihl' + hlen \<le> n'" "ip ! (ihl' + 13) AND 0x02 \<noteq> 0" "other_options opts"
      "k = ihl' + 20 + length opts + 2" "k + 2 \<le> ihl' + hlen" "subslice (ihl' + 20) (k + 2) ip = opts @ [2, 4] @ be16 v"
    unfolding syn_mss_def by blast
  have "ihl' = ihl" "n' = n" using s(1) assms(2,3) by (simp_all add: ipv4_wellformed_def)
  from that [OF s [unfolded this]] show thesis .
qed

lemma syn_mss_cong:
  assumes "syn_mss ip k v" and "length ip' = length ip"
    and "\<And>j. j < length ip \<Longrightarrow> j \<notin> {10, 11, ihl + 16, ihl + 17} \<Longrightarrow> ip' ! j = ip ! j" and "ihl = 4 * unat (ip ! 0 AND 0x0f)"
  shows "syn_mss ip' k v" "ipv4_wellformed ip' ihl (unat (Uint16 (subslice 2 4 ip)))"
proof -
  define n where "n = unat (Uint16 (subslice 2 4 ip))"
  obtain hlen opts where s: "ipv4_wellformed ip ihl n" "ip ! 9 = 6" "Uint16 (subslice 6 8 ip) AND 0x3fff = 0"
      "hlen = 4 * unat (drop_bit 4 (ip ! (ihl + 12)))" "20 \<le> hlen" "ihl + hlen \<le> n" "ip ! (ihl + 13) AND 0x02 \<noteq> 0" "other_options opts"
      "k = ihl + 20 + length opts + 2" "k + 2 \<le> ihl + hlen" "subslice (ihl + 20) (k + 2) ip = opts @ [2, 4] @ be16 v"
    by (rule syn_mssE [OF assms(1,4) n_def])
  have b: "20 \<le> ihl" "n \<le> length ip" "n = unat (Uint16 (subslice 2 4 ip))" using s(1) by (simp_all add: ipv4_wellformed_def)
  have eq: "ip' ! 0 = ip ! 0" "ip' ! 9 = ip ! 9" "ip' ! (ihl + 12) = ip ! (ihl + 12)" "ip' ! (ihl + 13) = ip ! (ihl + 13)"
    using b s(5,6) by (auto intro!: assms(3))
  have sl: "subslice 2 4 ip' = subslice 2 4 ip" "subslice 6 8 ip' = subslice 6 8 ip"
    "subslice (ihl + 20) (k + 2) ip' = subslice (ihl + 20) (k + 2) ip"
    using b s(5,6,10) by (intro subslice_nth_cong assms(3); auto simp: assms(2))+
  have wf: "ipv4_wellformed ip' ihl n" using s(1) by (simp add: ipv4_wellformed_def eq sl assms(2))
  then show "ipv4_wellformed ip' ihl (unat (Uint16 (subslice 2 4 ip)))" by (simp add: b(3))
  from wf s(2-11) [folded eq sl] show "syn_mss ip' k v" unfolding syn_mss_def by blast
qed

lemma normalize_syn:
  assumes "syn_mss (drop off q) k v" and off: "off = ethOffset q" and r: "r = normalizeCapturedIPv4ChecksumsInPlace q"
  shows "\<exists>ihl n. ipv4_wellformed (drop off r) ihl n \<and> syn_mss (drop off r) k v \<and>
    headerVerifies (take n (drop off r)) ihl \<and> transportVerifies (take n (drop off r)) ihl \<and> length r = length q \<and>
    (\<forall>j < length q. j \<notin> {off + 10, off + 11, off + ihl + 16, off + ihl + 17} \<longrightarrow> r ! j = q ! j)"
proof -
  define ihl where "ihl = 4 * unat (q ! off AND 0x0f)"
  define n where "n = unat (Uint16 (subslice (off + 2) (off + 4) q))"
  let ?ip = "ipv4Slice q off n"
  have nd: "drop off xs ! j = xs ! (off + j)" if "length xs = length q" for j and xs :: bytes
    using ethOffset_le [of q] that by (simp add: off)
  have "ihl = 4 * unat (drop off q ! 0 AND 0x0f)" "n = unat (Uint16 (subslice 2 4 (drop off q)))"
    by (simp_all add: nd subslice_drop ihl_def n_def)
  from syn_mssE [OF assms(1) this] obtain hlen where s: "ipv4_wellformed (drop off q) ihl n" "q ! (off + 9) = 6"
      "Uint16 (subslice (off + 6) (off + 8) q) AND 0x3fff = 0" "hlen = 4 * unat (drop_bit 4 (q ! (off + (ihl + 12))))" "20 \<le> hlen" "ihl + hlen \<le> n"
    by (simp only: nd [OF refl] subslice_drop) blast
  then have b: "20 \<le> ihl" "off + n \<le> length q" "drop_bit 4 (q ! off) = 4"
    by (auto simp: ipv4_wellformed_def nd)
  have bounds: "ipv4HeaderBounds q = Inr (off, ihl, n)"
    using b s(5,6) by (simp add: ipv4HeaderBounds_def Let_def subslice_drop ihl_def n_def flip: off)
  have ip: "?ip ! j = q ! (off + j)" if "j < n" for j using that b by (intro nth_ipv4Slice)
  have "subslice 6 8 ?ip = subslice (off + 6) (off + 8) q"
    using b(1) s(5,6) by (simp add: ipv4Slice_def subslice_def drop_take min_def add.commute)
  then have nf: "\<not> fragmented ?ip" "?ip ! 9 = 6" "length ?ip = n"
    using s b ip [of 9] by (simp_all add: fragmented_def fragmentMask_eq)
  obtain r' where r': "recomputeChecksums ?ip ihl = Inr r'"
    using recompute_tcp [of ihl ?ip] b s nf ip [of "ihl + 12"] by auto
  have rr: "r = overwrite off r' q" unfolding r using bounds r' by (rule normalize_recompute)
  obtain c d where put: "r' = PutUint16 (ihl + 16) d (PutUint16 10 c ?ip)"
    by (rule recompute_put [OF r']) (use b s nf in simp_all)
  have len: "length r' = n" "length r = length q" using b s(5,6) nf(3) by (simp_all add: put rr)
  have same: "r ! j = q ! j" if "j < length q" "j \<notin> {off + 10, off + 11, off + ihl + 16, off + ihl + 17}" for j
    using that b s(5,6) len(1) nf(3) ip [of "j - off"]
    by (cases "off \<le> j \<and> j < off + n") (auto simp: rr nth_overwrite put)
  have tk: "take n (drop off r) = r'"
    using ipv4Slice_overwrite [OF len(1) b(2)] by (simp add: rr ipv4Slice_def subslice_def)
  have "syn_mss (drop off r) k v" "ipv4_wellformed (drop off r) ihl (unat (Uint16 (subslice 2 4 (drop off q))))"
    by (rule syn_mss_cong [OF assms(1)], use len same in \<open>auto simp: nd ihl_def\<close>)+
  moreover have "headerVerifies r' ihl" "transportVerifies r' ihl"
    using recompute_verifies [OF r'] recompute_frame(1) [OF r'] nf b s(5,6) ipv4HeaderBounds_facts(5) [OF bounds] by auto
  ultimately show ?thesis using same len(2) unfolding subslice_drop n_def [symmetric]
    by (intro exI [of _ ihl] exI [of _ n]) (simp add: tk)
qed

section \<open>Properties\<close>

text \<open>A TCP SYN segment from 10.0.0.1 to 10.0.0.2 with an MSS option of 1460, for the witnesses.\<close>

definition toy_syn :: bytes where
  "toy_syn =
    [0x45, 0, 0, 44, 0, 0, 0, 0, 64, 6, 0x66, 0xca, 10, 0, 0, 1, 10, 0, 0, 2,
     0x04, 0xd2, 0, 80, 0, 0, 0, 1, 0, 0, 0, 0, 0x60, 0x02, 0xff, 0xff, 0, 0, 0, 0, 2, 4, 0x05, 0xb4]"

lemma toy_syn_bounds: "ipv4HeaderBounds toy_syn = Inr (0, 20, 44)"
  by code_simp

lemma toy_length: "length toy_syn = 44"
  by (simp add: toy_syn_def)

lemma toy_slice: "\<not> fragmented (ipv4Slice toy_syn 0 44)" "ipv4Slice toy_syn 0 44 = toy_syn"
  by code_simp+

lemma toy_syn_verifies: "headerVerifies (ipv4Slice toy_syn 0 44) 20"
  unfolding headerVerifies_def by code_simp

lemma toy_recompute: "\<exists>r. recomputeChecksums (ipv4Slice toy_syn 0 44) 20 = Inr r"
  unfolding toy_slice(2) by (rule recompute_tcp) code_simp+

text \<open>
  C36: a well-formed IPv4 packet behind an Ethernet header is found at offset 14; a raw one,
  without such a header, is found at offset 0 exactly when bytes 12 and 13, the upper half of
  its source address, are not 8.0: a raw packet from 8.0.0.0/16 is taken for an Ethernet
  frame.
\<close>

theorem header_found:
  assumes "ipv4_wellformed ip ihl n"
  shows "(length eth = 14 \<and> subslice 12 14 eth = [0x08, 0x00] \<longrightarrow> ipv4HeaderBounds (eth @ ip) = Inr (14, ihl, n)) \<and>
    (ipv4HeaderBounds ip = Inr (0, ihl, n) \<longleftrightarrow> subslice 12 14 ip \<noteq> [0x08, 0x00])"
proof -
  have wf: "20 \<le> length ip" using assms by (simp add: ipv4_wellformed_def)
  have 0: "Uint16 [0x08, 0x00] = 0x0800" "be16 0x0800 = [0x08, 0x00]" by code_simp+
  have u: "Uint16 (subslice 12 14 xs) = 0x0800 \<longleftrightarrow> subslice 12 14 xs = [0x08, 0x00]" if "14 \<le> length xs" for xs
  proof -
    have "length (subslice 12 14 xs) = 2" using that by simp
    then have "be16 (Uint16 (subslice 12 14 xs)) = subslice 12 14 xs" by (rule be16.enc_dec_exact)
    then show ?thesis using 0 by (metis (no_types))
  qed
  have "ipv4HeaderBounds (eth @ ip) = Inr (14, ihl, n)" if "length eth = 14" "subslice 12 14 eth = [0x08, 0x00]"
  proof -
    have "ethOffset (eth @ ip) = 14" using that 0 by (simp add: ethOffset_def subslice_def)
    then show ?thesis using that(1) wf assms by (simp add: ipv4HeaderBounds_def Let_def ipv4_wellformed_def)
  qed
  moreover have "ipv4HeaderBounds ip = Inr (0, ihl, n) \<longleftrightarrow> subslice 12 14 ip \<noteq> [0x08, 0x00]"
  proof
    assume "ipv4HeaderBounds ip = Inr (0, ihl, n)"
    from ipv4HeaderBounds_facts(1) [OF this] show "subslice 12 14 ip \<noteq> [0x08, 0x00]"
      using wf u [of ip] by (auto simp: ethOffset_def split: if_splits)
  next
    assume "subslice 12 14 ip \<noteq> [0x08, 0x00]"
    then have "ethOffset ip = 0" using wf u [of ip] by (simp add: ethOffset_def)
    then show "ipv4HeaderBounds ip = Inr (0, ihl, n)"
      using wf assms by (simp add: ipv4HeaderBounds_def Let_def ipv4_wellformed_def)
  qed
  ultimately show ?thesis by blast
qed

theorem header_found_witness:
  "ipv4HeaderBounds (replicate 12 0 @ [0x08, 0x00] @ toy_syn) = Inr (14, 20, 44) \<and>
   ipv4HeaderBounds (overwrite 12 [8, 0] toy_syn) \<noteq> Inr (0, 20, 44)"
proof -
  have wf: "ipv4_wellformed toy_syn 20 44" "ipv4_wellformed (overwrite 12 [8, 0] toy_syn) 20 44"
    unfolding ipv4_wellformed_def by code_simp+
  have "subslice 12 14 (replicate 12 0 @ [0x08, 0x00 :: byte]) = [0x08, 0x00]"
    "subslice 12 14 (overwrite 12 [8, 0] toy_syn) = [0x08, 0x00]" by code_simp+
  with header_found [OF wf(1), of "replicate 12 0 @ [0x08, 0x00]"] header_found [OF wf(2)]
  show ?thesis by auto
qed

text \<open>
  C34: forwarding decrements the time to live and keeps the header valid.  For a packet whose
  header checksum verifies, the incremental update yields exactly the packet with the field
  decremented and the checksum recomputed from scratch, which verifies again; a packet with
  time to live 0 or 1 is refused; the in-place variant has the same result.
\<close>

theorem ttl_decrement:
  assumes "ipv4HeaderBounds p = Inr (off, ihl, n)" and "headerVerifies (ipv4Slice p off n) ihl"
  shows "let ip = ipv4Slice p off n; q = overwrite off (fixHeader (ip[8 := ip ! 8 - 1]) ihl) p in
    (if ip ! 8 \<le> 1 then decrementIPv4TTL p = Inl TTLExpired \<and> decrementIPv4TTLInPlace p = (p, Some TTLExpired)
     else decrementIPv4TTL p = Inr q \<and> decrementIPv4TTLInPlace p = (q, None) \<and>
       headerVerifies (ipv4Slice q off n) ihl)"
proof -
  note b = ipv4HeaderBounds_facts [OF assms(1)]
  define ip where "ip = ipv4Slice p off n"
  have len: "length ip = n" using b(4) by (simp add: ip_def)
  have "ip ! 0 = p ! off" using nth_ipv4Slice [of 0 n off p] b(2-4) by (simp add: ip_def)
  then have nz: "ip ! 0 \<noteq> 0" using b(6) by auto
  have fr: "length (fixHeader (ip[8 := ip ! 8 - 1]) ihl) = n" using len b(2,3) by simp
  have ck: "headerVerifies q ihl \<longleftrightarrow> ipv4Checksum (take ihl q) = 0" for q using b(3,5) by (intro headerVerifies_iff) simp
  have "decrementIPv4TTLAndChecksumInPlace ip ihl = fixHeader (ip[8 := ip ! 8 - 1]) ihl" if "1 < ip ! 8"
    using that b(2,3,5) len nz assms(2) by (intro ttl_incremental) (simp_all add: ck flip: ip_def)
  moreover have "headerVerifies (ipv4Slice (overwrite off (fixHeader (ip[8 := ip ! 8 - 1]) ihl) p) off n) ihl"
    using fixHeader_verifies [of ihl "ip[8 := ip ! 8 - 1]"] b(2-5) len by (simp add: ipv4Slice_overwrite [OF fr] ck)
  ultimately show ?thesis
    using assms(1)
    by (cases "ip ! 8 \<le> 1")
      (simp_all add: decrementIPv4TTL_def decrementIPv4TTLInPlace_def not_le Let_def flip: ip_def ipv4Slice_def)
qed

theorem ttl_decrement_witness:
  "ipv4HeaderBounds toy_syn = Inr (0, 20, 44) \<and>
   decrementIPv4TTL toy_syn = Inr (overwrite 0 (fixHeader (toy_syn[8 := 63]) 20) toy_syn)"
proof -
  have "toy_syn ! 8 - 1 = 63" "\<not> toy_syn ! 8 \<le> 1" by code_simp+
  with ttl_decrement [OF toy_syn_bounds toy_syn_verifies] toy_syn_bounds show ?thesis
    by (simp add: Let_def toy_slice(2))
qed

text \<open>
  C37: the clamp of the TCP maximum segment size.  The packets that
  \<open>capturedPacketNeedsTCPMSSClamp\<close> reports are the unfragmented TCP SYN packets whose first MSS
  option holds a value above the limit (a limit from 1 to 65535); every other packet is left as
  it is.  In such a packet the clamp writes the limit into that option and changes no other byte,
  and after the checksums are normalised (\<open>normalizeCapturedIPv4ChecksumsWithMSS\<close>) the
  option still holds the limit, the header and the TCP checksum verify, and the option and the
  two checksum fields are the only bytes that differ from the captured packet.
\<close>

theorem mss_clamp:
  "let off = ethOffset p; q = clampCapturedTCPMSSInPlaceWithMSS p mss; r = normalizeCapturedIPv4ChecksumsWithMSS p mss in
   (capturedPacketNeedsTCPMSSClamp p mss \<longleftrightarrow> (\<exists>k. mss_above (drop off p) mss k)) \<and>
   ((\<nexists>k. mss_above (drop off p) mss k) \<longrightarrow> q = p) \<and>
   (\<forall>k. mss_above (drop off p) mss k \<longrightarrow> q = PutUint16 (off + k) (word_of_int mss) p \<and>
     (\<exists>ihl n. ipv4_wellformed (drop off r) ihl n \<and> syn_mss (drop off r) k (word_of_int mss) \<and>
        headerVerifies (take n (drop off r)) ihl \<and> transportVerifies (take n (drop off r)) ihl \<and> length r = length p \<and>
        (\<forall>j < length p. j \<notin> {off + 10, off + 11, off + ihl + 16, off + ihl + 17, off + k, off + k + 1} \<longrightarrow> r ! j = p ! j)))"
proof -
  let ?off = "ethOffset p" and ?q = "clampCapturedTCPMSSInPlaceWithMSS p mss" and ?r = "normalizeCapturedIPv4ChecksumsWithMSS p mss"
  have "?q = p" if "\<nexists>k. mss_above (drop ?off p) mss k"
    using that clamp_cases [OF refl, of p mss] needs_clamp_iff by metis
  moreover have "\<exists>ihl n. ipv4_wellformed (drop ?off ?r) ihl n \<and> syn_mss (drop ?off ?r) k (word_of_int mss) \<and>
        headerVerifies (take n (drop ?off ?r)) ihl \<and> transportVerifies (take n (drop ?off ?r)) ihl \<and> length ?r = length p \<and>
        (\<forall>j < length p. j \<notin> {?off + 10, ?off + 11, ?off + ihl + 16, ?off + ihl + 17, ?off + k, ?off + k + 1} \<longrightarrow> ?r ! j = p ! j)"
    if "mss_above (drop ?off p) mss k" for k
  proof -
    note c = clamp_above [OF that]
    have q: "?q ! j = p ! j" if "j < length p" "j \<notin> {?off + k, ?off + k + 1}" for j
      using c(1,4) that by (auto simp: nth_overwrite)
    have len: "length ?q = length p" using c(1,4) by simp
    from normalize_syn [OF c(2) c(3) [symmetric] refl, folded normalizeCapturedIPv4ChecksumsWithMSS_def]
    obtain ihl n where "ipv4_wellformed (drop ?off ?r) ihl n" "syn_mss (drop ?off ?r) k (word_of_int mss)"
      "headerVerifies (take n (drop ?off ?r)) ihl" "transportVerifies (take n (drop ?off ?r)) ihl" "length ?r = length p"
      "\<forall>j < length p. j \<notin> {?off + 10, ?off + 11, ?off + ihl + 16, ?off + ihl + 17} \<longrightarrow> ?r ! j = ?q ! j"
      unfolding len by blast
    then show ?thesis using q by (intro exI [of _ ihl] exI [of _ n]) simp
  qed
  ultimately show ?thesis unfolding Let_def using needs_clamp_iff clamp_above(1) by blast
qed

theorem mss_clamp_witness:
  "\<exists>ihl n. clampCapturedTCPMSSInPlaceWithMSS toy_syn 1200 = PutUint16 42 1200 toy_syn \<and>
     syn_mss (normalizeCapturedIPv4ChecksumsWithMSS toy_syn 1200) 42 1200 \<and>
     transportVerifies (take n (normalizeCapturedIPv4ChecksumsWithMSS toy_syn 1200)) ihl \<and>
     clampCapturedTCPMSSInPlaceWithMSS toy_syn 1460 = toy_syn"
proof -
  have off: "ethOffset toy_syn = 0" by code_simp
  have "synOptions toy_syn = Some (40, 44)" "mssOption (subslice 40 44 toy_syn) 0 = Some 0"
    "Uint16 (subslice (0 + 2) (0 + 4) (subslice 40 44 toy_syn)) = 1460" by code_simp+
  then have "syn_mss toy_syn 42 1460" using syn_mss_iff [of toy_syn 42 1460] off by simp
  then have "mss_above toy_syn 1200 42" unfolding mss_above_def by auto
  moreover have "\<not> capturedPacketNeedsTCPMSSClamp toy_syn 1460" by code_simp
  ultimately show ?thesis
    using mss_clamp [of toy_syn 1200] mss_clamp [of toy_syn 1460] off unfolding Let_def by auto
qed

text \<open>
  Normalising the checksums of a captured packet repairs them and nothing else.  Where the
  transport header is complete, the IPv4 header checksum and, for an unfragmented TCP, UDP or
  ICMP packet, the transport checksum verify afterwards; every byte outside the IPv4 packet
  and every byte of it other than the two checksums is kept.
\<close>

theorem normalize_repairs:
  assumes "ipv4HeaderBounds p = Inr (off, ihl, n)"
    and "recomputeChecksums (ipv4Slice p off n) ihl = Inr r"
  shows "let q = normalizeCapturedIPv4ChecksumsInPlace p; ip = ipv4Slice q off n in
    take off q = take off p \<and> drop (off + n) q = drop (off + n) p \<and>
    blankChecksums ip ihl = blankChecksums (ipv4Slice p off n) ihl \<and>
    headerVerifies ip ihl \<and> (fragmented ip \<or> transportVerifies ip ihl)"
proof -
  note b = ipv4HeaderBounds_facts [OF assms(1)]
  have len: "ihl \<le> length (ipv4Slice p off n)" "length (ipv4Slice p off n) \<le> 65535" using b(3-5) by simp_all
  have r: "length r = n" using recompute_length [OF assms(2) b(2) len(1)] b(4) by simp
  have q: "normalizeCapturedIPv4ChecksumsInPlace p = overwrite off r p"
    using assms by (rule normalize_recompute)
  have "take off (overwrite off r p) = take off p" using b(4) by (intro take_overwrite_before) simp_all
  moreover have "drop (off + n) (overwrite off r p) = drop (off + n) p"
    using b(4) r by (intro drop_overwrite_after) simp_all
  ultimately show ?thesis
    using recompute_blank [OF assms(2) b(2) len(1)] recompute_verifies [OF assms(2) b(2) len]
    by (simp add: q Let_def ipv4Slice_overwrite [OF r b(4)])
qed

theorem normalize_repairs_witness:
  "ipv4HeaderBounds toy_syn = Inr (0, 20, 44) \<and>
   transportVerifies (ipv4Slice (normalizeCapturedIPv4ChecksumsInPlace toy_syn) 0 44) 20"
proof -
  obtain r where r: "recomputeChecksums (ipv4Slice toy_syn 0 44) 20 = Inr r" using toy_recompute by blast
  have len: "length (ipv4Slice toy_syn 0 44) = 44" by (simp add: toy_syn_def)
  have "length r = 44" "\<not> fragmented r"
    using recompute_length [OF r] recompute_frame(1) [OF r] len toy_slice(1) by simp_all
  then have "\<not> fragmented (ipv4Slice (normalizeCapturedIPv4ChecksumsInPlace toy_syn) 0 44)"
    by (simp add: normalize_recompute [OF toy_syn_bounds r] ipv4Slice_overwrite toy_length)
  with normalize_repairs [OF toy_syn_bounds r] toy_syn_bounds show ?thesis by (simp add: Let_def)
qed

end
