(* ===== verification/BindingTable.thy ===== *)
theory BindingTable
  imports Main
begin

text \<open>
  The contract of a table whose bindings live for a limited time, which the address translation
  table of the daemon provides and the forwarding paths rely on.  Times are integers;
  \<open>put now k v\<close> and \<open>get now k\<close> happen at time \<open>now\<close>, \<open>renew now\<close> is the maintenance a client
  may run before a lookup, and \<open>prune now\<close> drops what has expired.
\<close>

locale binding_table =
  fixes put :: "int \<Rightarrow> 'k \<Rightarrow> 'v \<Rightarrow> 't \<Rightarrow> 't"
    and get :: "int \<Rightarrow> 'k \<Rightarrow> 't \<Rightarrow> 't \<times> 'v option"
    and renew :: "int \<Rightarrow> 't \<Rightarrow> 't"
    and ok :: "'t \<Rightarrow> bool"
    and life :: "'t \<Rightarrow> int"
  assumes put_ok: "ok t \<Longrightarrow> 0 < now \<Longrightarrow> ok (put now k v t)"
    and get_ok: "ok t \<Longrightarrow> 0 < now \<Longrightarrow> ok (fst (get now k t))"
    and renew_ok: "ok t \<Longrightarrow> 0 < now \<Longrightarrow> ok (renew now t)"
    and put_life: "ok t \<Longrightarrow> 0 < now \<Longrightarrow> life (put now k v t) = life t"
    and get_put: "ok t \<Longrightarrow> 0 < now \<Longrightarrow> now \<le> now' \<Longrightarrow> now' < now + life t \<Longrightarrow>
      snd (get now' k (put now k v t)) = Some v"
    and get_renewed: "ok t \<Longrightarrow> 0 < now \<Longrightarrow> now \<le> now' \<Longrightarrow> now' < now + life t \<Longrightarrow>
      snd (get now' k (renew now' (put now k v t))) = Some v"
begin

lemma get_last_put:
  assumes "ok t" and "0 < now1" and "0 < now2" and "now2 \<le> now'" and "now' < now2 + life t"
  shows "snd (get now' k (put now2 k w (put now1 k v t))) = Some w"
  using assms by (intro get_put) (simp_all add: put_ok put_life)

text \<open>A binding renewed often enough is never lost, however long the sequence of renewals.\<close>

lemma get_after_renewals:
  assumes "ok t" and "\<forall>now \<in> set ts. 0 < now" and "ts \<noteq> []"
    and "last ts \<le> now'" and "now' < last ts + life t"
  shows "snd (get now' k (fold (\<lambda>now. put now k v) ts t)) = Some v"
  using assms
proof (induction ts arbitrary: t)
  case (Cons now ts)
  show ?case
  proof (cases "ts = []")
    case True
    with Cons.prems show ?thesis by (simp add: get_put)
  next
    case False
    with Cons.prems have "snd (get now' k (fold (\<lambda>now. put now k v) ts (put now k v t))) = Some v"
      by (intro Cons.IH) (simp_all add: put_ok put_life)
    then show ?thesis by simp
  qed
qed simp

end

text \<open>
  The stronger contract of a table of limited size.  \<open>bound since k v t\<close> says that \<open>k\<close> is bound
  to \<open>v\<close> and was last seen at \<open>since\<close> or later.  Within its lifetime such a binding survives
  every operation, insertions of other keys included while the table is not full.
\<close>

locale lasting_table =
  fixes put :: "int \<Rightarrow> 'k \<Rightarrow> 'v \<Rightarrow> 't \<Rightarrow> 't"
    and get :: "int \<Rightarrow> 'k \<Rightarrow> 't \<Rightarrow> 't \<times> 'v option"
    and renew :: "int \<Rightarrow> 't \<Rightarrow> 't"
    and prune :: "int \<Rightarrow> 't \<Rightarrow> 't"
    and ok :: "'t \<Rightarrow> bool"
    and life :: "'t \<Rightarrow> int"
    and limit :: "'t \<Rightarrow> int"
    and size :: "'t \<Rightarrow> nat"
    and bound :: "int \<Rightarrow> 'k \<Rightarrow> 'v \<Rightarrow> 't \<Rightarrow> bool"
  assumes put_ok: "ok t \<Longrightarrow> 0 < now \<Longrightarrow> ok (put now k v t)"
    and get_ok: "ok t \<Longrightarrow> 0 < now \<Longrightarrow> ok (fst (get now k t))"
    and renew_ok: "ok t \<Longrightarrow> 0 < now \<Longrightarrow> ok (renew now t)"
    and prune_ok: "ok t \<Longrightarrow> ok (prune now t)"
    and put_keeps: "ok t \<Longrightarrow> 0 < now \<Longrightarrow> life (put now k v t) = life t \<and> limit (put now k v t) = limit t \<and>
      size (put now k v t) \<le> Suc (size t)"
    and get_keeps: "ok t \<Longrightarrow> 0 < now \<Longrightarrow> life (fst (get now k t)) = life t \<and> limit (fst (get now k t)) = limit t \<and>
      size (fst (get now k t)) \<le> size t"
    and renew_keeps: "ok t \<Longrightarrow> 0 < now \<Longrightarrow> life (renew now t) = life t \<and> limit (renew now t) = limit t \<and>
      size (renew now t) \<le> size t"
    and prune_keeps: "ok t \<Longrightarrow> life (prune now t) = life t \<and> limit (prune now t) = limit t \<and> size (prune now t) \<le> size t"
    and bound_put_self: "ok t \<Longrightarrow> 0 < now \<Longrightarrow> bound now k v (put now k v t)"
    and bound_put: "ok t \<Longrightarrow> 0 < now \<Longrightarrow> bound since k v t \<Longrightarrow> since \<le> now \<Longrightarrow> now < since + life t \<Longrightarrow>
      int (size t) < limit t \<Longrightarrow> k' \<noteq> k \<or> v' = v \<Longrightarrow> bound since k v (put now k' v' t)"
    and bound_get: "ok t \<Longrightarrow> 0 < now \<Longrightarrow> bound since k v t \<Longrightarrow> since \<le> now \<Longrightarrow> now < since + life t \<Longrightarrow>
      bound since k v (fst (get now k' t))"
    and bound_renew: "ok t \<Longrightarrow> 0 < now \<Longrightarrow> bound since k v t \<Longrightarrow> now < since + life t \<Longrightarrow> bound since k v (renew now t)"
    and bound_prune: "ok t \<Longrightarrow> bound since k v t \<Longrightarrow> now < since + life t \<Longrightarrow> bound since k v (prune now t)"
    and get_bound: "ok t \<Longrightarrow> 0 < now \<Longrightarrow> bound since k v t \<Longrightarrow> now < since + life t \<Longrightarrow> snd (get now k t) = Some v"
begin

text \<open>The binding is held, with room for \<open>n\<close> further insertions.\<close>

definition held :: "int \<Rightarrow> 'k \<Rightarrow> 'v \<Rightarrow> nat \<Rightarrow> 't \<Rightarrow> bool" where
  "held since k v n t \<longleftrightarrow> ok t \<and> 0 < since \<and> bound since k v t \<and> int (size t) + int n \<le> limit t"

lemma held_start:
  assumes "ok t" and "0 < now" and "int (size t) + int (Suc n) \<le> limit t"
  shows "held now k v n (put now k v t)"
  using put_ok [OF assms(1,2), of k v] put_keeps [OF assms(1,2), of k v] bound_put_self [OF assms(1,2), of k v] assms(2,3)
  by (simp add: held_def)

lemma held_put:
  assumes "held since k v (Suc n) t" and "since \<le> now" and "now < since + life t" and "k' \<noteq> k \<or> v' = v"
  shows "held since k v n (put now k' v' t)"
  using assms put_ok [of t now k' v'] put_keeps [of t now k' v'] bound_put [of t now since k v k' v']
  by (auto simp: held_def)

lemma held_get:
  assumes "held since k v n t" and "since \<le> now" and "now < since + life t"
  shows "held since k v n (fst (get now k' t))"
  using assms get_ok [of t now k'] get_keeps [of t now k'] bound_get [of t now since k v k']
  by (auto simp: held_def)

lemma held_renew:
  assumes "held since k v n t" and "since \<le> now" and "now < since + life t"
  shows "held since k v n (renew now t)"
  using assms renew_ok [of t now] renew_keeps [of t now] bound_renew [of t now since k v]
  by (auto simp: held_def)

lemma held_prune:
  assumes "held since k v n t" and "now < since + life t"
  shows "held since k v n (prune now t)"
  using assms prune_ok [of t now] prune_keeps [of t now] bound_prune [of t since k v now]
  by (auto simp: held_def)

lemma held_weaken: "held since k v n t \<Longrightarrow> m \<le> n \<Longrightarrow> held since k v m t"
  by (simp add: held_def)

lemma held_found:
  "held since k v n t \<Longrightarrow> since \<le> now \<Longrightarrow> now < since + life t \<Longrightarrow> snd (get now k t) = Some v"
  using get_bound [of t now since k v] by (auto simp: held_def)

end

sublocale lasting_table \<subseteq> bt: binding_table put get renew ok life
proof
  fix t now now' k v
  assume a: "ok t" "0 < now" "now \<le> now'" "now' < now + life t"
  show "snd (get now' k (put now k v t)) = Some v"
    using a put_keeps [OF a(1,2)] bound_put_self [OF a(1,2)] put_ok [OF a(1,2)] by (intro get_bound) simp_all
  have "bound now k v (renew now' (put now k v t))"
    using a put_keeps [OF a(1,2)] bound_put_self [OF a(1,2)] put_ok [OF a(1,2)] by (intro bound_renew) simp_all
  then show "snd (get now' k (renew now' (put now k v t))) = Some v"
    using a put_keeps [OF a(1,2)] renew_keeps [OF put_ok [OF a(1,2)], of now'] renew_ok [OF put_ok [OF a(1,2)], of now']
    by (intro get_bound) simp_all
qed (simp_all add: put_ok get_ok renew_ok put_keeps)

end
