(* ===== verification/NATTable.thy ===== *)
theory NATTable
  imports NetIP BindingTable "HOL-Library.Multiset" "HOL-Library.AList" "HOL-Library.List_Lexorder" "HOL-Library.Char_ord"
    "HOL-Library.Product_Lexorder"
begin

text \<open>
  The table of address translation bindings of \<^verbatim>\<open>internal/daemon/nat.go\<close>: insertion with
  eviction of the least recently used binding, lookup with renewal, expiry, reconfiguration
  and the sorted snapshot.

  A Go map is an association list with distinct keys.  Its order is the order in which a
  loop over the map visits the entries, which Go leaves open; the step relation \<open>nat_step\<close>
  therefore contains a step that permutes the list.  An instant is an integer number of
  nanoseconds with 0 for the zero time; every operation takes the current time, which the
  code reads from the clock.  The mutex is not modelled: each operation holds it throughout.
\<close>

section \<open>The order of addresses\<close>

text \<open>\<^verbatim>\<open>Addr.Compare\<close>: by length, then by value, then by zone.\<close>

definition addr_key :: "Addr \<Rightarrow> nat \<times> nat \<times> string" where
  "addr_key a =
    (case a of NoAddr \<Rightarrow> (0, 0, '''') | V4 v \<Rightarrow> (32, unat v, '''') | V6 v z \<Rightarrow> (128, unat v, z))"

lemma addr_key_inject: "addr_key a = addr_key b \<longleftrightarrow> a = b"
  by (cases a; cases b) (auto simp: addr_key_def word_unat_eq_iff)

instantiation Addr :: linorder
begin

definition less_eq_Addr :: "Addr \<Rightarrow> Addr \<Rightarrow> bool" where
  "less_eq_Addr a b \<longleftrightarrow> addr_key a \<le> addr_key b"

definition less_Addr :: "Addr \<Rightarrow> Addr \<Rightarrow> bool" where
  "less_Addr a b \<longleftrightarrow> addr_key a < addr_key b"

instance
proof
  fix a b c :: Addr
  show "a < b \<longleftrightarrow> a \<le> b \<and> \<not> b \<le> a" by (auto simp: less_eq_Addr_def less_Addr_def)
  show "a \<le> a" by (simp add: less_eq_Addr_def)
  show "a \<le> b \<Longrightarrow> b \<le> c \<Longrightarrow> a \<le> c" by (auto simp: less_eq_Addr_def)
  show "a \<le> b \<Longrightarrow> b \<le> a \<Longrightarrow> a = b" by (auto simp: less_eq_Addr_def simp flip: addr_key_inject)
  show "a \<le> b \<or> b \<le> a" by (auto simp: less_eq_Addr_def)
qed

end


section \<open>Tables\<close>

record natKey =
  nk_TranslatedIP :: Addr
  nk_RemoteIP :: Addr
  nk_Protocol :: u8
  nk_LocalPort :: u16
  nk_RemotePort :: u16

record natBinding =
  nb_Key :: natKey
  nb_OriginalIP :: Addr
  nb_CreatedAt :: int
  nb_LastSeen :: int
  nb_ExpiresAt :: int

record natTable =
  nt_bindings :: "(natKey \<times> natBinding) list"
  nt_maxBindings :: int
  nt_ttl :: int
  nt_evictions :: u64
  nt_expired :: u64

definition natBindingTTL :: int where "natBindingTTL = 5 * 60 * 1000000000"
definition natBindingRefreshInterval :: int where "natBindingRefreshInterval = natBindingTTL div 2"
definition natDefaultMaxBindings :: int where "natDefaultMaxBindings = 16 * 1024"

definition newNATTableWithLimitAndTTL :: "int \<Rightarrow> int \<Rightarrow> natTable" where
  "newNATTableWithLimitAndTTL maxBindings ttl =
    \<lparr> nt_bindings = [],
      nt_maxBindings = (if maxBindings \<le> 0 then natDefaultMaxBindings else maxBindings),
      nt_ttl = (if ttl \<le> 0 then natBindingTTL else ttl),
      nt_evictions = 0, nt_expired = 0 \<rparr>"

definition newNATTableWithLimit :: "int \<Rightarrow> natTable" where
  "newNATTableWithLimit maxBindings = newNATTableWithLimitAndTTL maxBindings natBindingTTL"

definition newNATTable :: natTable where
  "newNATTable = newNATTableWithLimitAndTTL natDefaultMaxBindings natBindingTTL"

text \<open>The zero binding a map access returns for an absent key.\<close>

definition zeroBinding :: natBinding where
  "zeroBinding =
    \<lparr> nb_Key = \<lparr> nk_TranslatedIP = NoAddr, nk_RemoteIP = NoAddr, nk_Protocol = 0, nk_LocalPort = 0, nk_RemotePort = 0 \<rparr>,
      nb_OriginalIP = NoAddr, nb_CreatedAt = 0, nb_LastSeen = 0, nb_ExpiresAt = 0 \<rparr>"

definition refreshIntervalLocked :: "natTable \<Rightarrow> int" where
  "refreshIntervalLocked t = (if nt_ttl t \<le> 0 then natBindingRefreshInterval else nt_ttl t div 2)"

definition bindingExpired :: "int \<Rightarrow> natBinding \<Rightarrow> bool" where
  "bindingExpired now b \<longleftrightarrow> nb_ExpiresAt b \<noteq> 0 \<and> \<not> now < nb_ExpiresAt b"

definition pruneLocked :: "int \<Rightarrow> natTable \<Rightarrow> natTable \<times> bool" where
  "pruneLocked now t =
    (let gone = filter (\<lambda>(_, b). bindingExpired now b) (nt_bindings t) in
     (t \<lparr> nt_bindings := filter (\<lambda>(_, b). \<not> bindingExpired now b) (nt_bindings t),
          nt_expired := nt_expired t + word_of_nat (length gone) \<rparr>, gone \<noteq> []))"

text \<open>The loop that finds the oldest binding: \<open>best\<close> is \<^verbatim>\<open>found\<close> with \<^verbatim>\<open>oldestKey\<close>, \<^verbatim>\<open>oldest\<close>.\<close>

fun oldestLoop :: "(natKey \<times> natBinding) list \<Rightarrow> (natKey \<times> natBinding) option \<Rightarrow> (natKey \<times> natBinding) option" where
  "oldestLoop [] best = best"
| "oldestLoop ((k, b) # rest) best =
    (case best of
       None \<Rightarrow> oldestLoop rest (Some (k, b))
     | Some (_, oldest) \<Rightarrow>
         if nb_LastSeen b < nb_LastSeen oldest \<or>
            nb_LastSeen b = nb_LastSeen oldest \<and> nb_CreatedAt b < nb_CreatedAt oldest
         then oldestLoop rest (Some (k, b))
         else oldestLoop rest best)"

definition evictOldestLocked :: "natTable \<Rightarrow> natTable" where
  "evictOldestLocked t =
    (case oldestLoop (nt_bindings t) None of
       None \<Rightarrow> t
     | Some (oldestKey, _) \<Rightarrow>
         t \<lparr> nt_bindings := AList.delete oldestKey (nt_bindings t), nt_evictions := nt_evictions t + 1 \<rparr>)"

definition upsert :: "int \<Rightarrow> natKey \<Rightarrow> Addr \<Rightarrow> natTable \<Rightarrow> natTable \<times> bool" where
  "upsert now key original t =
    (let t = (if nt_ttl t \<le> 0 then t \<lparr> nt_ttl := natBindingTTL \<rparr> else t);
         (t, changed) = pruneLocked now t;
         full = (map_of (nt_bindings t) key = None \<and> nt_maxBindings t \<le> int (length (nt_bindings t)));
         t = (if full then evictOldestLocked t else t);
         changed = (changed \<or> full);
         binding = (case map_of (nt_bindings t) key of None \<Rightarrow> zeroBinding | Some b \<Rightarrow> b);
         oldOriginal = nb_OriginalIP binding;
         changed = (changed \<or> nb_CreatedAt binding = 0);
         binding = (if nb_CreatedAt binding = 0 then binding \<lparr> nb_CreatedAt := now \<rparr> else binding);
         changed = (changed \<or> nb_ExpiresAt binding \<noteq> 0 \<and> nb_ExpiresAt binding - now \<le> refreshIntervalLocked t);
         binding = binding \<lparr> nb_Key := key, nb_OriginalIP := original, nb_LastSeen := now,
                             nb_ExpiresAt := now + nt_ttl t \<rparr>
     in (t \<lparr> nt_bindings := AList.update key binding (nt_bindings t) \<rparr>,
         changed \<or> IsValid oldOriginal \<and> oldOriginal \<noteq> original))"

definition nat_lookup :: "int \<Rightarrow> natKey \<Rightarrow> natTable \<Rightarrow> natTable \<times> natBinding option \<times> bool" where
  "nat_lookup now key t =
    (let (t, changed) = pruneLocked now t in
     case map_of (nt_bindings t) key of
       None \<Rightarrow> (t, None, changed)
     | Some binding \<Rightarrow>
       let t = (if nt_ttl t \<le> 0 then t \<lparr> nt_ttl := natBindingTTL \<rparr> else t);
           changed = (changed \<or> nb_ExpiresAt binding \<noteq> 0 \<and> nb_ExpiresAt binding - now \<le> refreshIntervalLocked t);
           binding = binding \<lparr> nb_LastSeen := now, nb_ExpiresAt := now + nt_ttl t \<rparr>
       in (t \<lparr> nt_bindings := AList.update key binding (nt_bindings t) \<rparr>, Some binding, changed))"

record natTableSnapshot =
  ns_Bindings :: "natBinding list"
  ns_MaxBindings :: int
  ns_BindingTTL :: int
  ns_ActiveBindings :: nat
  ns_Evictions :: u64
  ns_Expired :: u64

definition binding_order :: "natBinding \<Rightarrow> Addr \<times> Addr \<times> u8 \<times> u16 \<times> u16" where
  "binding_order b =
    (let k = nb_Key b in (nk_TranslatedIP k, nk_RemoteIP k, nk_Protocol k, nk_LocalPort k, nk_RemotePort k))"

definition nat_snapshot :: "int \<Rightarrow> natTable \<Rightarrow> natTable \<times> natTableSnapshot" where
  "nat_snapshot now t =
    (let (t, _) = pruneLocked now t;
         out = sort_key binding_order (map snd (nt_bindings t))
     in (t, \<lparr> ns_Bindings = out, ns_MaxBindings = nt_maxBindings t, ns_BindingTTL = nt_ttl t,
              ns_ActiveBindings = length out, ns_Evictions = nt_evictions t, ns_Expired = nt_expired t \<rparr>))"

text \<open>
  Reconfiguration: each binding gets the new lifetime, counted from when it was last seen, or
  is dropped; then the oldest are evicted down to the new limit.  The limit is positive, so
  the loop stops before the table is empty.
\<close>

definition renewBinding :: "int \<Rightarrow> int \<Rightarrow> natBinding \<Rightarrow> natBinding" where
  "renewBinding now ttl b =
    (let b = (if nb_LastSeen b = 0 then b \<lparr> nb_LastSeen := now \<rparr> else b) in
     b \<lparr> nb_ExpiresAt := nb_LastSeen b + ttl \<rparr>)"

lemma oldestLoop_Some: "oldestLoop al (Some kb) \<in> Some ` insert kb (set al)"
proof (induction al arbitrary: kb)
  case (Cons x al)
  obtain k b where "x = (k, b)" by fastforce
  with Cons [of kb] Cons [of x] show ?case by (auto split: prod.splits)
qed simp

lemma oldestLoop_None: "al \<noteq> [] \<Longrightarrow> \<exists>kb \<in> set al. oldestLoop al None = Some kb"
  using oldestLoop_Some by (cases al) fastforce+

lemma evict_length:
  assumes "nt_bindings t \<noteq> []"
  shows "length (nt_bindings (evictOldestLocked t)) < length (nt_bindings t)"
proof -
  obtain k b where kb: "(k, b) \<in> set (nt_bindings t)" "oldestLoop (nt_bindings t) None = Some (k, b)"
    using oldestLoop_None [OF assms] by force
  then have "length (filter (\<lambda>(k', _). k \<noteq> k') (nt_bindings t)) < length (nt_bindings t)"
    by (intro length_filter_less) auto
  with kb(2) show ?thesis by (simp add: evictOldestLocked_def AList.delete_eq)
qed

function evictLoop :: "natTable \<Rightarrow> natTable" where
  "evictLoop t =
    (if nt_maxBindings t < int (length (nt_bindings t)) \<and> nt_bindings t \<noteq> []
     then evictLoop (evictOldestLocked t) else t)"
  by auto
termination by (relation "measure (\<lambda>t. length (nt_bindings t))") (auto intro: evict_length)

declare evictLoop.simps [simp del]

definition configure :: "int \<Rightarrow> int \<Rightarrow> int \<Rightarrow> natTable \<Rightarrow> natTable" where
  "configure now maxBindings ttl t =
    (let maxBindings = (if maxBindings \<le> 0 then natDefaultMaxBindings else maxBindings);
         ttl = (if ttl \<le> 0 then natBindingTTL else ttl);
         renewed = map (\<lambda>(k, b). (k, renewBinding now ttl b)) (nt_bindings t);
         gone = filter (\<lambda>(_, b). \<not> now < nb_ExpiresAt b) renewed
     in evictLoop (t \<lparr> nt_maxBindings := maxBindings, nt_ttl := ttl,
                       nt_bindings := filter (\<lambda>(_, b). now < nb_ExpiresAt b) renewed,
                       nt_expired := nt_expired t + word_of_nat (length gone) \<rparr>))"

section \<open>The invariant\<close>

text \<open>
  Keys are distinct and each binding carries its own key, the number of bindings respects
  the limit, and a binding expires one lifetime after it was last seen.
\<close>

definition binding_wf :: "int \<Rightarrow> natKey \<times> natBinding \<Rightarrow> bool" where
  "binding_wf ttl kb \<longleftrightarrow>
     nb_Key (snd kb) = fst kb \<and> 0 < nb_LastSeen (snd kb) \<and> nb_CreatedAt (snd kb) \<noteq> 0 \<and>
     nb_ExpiresAt (snd kb) = nb_LastSeen (snd kb) + ttl"

definition nat_wf :: "natTable \<Rightarrow> bool" where
  "nat_wf t \<longleftrightarrow>
     distinct (map fst (nt_bindings t)) \<and> int (length (nt_bindings t)) \<le> nt_maxBindings t \<and>
     0 < nt_maxBindings t \<and> 0 < nt_ttl t \<and> (\<forall>kb \<in> set (nt_bindings t). binding_wf (nt_ttl t) kb)"

lemma nat_wf_new: "nat_wf (newNATTableWithLimitAndTTL m ttl)"
  by (simp add: nat_wf_def newNATTableWithLimitAndTTL_def natDefaultMaxBindings_def natBindingTTL_def)

lemma distinct_fst_filter: "distinct (map fst al) \<Longrightarrow> distinct (map fst (filter P al))"
  by (induction al) (auto dest: in_set_takeD)

lemma pruneLocked_wf:
  assumes "nat_wf t"
  shows "nat_wf (fst (pruneLocked now t))"
proof -
  let ?l = "length (filter (\<lambda>(_, b). \<not> bindingExpired now b) (nt_bindings t))"
  have "?l \<le> length (nt_bindings t)" by (rule length_filter_le)
  then have "int ?l \<le> nt_maxBindings t" using assms unfolding nat_wf_def by linarith
  with assms show ?thesis
    by (auto simp: pruneLocked_def Let_def nat_wf_def distinct_fst_filter)
qed

lemma evict_cases:
  obtains (same) "evictOldestLocked t = t" "nt_bindings t = []"
  | (gone) k where "k \<in> set (map fst (nt_bindings t))"
      "evictOldestLocked t = t \<lparr> nt_bindings := AList.delete k (nt_bindings t), nt_evictions := nt_evictions t + 1 \<rparr>"
proof (cases "nt_bindings t = []")
  case True
  with same show ?thesis by (simp add: evictOldestLocked_def)
next
  case False
  obtain k b where kb: "(k, b) \<in> set (nt_bindings t)" "oldestLoop (nt_bindings t) None = Some (k, b)"
    using oldestLoop_None [OF False] by force
  with gone [of k] show ?thesis by (force simp: evictOldestLocked_def)
qed

lemma length_delete:
  "distinct (map fst al) \<Longrightarrow> k \<in> set (map fst al) \<Longrightarrow> Suc (length (AList.delete k al)) = length al"
proof (induction al)
  case (Cons x al)
  show ?case
  proof (cases "fst x = k")
    case True
    with Cons.prems have "\<forall>kb \<in> set al. k \<noteq> fst kb" by auto
    then have "AList.delete k al = al" by (simp add: AList.delete_eq filter_id_conv case_prod_beta)
    with True show ?thesis by (cases x) (simp add: AList.delete_eq)
  next
    case False
    with Cons show ?thesis by (cases x) simp
  qed
qed simp

lemma delete_wf_parts:
  assumes "distinct (map fst al)"
  shows "distinct (map fst (AList.delete k al))" "set (AList.delete k al) \<subseteq> set al"
  using assms by (auto simp: AList.delete_eq distinct_fst_filter)

text \<open>Eviction keeps everything but the limit, which it can only improve.\<close>

definition nat_wf' :: "natTable \<Rightarrow> bool" where
  "nat_wf' t \<longleftrightarrow>
     distinct (map fst (nt_bindings t)) \<and> 0 < nt_maxBindings t \<and> 0 < nt_ttl t \<and>
     (\<forall>kb \<in> set (nt_bindings t). binding_wf (nt_ttl t) kb)"

lemma nat_wf_iff: "nat_wf t \<longleftrightarrow> nat_wf' t \<and> int (length (nt_bindings t)) \<le> nt_maxBindings t"
  by (auto simp: nat_wf_def nat_wf'_def)

lemma evict_wf': "nat_wf' t \<Longrightarrow> nat_wf' (evictOldestLocked t)"
  by (cases t rule: evict_cases) (auto simp: nat_wf'_def dest: delete_wf_parts(1) subsetD [OF delete_wf_parts(2)])

lemma evict_params [simp]:
  "nt_maxBindings (evictOldestLocked t) = nt_maxBindings t" "nt_ttl (evictOldestLocked t) = nt_ttl t"
  by (cases t rule: evict_cases; simp)+

lemma evict_makes_room:
  assumes "nat_wf t"
  shows "int (length (nt_bindings (evictOldestLocked t))) < nt_maxBindings t"
proof (cases t rule: evict_cases)
  case same
  with assms show ?thesis by (simp add: nat_wf_def)
next
  case (gone k)
  with assms length_delete [of "nt_bindings t" k] show ?thesis by (simp add: nat_wf_def)
qed

lemma evictLoop_wf: "nat_wf' t \<Longrightarrow> nat_wf (evictLoop t)"
proof (induction t rule: evictLoop.induct)
  case (1 t)
  show ?case
  proof (cases "nt_maxBindings t < int (length (nt_bindings t)) \<and> nt_bindings t \<noteq> []")
    case True
    with 1 show ?thesis by (subst evictLoop.simps) (simp add: evict_wf')
  next
    case False
    with "1.prems" show ?thesis
      by (subst evictLoop.simps) (auto simp: nat_wf_iff nat_wf'_def)
  qed
qed

lemma length_update: "length (AList.update k v al) = (if k \<in> set (map fst al) then length al else Suc (length al))"
  by (induction al) auto

lemma keys_update: "set (map fst (AList.update k v al)) = insert k (set (map fst al))"
  by (induction al) auto

lemma set_update: "kb \<in> set (AList.update k b al) \<Longrightarrow> kb = (k, b) \<or> kb \<in> set al"
  by (induction al) (auto split: if_splits)

lemma update_wf:
  assumes "nat_wf' t" and "binding_wf (nt_ttl t) (k, b)"
    and "k \<in> set (map fst (nt_bindings t)) \<and> int (length (nt_bindings t)) \<le> nt_maxBindings t \<or>
      int (length (nt_bindings t)) < nt_maxBindings t"
  shows "nat_wf (t \<lparr> nt_bindings := AList.update k b (nt_bindings t) \<rparr>)"
proof -
  have "distinct (map fst (AList.update k b (nt_bindings t)))"
    using assms(1) by (intro distinct_update) (simp add: nat_wf'_def)
  then show ?thesis
    using assms by (auto simp: nat_wf_iff nat_wf'_def length_update dest: set_update)
qed

lemma prune_params [simp]:
  "nt_maxBindings (fst (pruneLocked now t)) = nt_maxBindings t" "nt_ttl (fst (pruneLocked now t)) = nt_ttl t"
  by (simp_all add: pruneLocked_def Let_def)

text \<open>The table on which \<open>upsert\<close> stores: pruned, with room for the key.\<close>

definition upsertBase :: "int \<Rightarrow> natKey \<Rightarrow> natTable \<Rightarrow> natTable" where
  "upsertBase now key t =
    (let t = fst (pruneLocked now t) in
     if map_of (nt_bindings t) key = None \<and> nt_maxBindings t \<le> int (length (nt_bindings t))
     then evictOldestLocked t else t)"

lemma upsertBase_wf:
  assumes "nat_wf t"
  shows "nat_wf' (upsertBase now key t)"
    "key \<in> set (map fst (nt_bindings (upsertBase now key t))) \<and>
       int (length (nt_bindings (upsertBase now key t))) \<le> nt_maxBindings (upsertBase now key t) \<or>
     int (length (nt_bindings (upsertBase now key t))) < nt_maxBindings (upsertBase now key t)"
    "nt_ttl (upsertBase now key t) = nt_ttl t" "nt_maxBindings (upsertBase now key t) = nt_maxBindings t"
proof -
  let ?p = "fst (pruneLocked now t)"
  have wf: "nat_wf ?p" using assms by (rule pruneLocked_wf)
  show "nat_wf' (upsertBase now key t)"
    using wf evict_wf' [of ?p] by (simp add: upsertBase_def Let_def nat_wf_iff)
  show "nt_ttl (upsertBase now key t) = nt_ttl t" "nt_maxBindings (upsertBase now key t) = nt_maxBindings t"
    by (simp_all add: upsertBase_def Let_def)
  show "key \<in> set (map fst (nt_bindings (upsertBase now key t))) \<and>
       int (length (nt_bindings (upsertBase now key t))) \<le> nt_maxBindings (upsertBase now key t) \<or>
     int (length (nt_bindings (upsertBase now key t))) < nt_maxBindings (upsertBase now key t)"
  proof (cases "map_of (nt_bindings ?p) key = None \<and> nt_maxBindings ?p \<le> int (length (nt_bindings ?p))")
    case True
    with evict_makes_room [OF wf] show ?thesis by (simp add: upsertBase_def Let_def)
  next
    case False
    then have "upsertBase now key t = ?p" unfolding upsertBase_def Let_def by (simp only: if_False)
    with False wf show ?thesis by (auto simp: nat_wf_def map_of_eq_None_iff)
  qed
qed

lemma upsert_stores:
  assumes "nat_wf t" and "0 < now"
  obtains b where "fst (upsert now key original t) =
      (upsertBase now key t) \<lparr> nt_bindings := AList.update key b (nt_bindings (upsertBase now key t)) \<rparr>"
    "nb_OriginalIP b = original" "nb_LastSeen b = now" "nb_ExpiresAt b = now + nt_ttl t" "binding_wf (nt_ttl t) (key, b)"
proof -
  let ?u = "upsertBase now key t"
  define old where "old = (case map_of (nt_bindings ?u) key of None \<Rightarrow> zeroBinding | Some b \<Rightarrow> b)"
  define b where "b = (if nb_CreatedAt old = 0 then old \<lparr> nb_CreatedAt := now \<rparr> else old)
    \<lparr> nb_Key := key, nb_OriginalIP := original, nb_LastSeen := now, nb_ExpiresAt := now + nt_ttl ?u \<rparr>"
  have ttl: "\<not> nt_ttl t \<le> 0" using assms(1) by (simp add: nat_wf_def)
  obtain p ch where p: "pruneLocked now t = (p, ch)" by fastforce
  have u: "(if map_of (nt_bindings p) key = None \<and> nt_maxBindings p \<le> int (length (nt_bindings p))
      then evictOldestLocked p else p) = ?u" by (simp only: upsertBase_def Let_def p fst_conv)
  have "fst (upsert now key original t) = ?u \<lparr> nt_bindings := AList.update key b (nt_bindings ?u) \<rparr>"
    by (simp only: upsert_def Let_def if_not_P [OF ttl] p case_prod_conv fst_conv u b_def old_def)
  moreover have "binding_wf (nt_ttl t) (key, b)"
    using assms(2) upsertBase_wf(3) [OF assms(1), of now key] by (simp add: binding_wf_def b_def)
  ultimately show ?thesis
    using upsertBase_wf(3) [OF assms(1), of now key] that [of b] by (simp add: b_def)
qed

lemma upsert_wf: "nat_wf t \<Longrightarrow> 0 < now \<Longrightarrow> nat_wf (fst (upsert now key original t))"
proof -
  assume t: "nat_wf t" "0 < now"
  obtain b where b: "fst (upsert now key original t) =
      (upsertBase now key t) \<lparr> nt_bindings := AList.update key b (nt_bindings (upsertBase now key t)) \<rparr>"
    "binding_wf (nt_ttl t) (key, b)" using upsert_stores [OF t, where key = key and original = original] by metis
  show ?thesis unfolding b(1) using b(2) upsertBase_wf [OF t(1), where now = now and key = key] by (intro update_wf) simp_all
qed

text \<open>A snapshot taken at the time of an insertion finds nothing to prune.\<close>

lemma prune_same:
  assumes "\<forall>(_, b) \<in> set (nt_bindings t). \<not> bindingExpired now b"
  shows "pruneLocked now t = (t, False)"
proof -
  have "filter (\<lambda>(_, b). bindingExpired now b) (nt_bindings t) = []"
    "filter (\<lambda>(_, b). \<not> bindingExpired now b) (nt_bindings t) = nt_bindings t"
    using assms by (auto simp: filter_empty_conv filter_id_conv)
  then show ?thesis by (simp add: pruneLocked_def)
qed

lemma upsertBase_fresh: "\<forall>(_, b) \<in> set (nt_bindings (upsertBase now key t)). \<not> bindingExpired now b"
proof -
  let ?p = "fst (pruneLocked now t)"
  have p: "\<forall>(_, b) \<in> set (nt_bindings ?p). \<not> bindingExpired now b"
    by (auto simp: pruneLocked_def Let_def)
  then have "\<forall>(_, b) \<in> set (nt_bindings (evictOldestLocked ?p)). \<not> bindingExpired now b"
    by (cases ?p rule: evict_cases) (fastforce simp: AList.delete_eq)+
  with p show ?thesis by (simp add: upsertBase_def Let_def)
qed

lemma prune_after_upsert:
  assumes "nat_wf t" and "0 < now"
  shows "pruneLocked now (fst (upsert now key original t)) = (fst (upsert now key original t), False)"
proof (rule prune_same)
  obtain b where b: "fst (upsert now key original t) =
      (upsertBase now key t) \<lparr> nt_bindings := AList.update key b (nt_bindings (upsertBase now key t)) \<rparr>"
    "nb_ExpiresAt b = now + nt_ttl t" using upsert_stores [OF assms, where key = key and original = original] by metis
  have "\<not> bindingExpired now b" using assms b(2) by (simp add: bindingExpired_def nat_wf_def)
  then show "\<forall>(_, b) \<in> set (nt_bindings (fst (upsert now key original t))). \<not> bindingExpired now b"
    unfolding b(1) using upsertBase_fresh [of now key t] by (auto dest!: set_update)
qed

lemma nat_lookup_cases:
  assumes "nat_wf t"
  obtains (miss) ch where "nat_lookup now key t = (fst (pruneLocked now t), None, ch)"
      "map_of (nt_bindings (fst (pruneLocked now t))) key = None"
  | (hit) b ch where "map_of (nt_bindings (fst (pruneLocked now t))) key = Some b"
      "nat_lookup now key t =
        ((fst (pruneLocked now t)) \<lparr> nt_bindings := AList.update key
            (b \<lparr> nb_LastSeen := now, nb_ExpiresAt := now + nt_ttl t \<rparr>) (nt_bindings (fst (pruneLocked now t))) \<rparr>,
         Some (b \<lparr> nb_LastSeen := now, nb_ExpiresAt := now + nt_ttl t \<rparr>), ch)"
proof -
  have ttl: "\<not> nt_ttl (fst (pruneLocked now t)) \<le> 0" using assms by (simp add: nat_wf_def)
  obtain p ch where p: "pruneLocked now t = (p, ch)" by fastforce
  show ?thesis
    using that ttl prune_params(2) [of now t]
    by (cases "map_of (nt_bindings p) key") (auto simp: nat_lookup_def p Let_def simp del: prune_params)
qed

lemma nat_lookup_wf:
  assumes "nat_wf t" and "0 < now"
  shows "nat_wf (fst (nat_lookup now key t))"
proof -
  let ?p = "fst (pruneLocked now t)"
  have wf: "nat_wf ?p" using assms(1) by (rule pruneLocked_wf)
  show ?thesis
  proof (rule nat_lookup_cases [OF assms(1), where now = now and key = key])
    fix ch assume "nat_lookup now key t = (?p, None, ch)"
    with wf show ?thesis by simp
  next
    fix b :: natBinding and ch
    let ?b = "b \<lparr> nb_LastSeen := now, nb_ExpiresAt := now + nt_ttl t \<rparr>"
    assume hit: "map_of (nt_bindings ?p) key = Some b"
      and eq: "nat_lookup now key t = (?p \<lparr> nt_bindings := AList.update key ?b (nt_bindings ?p) \<rparr>, Some ?b, ch)"
    from hit have kb: "(key, b) \<in> set (nt_bindings ?p)" by (simp add: map_of_SomeD)
    have "binding_wf (nt_ttl ?p) (key, ?b)" using wf kb assms(2) by (auto simp: nat_wf_def binding_wf_def)
    moreover have "key \<in> set (map fst (nt_bindings ?p))" using kb by force
    ultimately have "nat_wf (?p \<lparr> nt_bindings := AList.update key ?b (nt_bindings ?p) \<rparr>)"
      using wf by (intro update_wf) (simp_all add: nat_wf_iff)
    with eq show ?thesis by simp
  qed
qed

lemma nat_snapshot_wf: "nat_wf t \<Longrightarrow> nat_wf (fst (nat_snapshot now t))"
  using pruneLocked_wf [of t now] by (cases "pruneLocked now t") (simp add: nat_snapshot_def Let_def)

lemma configure_wf:
  assumes "nat_wf t" and "0 < now"
  shows "nat_wf (configure now m ttl t)"
proof -
  define ttl' where "ttl' = (if ttl \<le> 0 then natBindingTTL else ttl)"
  have pos: "0 < ttl'" by (simp add: ttl'_def natBindingTTL_def)
  let ?r = "map (\<lambda>(k, b). (k, renewBinding now ttl' b)) (nt_bindings t)"
  have "map fst ?r = map fst (nt_bindings t)" by (auto simp: case_prod_unfold)
  then have "distinct (map fst ?r)" using assms(1) unfolding nat_wf_def by (simp only:)
  moreover have "\<forall>kb \<in> set ?r. binding_wf ttl' kb"
    using assms by (auto simp: nat_wf_def binding_wf_def renewBinding_def Let_def)
  ultimately show ?thesis
    using pos unfolding configure_def Let_def ttl'_def [symmetric]
    by (intro evictLoop_wf) (auto simp: nat_wf'_def natDefaultMaxBindings_def intro: distinct_fst_filter)
qed

section \<open>Lookup after insertion\<close>

lemma upsert_params:
  assumes "nat_wf t" and "0 < now"
  shows "nt_ttl (fst (upsert now key original t)) = nt_ttl t"
    "nt_maxBindings (fst (upsert now key original t)) = nt_maxBindings t"
proof -
  obtain b where "fst (upsert now key original t) =
      (upsertBase now key t) \<lparr> nt_bindings := AList.update key b (nt_bindings (upsertBase now key t)) \<rparr>"
    using upsert_stores [OF assms, where key = key and original = original] by metis
  then show "nt_ttl (fst (upsert now key original t)) = nt_ttl t"
    "nt_maxBindings (fst (upsert now key original t)) = nt_maxBindings t"
    using upsertBase_wf(3,4) [OF assms(1), where now = now and key = key] by simp_all
qed

lemma evictLoop_params: "nt_maxBindings (evictLoop t) = nt_maxBindings t" "nt_ttl (evictLoop t) = nt_ttl t"
proof (induction t rule: evictLoop.induct)
  case (1 t)
  { case 1 then show ?case using "1.IH"(1) by (subst evictLoop.simps) simp }
  { case 2 then show ?case using "1.IH"(2) by (subst evictLoop.simps) simp }
qed

lemma configure_params:
  "nt_maxBindings (configure now m ttl t) = (if m \<le> 0 then natDefaultMaxBindings else m)"
  "nt_ttl (configure now m ttl t) = (if ttl \<le> 0 then natBindingTTL else ttl)"
  by (simp_all add: configure_def Let_def evictLoop_params)

lemma evict_length_le: "length (nt_bindings (evictOldestLocked t)) \<le> length (nt_bindings t)"
  by (cases t rule: evict_cases) (simp_all add: AList.delete_eq)

lemma evictLoop_length: "length (nt_bindings (evictLoop t)) \<le> length (nt_bindings t)"
proof (induction t rule: evictLoop.induct)
  case (1 t)
  then show ?case using evict_length_le [of t] by (subst evictLoop.simps) (auto intro: order_trans)
qed

lemma configure_length: "length (nt_bindings (configure now m ttl t)) \<le> length (nt_bindings t)"
  unfolding configure_def Let_def by (rule order_trans [OF evictLoop_length]) (simp add: le_trans [OF length_filter_le])

text \<open>Reconfiguring with the parameters a table already has keeps exactly its live bindings.\<close>

lemma configure_same_bindings:
  assumes "nat_wf t"
  shows "nt_bindings (configure now (nt_maxBindings t) (nt_ttl t) t) = filter (\<lambda>(_, b). now < nb_ExpiresAt b) (nt_bindings t)"
proof -
  have pos: "\<not> nt_ttl t \<le> 0" "\<not> nt_maxBindings t \<le> 0" using assms by (simp_all add: nat_wf_def)
  have "renewBinding now (nt_ttl t) b' = b'" if "(k', b') \<in> set (nt_bindings t)" for k' b'
    using that assms by (auto simp: nat_wf_def binding_wf_def renewBinding_def Let_def)
  then have same: "map (\<lambda>(k, b). (k, renewBinding now (nt_ttl t) b)) (nt_bindings t) = nt_bindings t"
    by (intro map_idI) auto
  let ?al = "filter (\<lambda>(_, b). now < nb_ExpiresAt b) (nt_bindings t)"
  have "length ?al \<le> length (nt_bindings t)" by (rule length_filter_le)
  then have "int (length ?al) \<le> nt_maxBindings t" using assms unfolding nat_wf_def by linarith
  then show ?thesis
    unfolding configure_def Let_def if_not_P [OF pos(1)] if_not_P [OF pos(2)] same by (subst evictLoop.simps) simp
qed

text \<open>A key bound to an address since a time, as the contract of a lasting table has it.\<close>

definition nat_bound :: "int \<Rightarrow> natKey \<Rightarrow> Addr \<Rightarrow> natTable \<Rightarrow> bool" where
  "nat_bound since k v t \<longleftrightarrow>
     (case map_of (nt_bindings t) k of None \<Rightarrow> False | Some b \<Rightarrow> nb_OriginalIP b = v \<and> since \<le> nb_LastSeen b)"

lemma nat_boundE:
  assumes "nat_bound since k v t" and "nat_wf t" and "now < since + nt_ttl t"
  obtains b where "map_of (nt_bindings t) k = Some b" "nb_OriginalIP b = v" "since \<le> nb_LastSeen b" "now < nb_ExpiresAt b"
proof -
  from assms(1) obtain b where b: "map_of (nt_bindings t) k = Some b" "nb_OriginalIP b = v" "since \<le> nb_LastSeen b"
    by (auto simp: nat_bound_def split: option.splits)
  then have "binding_wf (nt_ttl t) (k, b)" using assms(2) map_of_SomeD unfolding nat_wf_def by fast
  with b assms(3) that show ?thesis by (simp add: binding_wf_def)
qed

lemma map_of_alive: "map_of al k = Some b \<Longrightarrow> P b \<Longrightarrow> map_of (filter (\<lambda>(_, b). P b) al) k = Some b"
  by (induction al) (auto split: if_splits)

lemma bound_pruned:
  assumes "nat_bound since k v t" and "nat_wf t" and "now < since + nt_ttl t"
  shows "nat_bound since k v (fst (pruneLocked now t))"
proof -
  obtain b where b: "map_of (nt_bindings t) k = Some b" "nb_OriginalIP b = v" "since \<le> nb_LastSeen b" "now < nb_ExpiresAt b"
    using nat_boundE [OF assms] by blast
  from map_of_alive [OF b(1), of "\<lambda>b. \<not> bindingExpired now b"] b show ?thesis
    by (simp add: nat_bound_def pruneLocked_def Let_def bindingExpired_def)
qed

lemma bound_configured:
  assumes "nat_bound since k v t" and "nat_wf t" and "now < since + nt_ttl t"
  shows "nat_bound since k v (configure now (nt_maxBindings t) (nt_ttl t) t)"
proof -
  obtain b where b: "map_of (nt_bindings t) k = Some b" "nb_OriginalIP b = v" "since \<le> nb_LastSeen b" "now < nb_ExpiresAt b"
    using nat_boundE [OF assms] by blast
  from map_of_alive [OF b(1), of "\<lambda>b. now < nb_ExpiresAt b"] b show ?thesis
    by (simp add: nat_bound_def configure_same_bindings [OF assms(2)])
qed

lemma prune_length: "length (nt_bindings (fst (pruneLocked now t))) \<le> length (nt_bindings t)"
  by (simp add: pruneLocked_def Let_def)

lemma bound_upserted:
  assumes "nat_wf t" and "0 < now" and "nat_bound since k v t" and "since \<le> now" and "now < since + nt_ttl t"
    and "int (length (nt_bindings t)) < nt_maxBindings t" and "k' \<noteq> k \<or> v' = v"
  shows "nat_bound since k v (fst (upsert now k' v' t))"
proof -
  obtain b where u: "fst (upsert now k' v' t) =
      (upsertBase now k' t) \<lparr> nt_bindings := AList.update k' b (nt_bindings (upsertBase now k' t)) \<rparr>"
    "nb_OriginalIP b = v'" "nb_LastSeen b = now" using upsert_stores [OF assms(1,2), where key = k' and original = v'] by metis
  have "upsertBase now k' t = fst (pruneLocked now t)"
    using prune_length [of now t] assms(6) by (auto simp: upsertBase_def Let_def)
  with bound_pruned [OF assms(3,1,5)] u assms(4,7) show ?thesis by (auto simp: nat_bound_def update_conv')
qed

lemma bound_looked_up:
  assumes "nat_wf t" and "nat_bound since k v t" and "since \<le> now" and "now < since + nt_ttl t"
  shows "nat_bound since k v (fst (nat_lookup now k' t))"
  using bound_pruned [OF assms(2,1,4)] assms(3)
  by (cases rule: nat_lookup_cases [OF assms(1), where now = now and key = k']) (auto simp: nat_bound_def update_conv')

lemma lookup_bound:
  assumes "nat_wf t" and "nat_bound since k v t" and "now < since + nt_ttl t"
  shows "map_option nb_OriginalIP (fst (snd (nat_lookup now k t))) = Some v"
  using bound_pruned [OF assms(2,1,3)]
  by (cases rule: nat_lookup_cases [OF assms(1), where now = now and key = k]) (auto simp: nat_bound_def)

lemma upsert_bound: "nat_wf t \<Longrightarrow> 0 < now \<Longrightarrow> nat_bound now k v (fst (upsert now k v t))"
  by (rule upsert_stores [of t now k v]) (auto simp: nat_bound_def update_conv')

lemma lookup_params:
  assumes "nat_wf t"
  shows "nt_ttl (fst (nat_lookup now k t)) = nt_ttl t \<and> nt_maxBindings (fst (nat_lookup now k t)) = nt_maxBindings t \<and>
    length (nt_bindings (fst (nat_lookup now k t))) \<le> length (nt_bindings t)"
  using prune_length [of now t]
  by (cases rule: nat_lookup_cases [OF assms, where now = now and key = k])
    (auto simp: length_update simp flip: map_of_eq_None_iff)

lemma upsert_length:
  assumes "nat_wf t" and "0 < now"
  shows "length (nt_bindings (fst (upsert now k v t))) \<le> Suc (length (nt_bindings t))"
proof -
  obtain b where u: "fst (upsert now k v t) =
      (upsertBase now k t) \<lparr> nt_bindings := AList.update k b (nt_bindings (upsertBase now k t)) \<rparr>"
    using upsert_stores [OF assms, where key = k and original = v] by metis
  have "length (nt_bindings (upsertBase now k t)) \<le> length (nt_bindings t)"
    using prune_length [of now t] evict_length_le by (auto simp: upsertBase_def Let_def intro: order_trans)
  then show ?thesis by (simp add: u length_update)
qed

interpretation nat_table: lasting_table
  "\<lambda>now key original t. fst (upsert now key original t)"
  "\<lambda>now key t. (fst (nat_lookup now key t), map_option nb_OriginalIP (fst (snd (nat_lookup now key t))))"
  "\<lambda>now t. configure now (nt_maxBindings t) (nt_ttl t) t"
  "\<lambda>now t. fst (pruneLocked now t)"
  nat_wf nt_ttl nt_maxBindings "\<lambda>t. length (nt_bindings t)" nat_bound
proof unfold_locales
  show "nt_ttl (configure now (nt_maxBindings t) (nt_ttl t) t) = nt_ttl t \<and>
      nt_maxBindings (configure now (nt_maxBindings t) (nt_ttl t) t) = nt_maxBindings t \<and>
      length (nt_bindings (configure now (nt_maxBindings t) (nt_ttl t) t)) \<le> length (nt_bindings t)" if "nat_wf t" for t now
    using that by (auto simp: configure_params configure_same_bindings nat_wf_def)
qed (simp_all add: upsert_wf nat_lookup_wf configure_wf pruneLocked_wf upsert_params upsert_length lookup_params prune_length
    upsert_bound bound_upserted bound_looked_up bound_configured bound_pruned lookup_bound)


section \<open>Reachable tables\<close>

text \<open>
  The tables a daemon can have: a new one, and what any operation at any time makes of one;
  \<open>reorder\<close> is the freedom of the map's iteration order.
\<close>

inductive nat_reachable :: "natTable \<Rightarrow> bool" where
  new_table: "nat_reachable (newNATTableWithLimitAndTTL maxBindings ttl)"
| upserted: "nat_reachable t \<Longrightarrow> 0 < now \<Longrightarrow> nat_reachable (fst (upsert now key original t))"
| looked_up: "nat_reachable t \<Longrightarrow> 0 < now \<Longrightarrow> nat_reachable (fst (nat_lookup now key t))"
| snapshotted: "nat_reachable t \<Longrightarrow> 0 < now \<Longrightarrow> nat_reachable (fst (nat_snapshot now t))"
| configured: "nat_reachable t \<Longrightarrow> 0 < now \<Longrightarrow> nat_reachable (configure now maxBindings ttl t)"
| reorder: "nat_reachable t \<Longrightarrow> mset al = mset (nt_bindings t) \<Longrightarrow> nat_reachable (t \<lparr> nt_bindings := al \<rparr>)"

lemma reorder_wf:
  assumes "nat_wf t" and "mset al = mset (nt_bindings t)"
  shows "nat_wf (t \<lparr> nt_bindings := al \<rparr>)"
proof -
  have "mset (map fst al) = mset (map fst (nt_bindings t))" using assms(2) by simp
  then have "distinct (map fst al)" using assms(1) mset_eq_imp_distinct_iff unfolding nat_wf_def by blast
  moreover have "length al = length (nt_bindings t)" "set al = set (nt_bindings t)"
    using assms(2) by (rule mset_eq_length, rule mset_eq_setD)
  ultimately show ?thesis using assms(1) by (simp add: nat_wf_def)
qed

lemma nat_reachable_wf: "nat_reachable t \<Longrightarrow> nat_wf t"
  by (induction rule: nat_reachable.induct)
    (simp_all add: nat_wf_new upsert_wf nat_lookup_wf nat_snapshot_wf configure_wf reorder_wf)

section \<open>Eviction\<close>

abbreviation age :: "natBinding \<Rightarrow> int \<times> int" where
  "age b \<equiv> (nb_LastSeen b, nb_CreatedAt b)"

lemma oldestLoop_min:
  "oldestLoop al (Some (k0, b0)) = Some (k, b) \<Longrightarrow> age b \<le> age b0 \<and> (\<forall>kb \<in> set al. age b \<le> age (snd kb))"
proof (induction al arbitrary: k0 b0)
  case (Cons x al)
  obtain k' b' where x: "x = (k', b')" by fastforce
  show ?case
  proof (cases "nb_LastSeen b' < nb_LastSeen b0 \<or> nb_LastSeen b' = nb_LastSeen b0 \<and> nb_CreatedAt b' < nb_CreatedAt b0")
    case True
    then have "age b' \<le> age b0" by auto
    moreover have "oldestLoop al (Some (k', b')) = Some (k, b)"
      using Cons.prems unfolding x oldestLoop.simps option.case prod.case if_P [OF True] .
    then have "age b \<le> age b' \<and> (\<forall>kb \<in> set al. age b \<le> age (snd kb))" by (rule Cons.IH)
    ultimately show ?thesis by (simp only: x snd_conv list.set ball_simps) (meson order_trans)
  next
    case False
    then have "age b0 \<le> age b'" by auto
    moreover have "oldestLoop al (Some (k0, b0)) = Some (k, b)"
      using Cons.prems unfolding x oldestLoop.simps option.case prod.case if_not_P [OF False] .
    then have "age b \<le> age b0 \<and> (\<forall>kb \<in> set al. age b \<le> age (snd kb))" by (rule Cons.IH)
    ultimately show ?thesis by (simp only: x snd_conv list.set ball_simps) (meson order_trans)
  qed
qed simp

lemma evict_oldest:
  assumes "(k', b') \<in> set (nt_bindings t)" and "k' \<notin> set (map fst (nt_bindings (evictOldestLocked t)))"
    and "distinct (map fst (nt_bindings t))"
  shows "\<forall>kb \<in> set (nt_bindings t). age b' \<le> age (snd kb)"
proof -
  obtain k1 b1 rest where al: "nt_bindings t = (k1, b1) # rest" using assms(1) by (cases "nt_bindings t") auto
  obtain k b where old: "oldestLoop rest (Some (k1, b1)) = Some (k, b)"
    using oldestLoop_Some [of rest "(k1, b1)"] by force
  have loop: "oldestLoop (nt_bindings t) None = Some (k, b)" by (simp add: al old)
  then have "k' = k" using assms(1,2) by (force simp: evictOldestLocked_def AList.delete_eq)
  moreover have "(k, b) \<in> set (nt_bindings t)" using oldestLoop_None [of "nt_bindings t"] loop al by auto
  ultimately have "b' = b" using assms(1,3) by (metis eq_key_imp_eq_value)
  then show ?thesis using oldestLoop_min [OF old] by (simp add: al)
qed


section \<open>Properties\<close>

definition toy_key :: natKey where
  "toy_key = \<lparr> nk_TranslatedIP = V4 1, nk_RemoteIP = V4 2, nk_Protocol = 17, nk_LocalPort = 3, nk_RemotePort = 4 \<rparr>"

text \<open>
  C31: the translation table stays within its limit.  In every table a daemon can reach, by
  insertions, lookups, snapshots and reconfigurations at any times and whatever order the map
  is traversed in, the number of bindings is at most the configured limit, no key occurs
  twice, each binding is filed under its own key, and its expiry is its last use plus the
  lifetime.
\<close>

theorem nat_table_bounded:
  assumes "nat_reachable t"
  shows "int (length (nt_bindings t)) \<le> nt_maxBindings t \<and> distinct (map fst (nt_bindings t)) \<and>
    (\<forall>(k, b) \<in> set (nt_bindings t). nb_Key b = k \<and> nb_ExpiresAt b = nb_LastSeen b + nt_ttl t)"
  using nat_reachable_wf [OF assms] by (auto simp: nat_wf_def binding_wf_def)

theorem nat_table_bounded_witness:
  "nat_reachable (fst (upsert 7 toy_key (V4 9) (newNATTableWithLimitAndTTL 1 100))) \<and>
   int (length (nt_bindings (fst (upsert 7 toy_key (V4 9) (newNATTableWithLimitAndTTL 1 100))))) \<le> 1"
proof -
  have r: "nat_reachable (fst (upsert 7 toy_key (V4 9) (newNATTableWithLimitAndTTL 1 100)))"
    by (intro upserted new_table) simp
  have "nt_maxBindings (fst (upsert 7 toy_key (V4 9) (newNATTableWithLimitAndTTL 1 100))) = 1"
    using upsert_params(2) [OF nat_wf_new [of 1 100], of 7] by (simp add: newNATTableWithLimitAndTTL_def)
  with nat_table_bounded [OF r] r show ?thesis by simp
qed

text \<open>
  An insertion drops a live binding only to make room, and then the least recently used
  one.  A binding that has not expired and whose key is gone after an insertion was last
  seen no later than any other live binding, and the table was full.
\<close>

theorem upsert_evicts_lru:
  assumes "nat_wf t" and "0 < now" and "(k', b') \<in> set (nt_bindings t)" and "\<not> bindingExpired now b'"
    and "k' \<notin> set (map fst (nt_bindings (fst (upsert now key original t))))"
  shows "(\<forall>(k, b) \<in> set (nt_bindings t). \<not> bindingExpired now b \<longrightarrow> age b' \<le> age b) \<and>
    nt_maxBindings t = int (length (filter (\<lambda>(_, b). \<not> bindingExpired now b) (nt_bindings t)))"
proof -
  let ?p = "fst (pruneLocked now t)"
  have bs: "nt_bindings ?p = filter (\<lambda>(_, b). \<not> bindingExpired now b) (nt_bindings t)"
    by (simp add: pruneLocked_def Let_def)
  have wf: "nat_wf ?p" using assms(1) by (rule pruneLocked_wf)
  have live: "(k', b') \<in> set (nt_bindings ?p)" using assms(3,4) by (simp add: bs)
  obtain b where "fst (upsert now key original t) =
      (upsertBase now key t) \<lparr> nt_bindings := AList.update key b (nt_bindings (upsertBase now key t)) \<rparr>"
    using upsert_stores [OF assms(1,2), where key = key and original = original] by metis
  then have gone: "k' \<notin> set (map fst (nt_bindings (upsertBase now key t)))"
    using assms(5) by (simp add: keys_update del: set_map)
  have full: "map_of (nt_bindings ?p) key = None \<and> nt_maxBindings ?p \<le> int (length (nt_bindings ?p))"
  proof (rule ccontr)
    assume "\<not> ?thesis"
    then have "upsertBase now key t = ?p" unfolding upsertBase_def Let_def by (simp only: if_False)
    with gone live show False by force
  qed
  then have "upsertBase now key t = evictOldestLocked ?p" unfolding upsertBase_def Let_def by (rule if_P)
  with gone live wf have "\<forall>kb \<in> set (nt_bindings ?p). age b' \<le> age (snd kb)"
    by (intro evict_oldest) (simp_all add: nat_wf_def)
  moreover have "nt_maxBindings t = int (length (nt_bindings ?p))" using full wf by (simp add: nat_wf_def)
  ultimately show ?thesis by (auto simp: bs)
qed

theorem upsert_evicts_lru_witness:
  "let t = \<lparr> nt_bindings = [(toy_key, \<lparr> nb_Key = toy_key, nb_OriginalIP = V4 9, nb_CreatedAt = 7, nb_LastSeen = 7,
        nb_ExpiresAt = 107 \<rparr>)], nt_maxBindings = 1, nt_ttl = 100, nt_evictions = 0, nt_expired = 0 \<rparr> in
   nat_wf t \<and> toy_key \<notin> set (map fst (nt_bindings (fst (upsert 8 (toy_key \<lparr> nk_LocalPort := 5 \<rparr>) (V4 9) t)))) \<and>
   nt_maxBindings t = int (length (filter (\<lambda>(_, b). \<not> bindingExpired 8 b) (nt_bindings t)))"
proof -
  let ?b = "\<lparr> nb_Key = toy_key, nb_OriginalIP = V4 9, nb_CreatedAt = 7, nb_LastSeen = 7, nb_ExpiresAt = 107 \<rparr>"
  let ?t = "\<lparr> nt_bindings = [(toy_key, ?b)], nt_maxBindings = 1, nt_ttl = 100, nt_evictions = 0, nt_expired = 0 \<rparr>"
  have wf: "nat_wf ?t" by (simp add: nat_wf_def binding_wf_def)
  have gone: "toy_key \<notin> set (map fst (nt_bindings (fst (upsert 8 (toy_key \<lparr> nk_LocalPort := 5 \<rparr>) (V4 9) ?t))))"
    by code_simp
  have "(toy_key, ?b) \<in> set (nt_bindings ?t)" "\<not> bindingExpired 8 ?b" by (simp_all add: bindingExpired_def)
  then have "nt_maxBindings ?t = int (length (filter (\<lambda>(_, b). \<not> bindingExpired 8 b) (nt_bindings ?t)))"
    by (intro upsert_evicts_lru [OF wf _ _ _ gone, THEN conjunct2]) simp_all
  with wf gone show ?thesis unfolding Let_def by (intro conjI)
qed

end
