(* ===== verification/NAT.thy ===== *)
theory NAT
  imports IPv4Packet NATTable Routing
begin

text \<open>
  Source address translation of \<^verbatim>\<open>internal/daemon/nat.go\<close>: the flow tuple of a packet, the
  rewriting of an address with its checksums, and the outbound and inbound paths over the
  table of \<open>NATTable\<close>, with the configuration they read.

  The daemon is the record of what these functions use: the local networks that
  \<^verbatim>\<open>config.EffectiveLANs\<close> returns, the names and rewrite modes of the configured policies, the
  identifiers and management addresses of the known members, the table and the counters.
  The parsers of prefixes, addresses and durations are arguments.  One call reads the clock
  once; the code reads it in each table operation.
\<close>

section \<open>Packets\<close>



definition rewriteIPv4Address :: "bytes \<Rightarrow> Addr \<Rightarrow> bool \<Rightarrow> pkt_error + bytes" where
  "rewriteIPv4Address packet addr source =
    (if \<not> Is4 addr then Inl AddrNotIPv4
     else (case ipv4HeaderBounds packet of Inl err \<Rightarrow> Inl err
       | Inr (ipOffset, ihl, totalLen) \<Rightarrow>
         let ip = subslice ipOffset (ipOffset + totalLen) packet;
             ip = overwrite (if source then 12 else 16) (As4 addr) ip
         in (case recomputeChecksums ip ihl of Inl err \<Rightarrow> Inl err
             | Inr ip \<Rightarrow> Inr (overwrite ipOffset ip packet))))"




section \<open>The daemon\<close>





































section \<open>Rewriting\<close>

lemma rewrite_spec:
  assumes "ipv4HeaderBounds p = Inr (off, ihl, n)" and "rewriteIPv4Address p addr source = Inr q"
  shows "let ip = overwrite (if source then 12 else 16) (As4 addr) (ipv4Slice p off n); ip' = ipv4Slice q off n in
    Is4 addr \<and> length q = length p \<and> take off q = take off p \<and> drop (off + n) q = drop (off + n) p \<and>
    blankChecksums ip' ihl = blankChecksums ip ihl \<and> subslice 12 16 ip' = subslice 12 16 ip \<and> subslice 16 20 ip' = subslice 16 20 ip \<and>
    headerVerifies ip' ihl \<and> (fragmented ip' \<or> transportVerifies ip' ihl)"
proof -
  note b = ipv4HeaderBounds_facts [OF assms(1)]
  define ip where "ip = overwrite (if source then 12 else 16) (As4 addr) (ipv4Slice p off n)"
  have len: "length ip = n" using b(2-4) by (simp add: ip_def)
  obtain r where r: "recomputeChecksums ip ihl = Inr r" and q: "q = overwrite off r p" and a: "Is4 addr"
    using assms by (auto simp: rewriteIPv4Address_def ip_def ipv4Slice_def split: if_splits sum.splits)
  have le: "ihl \<le> length ip" "length ip \<le> 65535" using b(3,5) len by simp_all
  have rl: "length r = n" using recompute_length [OF r b(2) le(1)] len by simp
  have "length q = length p" "take off q = take off p" "drop (off + n) q = drop (off + n) p"
    using b(4) rl by (simp_all add: q take_overwrite_before drop_overwrite_after)
  moreover have "ipv4Slice q off n = r" by (simp add: q ipv4Slice_overwrite [OF rl b(4)])
  ultimately show ?thesis
    using recompute_blank [OF r b(2) le(1)] recompute_verifies [OF r b(2) le] recompute_frame(3,4) [OF r b(2) le(1)] a
    by (simp add: Let_def ip_def)
qed


section \<open>Configuration and the table\<close>












section \<open>Other traffic\<close>


























section \<open>Properties\<close>





lemma rewrite_tcp:
  assumes "ipv4HeaderBounds p = Inr (off, ihl, n)" and "Is4 addr" and "ihl + 20 \<le> n" and "p ! (off + 9) = 6"
    and "5 \<le> unat (drop_bit 4 (p ! (off + (ihl + 12))))"
    and "ihl + unat (drop_bit 4 (p ! (off + (ihl + 12)))) * 4 \<le> n"
  shows "\<exists>q. rewriteIPv4Address p addr source = Inr q"
proof -
  note b = ipv4HeaderBounds_facts [OF assms(1)]
  let ?ip = "overwrite (if source then 12 else 16) (As4 addr) (ipv4Slice p off n)"
  have len: "length ?ip = n" using b(2-4) by simp
  have nth: "?ip ! k = p ! (off + k)" if "k < 12 \<or> 20 \<le> k" "k < n" for k
    using that b(2-4) by (subst nth_overwrite) (auto simp: nth_ipv4Slice)
  have "?ip ! 9 = p ! (off + 9)" "?ip ! (ihl + 12) = p ! (off + (ihl + 12))"
    using nth [of 9] nth [of "ihl + 12"] b(2,3) assms(3) by simp_all
  then have "\<exists>r. recomputeChecksums ?ip ihl = Inr r"
    using b(2) assms(3-6) len by (intro recompute_tcp) simp_all
  then show ?thesis
    using assms(1,2) by (auto simp: rewriteIPv4Address_def ipv4Slice_def)
qed






text \<open>
  C35: the rewriting of an address changes the address and the checksums, and nothing else.  On
  success the packet has the new source or destination, a header checksum that verifies and,
  unless it is a fragment, a TCP, UDP or ICMP checksum that verifies; every other byte is
  kept.
\<close>

theorem rewrite_address:
  assumes "ipv4HeaderBounds p = Inr (off, ihl, n)" and "rewriteIPv4Address p addr source = Inr q"
  shows "let ip = overwrite (if source then 12 else 16) (As4 addr) (ipv4Slice p off n); ip' = ipv4Slice q off n in
    length q = length p \<and> take off q = take off p \<and> drop (off + n) q = drop (off + n) p \<and>
    blankChecksums ip' ihl = blankChecksums ip ihl \<and>
    headerVerifies ip' ihl \<and> (fragmented ip' \<or> transportVerifies ip' ihl)"
  using rewrite_spec [OF assms] by (simp add: Let_def)

theorem rewrite_address_witness:
  "\<exists>q. rewriteIPv4Address toy_syn (V4 0x0A000009) True = Inr q \<and> headerVerifies (ipv4Slice q 0 44) 20"
proof -
  have "\<exists>q. rewriteIPv4Address toy_syn (V4 0x0A000009) True = Inr q"
    by (rule rewrite_tcp [OF toy_syn_bounds]) code_simp+
  then obtain q where q: "rewriteIPv4Address toy_syn (V4 0x0A000009) True = Inr q" by blast
  from rewrite_address [OF toy_syn_bounds q] q show ?thesis by (auto simp: Let_def)
qed



end
