(* ===== verification/GSOCoalesce.thy ===== *)
theory GSOCoalesce
  imports IPv4Packet GoStrings "HOL-Library.AList"
begin

unbundle bit_operations_syntax

text \<open>
  Coalescing of TCP segments, \<^verbatim>\<open>internal/daemon/gso_coalesce.go\<close>: consecutive segments of one
  flow are merged into one large packet before they are handed on, by a loop with one
  pending packet or by one with a pending packet per flow.

  Packets are byte lists, so the copy a pending packet gets before it is first extended is
  the packet itself; \<open>gc_cloned\<close> keeps track of it, and \<open>finish_private\<close> of \<open>GSOStreams\<close> shows
  that only copies are overwritten.  The scratch buffers the caller lends only save allocations and
  are left out.
\<close>

section \<open>Segments\<close>

record tcpGSOCoalesceKey =
  ck_SourceIP :: Addr
  ck_DestinationIP :: Addr
  ck_SourcePort :: u16
  ck_DestinationPort :: u16

record tcpGSOCoalesceMeta =
  cm_key :: tcpGSOCoalesceKey
  cm_ipTOS :: byte
  cm_ipFlags :: u16
  cm_ipTTL :: byte
  cm_ihl :: nat
  cm_tcpHeaderLen :: nat
  cm_payloadOffset :: nat
  cm_payloadLen :: nat
  cm_seq :: u32
  cm_ack :: u32
  cm_flags :: byte
  cm_window :: u16
  cm_urgent :: u16
  cm_totalLen :: nat
  cm_headerLen :: nat

definition tcpFlagPSH :: byte where "tcpFlagPSH = 0x08"
definition tcpFlagACK :: byte where "tcpFlagACK = 0x10"

definition tcpGSOCoalescibleFlags :: "byte \<Rightarrow> bool" where
  "tcpGSOCoalescibleFlags flags \<longleftrightarrow> flags = tcpFlagACK \<or> flags = tcpFlagACK OR tcpFlagPSH"

text \<open>The literal that \<open>tcpGSOCoalescePacketMeta\<close> returns once its guards have passed.\<close>

definition readMeta :: "bytes \<Rightarrow> nat \<Rightarrow> nat \<Rightarrow> nat \<Rightarrow> tcpGSOCoalesceMeta" where
  "readMeta packet ihl hlen totalLen =
    (let tcp = subslice ihl totalLen packet; payloadOffset = ihl + hlen in
     \<lparr> cm_key = \<lparr> ck_SourceIP = AddrFrom4 (subslice 12 16 packet), ck_DestinationIP = AddrFrom4 (subslice 16 20 packet),
                 ck_SourcePort = Uint16 (subslice 0 2 tcp), ck_DestinationPort = Uint16 (subslice 2 4 tcp) \<rparr>,
       cm_ipTOS = packet ! 1, cm_ipFlags = Uint16 (subslice 6 8 packet), cm_ipTTL = packet ! 8, cm_ihl = ihl,
       cm_tcpHeaderLen = hlen, cm_payloadOffset = payloadOffset, cm_payloadLen = totalLen - payloadOffset,
       cm_seq = Uint32 (subslice 4 8 tcp), cm_ack = Uint32 (subslice 8 12 tcp), cm_flags = tcp ! 13,
       cm_window = Uint16 (subslice 14 16 tcp), cm_urgent = Uint16 (subslice 18 20 tcp),
       cm_totalLen = totalLen, cm_headerLen = payloadOffset \<rparr>)"

definition tcpGSOCoalescePacketMeta :: "bytes \<Rightarrow> tcpGSOCoalesceMeta option" where
  "tcpGSOCoalescePacketMeta packet =
    (case ipv4HeaderBounds packet of Inl _ \<Rightarrow> None
     | Inr (ipOffset, ihl, totalLen) \<Rightarrow>
       if ipOffset \<noteq> 0 \<or> totalLen \<noteq> length packet \<or> 0xffff < totalLen then None
       else if packet ! 9 \<noteq> 6 then None
       else if Uint16 (subslice 6 8 packet) AND fragmentMask \<noteq> 0 then None
       else let tcp = subslice ihl totalLen packet in
         if length tcp < 20 then None
         else let hlen = unat (drop_bit 4 (tcp ! 12)) * 4 in
           if hlen < 20 \<or> length tcp < hlen then None
           else if totalLen \<le> ihl + hlen \<or> \<not> tcpGSOCoalescibleFlags (tcp ! 13) then None
           else Some (readMeta packet ihl hlen totalLen))"


section \<open>The pending packet\<close>

record tcpGSOCoalescer =
  gc_active :: bool
  gc_meta :: tcpGSOCoalesceMeta
  gc_packet :: bytes
  gc_count :: nat
  gc_cloned :: bool

record tcpGSOCoalesceOptions =
  go_skipTCPChecksumAbove :: int
  go_multiFlow :: bool

record dataSessionGSOCoalesceStats =
  gs_Batches :: u64
  gs_InputPackets :: u64
  gs_OutputPackets :: u64
  gs_OutputBytes :: u64

definition noStats :: dataSessionGSOCoalesceStats where
  "noStats = \<lparr> gs_Batches = 0, gs_InputPackets = 0, gs_OutputPackets = 0, gs_OutputBytes = 0 \<rparr>"

definition tcpGSOCoalesceSkipTCPChecksum :: "nat \<Rightarrow> tcpGSOCoalesceOptions \<Rightarrow> bool" where
  "tcpGSOCoalesceSkipTCPChecksum totalLen options \<longleftrightarrow>
     go_skipTCPChecksumAbove options > 0 \<and> int totalLen > go_skipTCPChecksumAbove options"

definition tcpGSOCoalescerCanAppend ::
  "tcpGSOCoalescer \<Rightarrow> bytes \<Rightarrow> tcpGSOCoalesceMeta \<Rightarrow> int \<Rightarrow> int \<Rightarrow> bool" where
  "tcpGSOCoalescerCanAppend current packet meta maxBytes maxPackets =
    (let maxBytes = (if maxBytes > 0xffff then 0xffff else maxBytes); cm = gc_meta current in
     if \<not> gc_active current \<or> int (gc_count current) \<ge> maxPackets then False
     else if cm_key cm \<noteq> cm_key meta \<or> cm_ipTOS cm \<noteq> cm_ipTOS meta \<or> cm_ipFlags cm \<noteq> cm_ipFlags meta \<or>
       cm_ipTTL cm \<noteq> cm_ipTTL meta \<or> cm_ihl cm \<noteq> cm_ihl meta \<or> cm_tcpHeaderLen cm \<noteq> cm_tcpHeaderLen meta \<or>
       cm_headerLen cm \<noteq> cm_headerLen meta \<or> cm_ack cm \<noteq> cm_ack meta \<or> cm_window cm \<noteq> cm_window meta \<or>
       cm_urgent cm \<noteq> cm_urgent meta \<or> cm_seq cm + word_of_nat (cm_payloadLen cm) \<noteq> cm_seq meta then False
     else if length packet < cm_totalLen meta \<or> int (length (gc_packet current) + cm_payloadLen meta) > maxBytes then False
     else if subslice (cm_ihl cm + 20) (cm_ihl cm + cm_tcpHeaderLen cm) (gc_packet current) \<noteq>
       subslice (cm_ihl meta + 20) (cm_ihl meta + cm_tcpHeaderLen meta) packet then False
     else tcpGSOCoalescibleFlags (cm_flags cm) \<and> tcpGSOCoalescibleFlags (cm_flags meta) \<and> cm_payloadLen meta > 0)"

definition tcpGSOCoalescedFlags :: "byte \<Rightarrow> byte \<Rightarrow> byte" where
  "tcpGSOCoalescedFlags current nxt = (if nxt AND tcpFlagPSH \<noteq> 0 then current OR tcpFlagPSH else current)"

definition finishTCPGSOCoalescedPacket :: "bytes \<Rightarrow> tcpGSOCoalesceMeta \<Rightarrow> bool \<Rightarrow> bytes" where
  "finishTCPGSOCoalescedPacket packet meta skipTCPChecksum =
    (if length packet < cm_totalLen meta then packet
     else
       let packet = take (cm_totalLen meta) packet;
           packet = PutUint16 2 (word_of_nat (cm_totalLen meta)) packet;
           packet = packet[6 := packet ! 6 AND NOT 0x20];
           packet = PutUint16 10 0 packet;
           packet = PutUint16 10 (ipv4Checksum (take (cm_ihl meta) packet)) packet;
           packet = packet[cm_ihl meta + 13 := cm_flags meta];
           packet = PutUint16 (cm_ihl meta + 16) 0 packet
       in if skipTCPChecksum then packet
          else PutUint16 (cm_ihl meta + 16)
            (transportChecksum (subslice 12 16 packet) (subslice 16 20 packet) 6 (drop (cm_ihl meta) packet)) packet)"

definition cloneTCPGSOCoalescePacket :: "tcpGSOCoalescer \<Rightarrow> bytes" where
  "cloneTCPGSOCoalescePacket current = take (cm_totalLen (gc_meta current)) (gc_packet current)"

definition startCoalescer :: "bytes \<Rightarrow> tcpGSOCoalesceMeta \<Rightarrow> tcpGSOCoalescer" where
  "startCoalescer packet meta =
    \<lparr> gc_active = True, gc_meta = meta, gc_packet = take (cm_totalLen meta) packet, gc_count = 1, gc_cloned = False \<rparr>"

text \<open>The statements of both loops that extend the pending packet.\<close>

definition extendCoalescer :: "tcpGSOCoalescer \<Rightarrow> bytes \<Rightarrow> tcpGSOCoalesceMeta \<Rightarrow> tcpGSOCoalescer" where
  "extendCoalescer current packet meta =
    (let current = (if \<not> gc_cloned current
           then current \<lparr> gc_packet := cloneTCPGSOCoalescePacket current, gc_cloned := True \<rparr> else current);
         cm = gc_meta current
     in current \<lparr> gc_packet := gc_packet current @ subslice (cm_payloadOffset meta) (cm_totalLen meta) packet,
          gc_meta := cm \<lparr> cm_payloadLen := cm_payloadLen cm + cm_payloadLen meta,
                          cm_totalLen := cm_totalLen cm + cm_payloadLen meta,
                          cm_flags := tcpGSOCoalescedFlags (cm_flags cm) (cm_flags meta) \<rparr>,
          gc_count := gc_count current + 1 \<rparr>)"

text \<open>The statements of both loops that emit a pending packet: what is appended, and the counters.\<close>

definition emitCoalescer ::
  "tcpGSOCoalesceOptions \<Rightarrow> tcpGSOCoalescer \<Rightarrow> bytes list \<times> dataSessionGSOCoalesceStats \<Rightarrow>
   bytes list \<times> dataSessionGSOCoalesceStats" where
  "emitCoalescer options current os =
    (let (out, stats) = os in
     if gc_count current \<le> 1 then (out @ [take (cm_totalLen (gc_meta current)) (gc_packet current)], stats)
     else
       let packet = finishTCPGSOCoalescedPacket (gc_packet current) (gc_meta current)
             (tcpGSOCoalesceSkipTCPChecksum (cm_totalLen (gc_meta current)) options)
       in (out @ [packet],
           stats \<lparr> gs_Batches := gs_Batches stats + 1,
                   gs_InputPackets := gs_InputPackets stats + word_of_nat (gc_count current),
                   gs_OutputPackets := gs_OutputPackets stats + 1,
                   gs_OutputBytes := gs_OutputBytes stats + word_of_nat (length packet) \<rparr>))"


section \<open>One pending packet\<close>

text \<open>The zero \<^verbatim>\<open>tcpGSOCoalescer\<close>, which is not active, is \<open>None\<close>.\<close>

definition flushCurrent ::
  "tcpGSOCoalesceOptions \<Rightarrow> tcpGSOCoalescer option \<Rightarrow> bytes list \<times> dataSessionGSOCoalesceStats \<Rightarrow>
   bytes list \<times> dataSessionGSOCoalesceStats" where
  "flushCurrent options current os = (case current of None \<Rightarrow> os | Some c \<Rightarrow> emitCoalescer options c os)"

fun coalesceLoop ::
  "int \<Rightarrow> int \<Rightarrow> tcpGSOCoalesceOptions \<Rightarrow> bytes list \<Rightarrow> tcpGSOCoalescer option \<Rightarrow>
   bytes list \<times> dataSessionGSOCoalesceStats \<Rightarrow> bytes list \<times> dataSessionGSOCoalesceStats" where
  "coalesceLoop maxBytes maxPackets options [] current os = flushCurrent options current os"
| "coalesceLoop maxBytes maxPackets options (packet # packets) current os =
    (case tcpGSOCoalescePacketMeta packet of
       None \<Rightarrow>
         (case flushCurrent options current os of
            (out, stats) \<Rightarrow> coalesceLoop maxBytes maxPackets options packets None (out @ [packet], stats))
     | Some meta \<Rightarrow>
         (case current of
            None \<Rightarrow> coalesceLoop maxBytes maxPackets options packets (Some (startCoalescer packet meta)) os
          | Some c \<Rightarrow>
              if \<not> tcpGSOCoalescerCanAppend c packet meta maxBytes maxPackets
              then coalesceLoop maxBytes maxPackets options packets (Some (startCoalescer packet meta))
                     (flushCurrent options current os)
              else coalesceLoop maxBytes maxPackets options packets (Some (extendCoalescer c packet meta)) os))"


section \<open>One pending packet per flow\<close>

definition dataSessionGSOCoalesceMaxActiveFlows :: nat where "dataSessionGSOCoalesceMaxActiveFlows = 64"

text \<open>
  \<open>mf_flows\<close> has the pending packets in the order they were started, \<open>None\<close> for one that was
  flushed, and \<open>mf_active\<close> the position of each flow's packet.
\<close>

record multi_flow =
  mf_os :: "bytes list \<times> dataSessionGSOCoalesceStats"
  mf_active :: "(tcpGSOCoalesceKey \<times> nat) list"
  mf_flows :: "tcpGSOCoalescer option list"

definition flushIndex :: "tcpGSOCoalesceOptions \<Rightarrow> nat \<Rightarrow> multi_flow \<Rightarrow> multi_flow" where
  "flushIndex options index s =
    (if length (mf_flows s) \<le> index then s
     else (case mf_flows s ! index of
         None \<Rightarrow> s
       | Some current \<Rightarrow>
           s \<lparr> mf_os := emitCoalescer options current (mf_os s),
               mf_active := AList.delete (cm_key (gc_meta current)) (mf_active s),
               mf_flows := (mf_flows s)[index := None] \<rparr>))"

definition flushAll :: "tcpGSOCoalesceOptions \<Rightarrow> multi_flow \<Rightarrow> multi_flow" where
  "flushAll options s =
    (fold (flushIndex options) [0..<length (mf_flows s)] s) \<lparr> mf_active := [], mf_flows := [] \<rparr>"

definition startFlow :: "tcpGSOCoalesceOptions \<Rightarrow> tcpGSOCoalesceMeta \<Rightarrow> bytes \<Rightarrow> multi_flow \<Rightarrow> multi_flow" where
  "startFlow options meta packet s =
    (let s = (if dataSessionGSOCoalesceMaxActiveFlows \<le> length (mf_active s) then flushAll options s else s) in
     s \<lparr> mf_active := AList.update (cm_key meta) (length (mf_flows s)) (mf_active s),
         mf_flows := mf_flows s @ [Some (startCoalescer packet meta)] \<rparr>)"

definition multiFlowStep ::
  "int \<Rightarrow> int \<Rightarrow> tcpGSOCoalesceOptions \<Rightarrow> bytes \<Rightarrow> multi_flow \<Rightarrow> multi_flow" where
  "multiFlowStep maxBytes maxPackets options packet s =
    (case tcpGSOCoalescePacketMeta packet of
       None \<Rightarrow>
         (let s = flushAll options s in s \<lparr> mf_os := (fst (mf_os s) @ [packet], snd (mf_os s)) \<rparr>)
     | Some meta \<Rightarrow>
         (case map_of (mf_active s) (cm_key meta) of
            None \<Rightarrow> startFlow options meta packet s
          | Some index \<Rightarrow>
              (case mf_flows s ! index of
                 None \<Rightarrow> startFlow options meta packet (flushIndex options index s)
               | Some current \<Rightarrow>
                   if \<not> tcpGSOCoalescerCanAppend current packet meta maxBytes maxPackets
                   then startFlow options meta packet (flushIndex options index s)
                   else s \<lparr> mf_flows := (mf_flows s)[index := Some (extendCoalescer current packet meta)] \<rparr>)))"

definition coalesceDataSessionTCPLocalPacketsMultiFlowScratchOptions ::
  "bytes list \<Rightarrow> int \<Rightarrow> int \<Rightarrow> tcpGSOCoalesceOptions \<Rightarrow> bytes list \<times> dataSessionGSOCoalesceStats" where
  "coalesceDataSessionTCPLocalPacketsMultiFlowScratchOptions packets maxBytes maxPackets options =
    (let s = flushAll options (fold (multiFlowStep maxBytes maxPackets options) packets
               \<lparr> mf_os = ([], noStats), mf_active = [], mf_flows = [] \<rparr>);
         (out, stats) = mf_os s
     in if gs_Batches stats = 0 then (packets, stats) else (out, stats))"

definition coalesceDataSessionTCPLocalPacketsConfiguredScratchOptions ::
  "bytes list \<Rightarrow> bool \<Rightarrow> int \<Rightarrow> int \<Rightarrow> tcpGSOCoalesceOptions \<Rightarrow> bytes list \<times> dataSessionGSOCoalesceStats" where
  "coalesceDataSessionTCPLocalPacketsConfiguredScratchOptions packets enabled maxBytes maxPackets options =
    (if length packets < 2 \<or> \<not> enabled then (packets, noStats)
     else if maxBytes \<le> 0 \<or> maxPackets \<le> 1 then (packets, noStats)
     else if go_multiFlow options
     then coalesceDataSessionTCPLocalPacketsMultiFlowScratchOptions packets maxBytes maxPackets options
     else
       let (out, stats) = coalesceLoop maxBytes maxPackets options packets None ([], noStats) in
       if gs_Batches stats = 0 then (packets, stats) else (out, stats))"

definition coalesceDataSessionTCPLocalPacketsConfigured ::
  "bytes list \<Rightarrow> bool \<Rightarrow> int \<Rightarrow> int \<Rightarrow> bytes list \<times> dataSessionGSOCoalesceStats" where
  "coalesceDataSessionTCPLocalPacketsConfigured packets enabled maxBytes maxPackets =
    coalesceDataSessionTCPLocalPacketsConfiguredScratchOptions packets enabled maxBytes maxPackets
      \<lparr> go_skipTCPChecksumAbove = 0, go_multiFlow = False \<rparr>"

section \<open>Configuration\<close>

text \<open>
  The switches and limits are environment variables: \<open>env\<close> is \<^verbatim>\<open>os.Getenv\<close>.  The recurring
  case distinction on a value that switches something on or off is \<open>envSwitch\<close>, with the
  default as its first argument.
\<close>

definition envOn :: "string \<Rightarrow> bool" where
  "envOn value \<longleftrightarrow> ToLower (TrimSpace value) \<in> set [''1'', ''true'', ''yes'', ''on'', ''enabled'']"

definition envOff :: "string \<Rightarrow> bool" where
  "envOff value \<longleftrightarrow> ToLower (TrimSpace value) \<in> set [''0'', ''false'', ''no'', ''off'', ''disabled'']"

definition envSwitch :: "bool \<times> bool \<Rightarrow> string \<Rightarrow> bool \<times> bool" where
  "envSwitch otherwise value = (if envOn value then (True, True) else if envOff value then (False, True) else otherwise)"

definition dataSessionRXGSOCoalesceEnabled :: "environment \<Rightarrow> bool" where
  "dataSessionRXGSOCoalesceEnabled env = fst (envSwitch (True, False) (env ''TRUSTIX_DATA_SESSION_RX_GSO_COALESCE''))"

definition envMaxBytes :: "string \<Rightarrow> int \<Rightarrow> int" where
  "envMaxBytes raw otherwise =
    (let value = TrimSpace raw in
     if value = '''' then otherwise
     else (case Atoi value of None \<Rightarrow> otherwise
       | Some parsed \<Rightarrow> if parsed < 1500 then otherwise else if parsed > 0xffff then 0xffff else parsed))"

definition envMaxPackets :: "string \<Rightarrow> int \<Rightarrow> int" where
  "envMaxPackets raw otherwise =
    (let value = TrimSpace raw in
     if value = '''' then otherwise
     else (case Atoi value of None \<Rightarrow> otherwise
       | Some parsed \<Rightarrow> if parsed \<le> 0 then otherwise else if parsed > 512 then 512 else parsed))"

definition dataSessionRXGSOCoalesceMaxBytes :: "environment \<Rightarrow> int" where
  "dataSessionRXGSOCoalesceMaxBytes env = envMaxBytes (env ''TRUSTIX_DATA_SESSION_RX_GSO_COALESCE_BYTES'') 65535"

definition dataSessionRXGSOCoalesceMaxPackets :: "environment \<Rightarrow> int" where
  "dataSessionRXGSOCoalesceMaxPackets env = envMaxPackets (env ''TRUSTIX_DATA_SESSION_RX_GSO_COALESCE_PACKETS'') 128"

definition dataSessionTXGSOCoalescePreference :: "environment \<Rightarrow> bool \<times> bool" where
  "dataSessionTXGSOCoalescePreference env = envSwitch (False, False) (env ''TRUSTIX_DATA_SESSION_TX_GSO_COALESCE'')"

definition dataSessionTXGSOCoalesceEnabled :: "environment \<Rightarrow> bool" where
  "dataSessionTXGSOCoalesceEnabled env = fst (dataSessionTXGSOCoalescePreference env)"

definition dataSessionTXGSOCoalesceMultiFlowPreference :: "environment \<Rightarrow> bool \<times> bool" where
  "dataSessionTXGSOCoalesceMultiFlowPreference env =
    envSwitch (envSwitch (False, False) (env ''TRUSTIX_DATA_SESSION_TX_GSO_MULTI_FLOW''))
      (env ''TRUSTIX_DATA_SESSION_TX_GSO_COALESCE_MULTI_FLOW'')"

definition dataSessionTXGSOCoalesceMaxBytes :: "environment \<Rightarrow> int" where
  "dataSessionTXGSOCoalesceMaxBytes env = envMaxBytes (env ''TRUSTIX_DATA_SESSION_TX_GSO_COALESCE_BYTES'') 65535"

definition dataSessionTXGSOCoalesceMaxPackets :: "environment \<Rightarrow> int" where
  "dataSessionTXGSOCoalesceMaxPackets env = envMaxPackets (env ''TRUSTIX_DATA_SESSION_TX_GSO_COALESCE_PACKETS'') 128"

text \<open>The fields of a session's statistics that decide whether it coalesces by default.\<close>

record TransportStats =
  ts_Encrypted :: bool
  ts_ReceiveEncrypted :: bool
  ts_CryptoPlacement :: string
  ts_NativeBatching :: bool
  ts_Datagram :: bool
  ts_FragmentingDatagram :: bool
  ts_MaxPacketSize :: u64

definition dataSessionTXGSOCoalesceDefaultForStats :: "TransportStats \<Rightarrow> bool" where
  "dataSessionTXGSOCoalesceDefaultForStats stats =
    (if ts_Encrypted stats \<and> ts_CryptoPlacement stats = ''kernel'' then True
     else ts_Datagram stats \<and> ts_NativeBatching stats \<and> \<not> ts_FragmentingDatagram stats \<and> 8192 \<le> ts_MaxPacketSize stats)"

definition dataSessionTXGSOCoalesceMultiFlowDefaultForRuntime :: "string \<Rightarrow> TransportStats \<Rightarrow> bool" where
  "dataSessionTXGSOCoalesceMultiFlowDefaultForRuntime transport stats \<longleftrightarrow>
     ts_Encrypted stats \<and> ts_CryptoPlacement stats = ''userspace'' \<and> ts_Datagram stats \<and> ts_NativeBatching stats \<and>
     8192 \<le> ts_MaxPacketSize stats \<and> transport = ''tix_tcp''"

definition dataSessionTXGSOCoalesceDefaultForRuntime :: "string \<Rightarrow> TransportStats \<Rightarrow> bool" where
  "dataSessionTXGSOCoalesceDefaultForRuntime transport stats =
    (if ts_Encrypted stats \<and> ts_CryptoPlacement stats = ''userspace'' \<and> ts_Datagram stats \<and> ts_NativeBatching stats \<and>
        8192 \<le> ts_MaxPacketSize stats \<and> transport = ''tix_tcp'' then True
     else dataSessionTXGSOCoalesceDefaultForStats stats)"

definition dataSessionRXGSOCoalesceUserspaceEncryptedPreference :: "environment \<Rightarrow> bool \<times> bool" where
  "dataSessionRXGSOCoalesceUserspaceEncryptedPreference env =
    envSwitch (False, False) (env ''TRUSTIX_DATA_SESSION_RX_GSO_COALESCE_USERSPACE_ENCRYPTED'')"

definition dataSessionRXGSOCoalesceUserspaceEncryptedEnabled :: "environment \<Rightarrow> bool" where
  "dataSessionRXGSOCoalesceUserspaceEncryptedEnabled env = fst (dataSessionRXGSOCoalesceUserspaceEncryptedPreference env)"

definition dataSessionRXGSOCoalesceUserspaceEncryptedEnabledForRuntime :: "environment \<Rightarrow> string \<Rightarrow> bool" where
  "dataSessionRXGSOCoalesceUserspaceEncryptedEnabledForRuntime env transport =
    (case dataSessionRXGSOCoalesceUserspaceEncryptedPreference env of (enabled, explicit) \<Rightarrow>
       if explicit then enabled
       else transport \<in> set [''tcp'', ''tix_tcp'', ''gre'', ''ipip'', ''vxlan''])"

definition dataSessionRXGSOCoalescePlaintextPreference :: "environment \<Rightarrow> bool \<times> bool" where
  "dataSessionRXGSOCoalescePlaintextPreference env =
    envSwitch (True, False) (env ''TRUSTIX_DATA_SESSION_RX_GSO_COALESCE_PLAINTEXT'')"

definition dataSessionRXGSOCoalescePlaintextEnabled :: "environment \<Rightarrow> bool" where
  "dataSessionRXGSOCoalescePlaintextEnabled env = fst (dataSessionRXGSOCoalescePlaintextPreference env)"

definition dataSessionRXGSOCoalesceDisabledForSession :: "environment \<Rightarrow> string \<Rightarrow> TransportStats \<Rightarrow> bool" where
  "dataSessionRXGSOCoalesceDisabledForSession env transport stats =
    (if ts_Encrypted stats \<and> ts_CryptoPlacement stats = ''userspace'' \<and> ts_ReceiveEncrypted stats
     then \<not> dataSessionRXGSOCoalesceUserspaceEncryptedEnabledForRuntime env transport
     else if \<not> ts_Encrypted stats then
       (if transport = ''udp'' then
          (case dataSessionRXGSOCoalescePlaintextPreference env of (enabled, explicit) \<Rightarrow>
             if explicit then \<not> enabled else True)
        else \<not> dataSessionRXGSOCoalescePlaintextEnabled env)
     else False)"

definition dataSessionRXGSOScatterEnabled :: "environment \<Rightarrow> bool" where
  "dataSessionRXGSOScatterEnabled env = envOn (env ''TRUSTIX_DATA_SESSION_RX_GSO_SCATTER'')"

definition envTruthyAny :: "environment \<Rightarrow> string list \<Rightarrow> bool" where
  "envTruthyAny env names = list_ex (\<lambda>name. envOn (env name)) names"

definition dataSessionRXGSOCoalesceMultiFlowEnabled :: "environment \<Rightarrow> bool" where
  "dataSessionRXGSOCoalesceMultiFlowEnabled env =
    envTruthyAny env [''TRUSTIX_DATA_SESSION_RX_GSO_COALESCE_MULTI_FLOW'', ''TRUSTIX_DATA_SESSION_RX_GSO_MULTI_FLOW'']"

definition coalesceDataSessionRXTCPLocalPackets ::
  "environment \<Rightarrow> bytes list \<Rightarrow> bool list \<Rightarrow> bytes list \<times> dataSessionGSOCoalesceStats" where
  "coalesceDataSessionRXTCPLocalPackets env packets allowed =
    (if length allowed > 0 \<and> \<not> allowed ! 0 then (packets, noStats)
     else coalesceDataSessionTCPLocalPacketsConfigured packets (dataSessionRXGSOCoalesceEnabled env)
            (dataSessionRXGSOCoalesceMaxBytes env) (dataSessionRXGSOCoalesceMaxPackets env))"

lemma envMaxBytes_range: "1500 \<le> otherwise \<Longrightarrow> otherwise \<le> 0xffff \<Longrightarrow> 1500 \<le> envMaxBytes raw otherwise \<and> envMaxBytes raw otherwise \<le> 0xffff"
  by (simp add: envMaxBytes_def Let_def split: option.splits)

lemma envMaxPackets_range: "0 < otherwise \<Longrightarrow> otherwise \<le> 512 \<Longrightarrow> 0 < envMaxPackets raw otherwise \<and> envMaxPackets raw otherwise \<le> 512"
  by (simp add: envMaxPackets_def Let_def split: option.splits)

end
