(* ===== verification/GSOStreams.thy ===== *)
theory GSOStreams
  imports GSOCoalesce
begin

unbundle bit_operations_syntax

text \<open>
  Correctness of the coalescing of TCP segments: the invariant of a pending packet, kept by
  starting, extending and emitting it; the streams of payload bytes that both loops preserve;
  and the shape of the packets handed on.
\<close>

section \<open>What a merge keeps\<close>

text \<open>
  A segment as the receiver sees it: each payload byte with its sequence number and the
  header fields that apply to it (flow, type of service, IP flags, TTL, acknowledgement,
  window, urgent pointer and TCP options).  A packet that cannot be merged is seen as it is.
\<close>

datatype item =
    Data (item_header: "tcpGSOCoalesceMeta \<times> bytes") u32 byte
  | Other bytes

definition hdrOf :: "tcpGSOCoalesceMeta \<Rightarrow> bytes \<Rightarrow> tcpGSOCoalesceMeta \<times> bytes" where
  "hdrOf m p =
    (m \<lparr> cm_payloadLen := 0, cm_totalLen := 0, cm_flags := 0, cm_seq := 0 \<rparr>,
     subslice (cm_ihl m + 20) (cm_headerLen m) p)"

definition segment_bytes :: "tcpGSOCoalesceMeta \<Rightarrow> bytes \<Rightarrow> item list" where
  "segment_bytes m p =
    map (\<lambda>i. Data (hdrOf m p) (cm_seq m + word_of_nat i) (p ! (cm_payloadOffset m + i))) [0..<cm_payloadLen m]"

definition stream_of :: "bytes \<Rightarrow> item list" where
  "stream_of p = (case tcpGSOCoalescePacketMeta p of None \<Rightarrow> [Other p] | Some m \<Rightarrow> segment_bytes m p)"

text \<open>
  The invariant of a pending packet: everything in its description but the flags is what
  the packet says; its total length field and checksums are not yet written.
\<close>

definition gso_header :: "nat \<Rightarrow> nat \<Rightarrow> bytes \<Rightarrow> bool" where
  "gso_header ihl hlen p \<longleftrightarrow>
     ethOffset p = 0 \<and> 20 \<le> ihl \<and> 20 \<le> hlen \<and> ihl + hlen < length p \<and> length p \<le> 0xffff \<and>
     drop_bit 4 (p ! 0) = 4 \<and> unat (p ! 0 AND 0x0f) * 4 = ihl \<and> p ! 9 = 6 \<and> \<not> fragmented p \<and>
     unat (drop_bit 4 (p ! (ihl + 12))) * 4 = hlen"

definition gso_wf :: "tcpGSOCoalesceMeta \<Rightarrow> bytes \<Rightarrow> bool" where
  "gso_wf m p \<longleftrightarrow>
     gso_header (cm_ihl m) (cm_tcpHeaderLen m) p \<and> tcpGSOCoalescibleFlags (cm_flags m) \<and>
     m = (readMeta p (cm_ihl m) (cm_tcpHeaderLen m) (length p)) \<lparr> cm_flags := cm_flags m \<rparr>"

lemma subslice_subslice: "b \<le> n - i \<Longrightarrow> subslice a b (subslice i n p) = subslice (i + a) (i + b) p"
  by (simp add: subslice_def drop_take add.commute min_def) 

lemma nth_subslice: "i + k < n \<Longrightarrow> n \<le> length p \<Longrightarrow> subslice i n p ! k = p ! (i + k)"
  by (simp add: subslice_def)

lemma readMeta_flat:
  assumes "ihl + 20 \<le> n" and "n \<le> length p"
  shows "readMeta p ihl hlen n =
     \<lparr> cm_key = \<lparr> ck_SourceIP = AddrFrom4 (subslice 12 16 p), ck_DestinationIP = AddrFrom4 (subslice 16 20 p),
                 ck_SourcePort = Uint16 (subslice ihl (ihl + 2) p), ck_DestinationPort = Uint16 (subslice (ihl + 2) (ihl + 4) p) \<rparr>,
       cm_ipTOS = p ! 1, cm_ipFlags = Uint16 (subslice 6 8 p), cm_ipTTL = p ! 8, cm_ihl = ihl,
       cm_tcpHeaderLen = hlen, cm_payloadOffset = ihl + hlen, cm_payloadLen = n - (ihl + hlen),
       cm_seq = Uint32 (subslice (ihl + 4) (ihl + 8) p), cm_ack = Uint32 (subslice (ihl + 8) (ihl + 12) p), cm_flags = p ! (ihl + 13),
       cm_window = Uint16 (subslice (ihl + 14) (ihl + 16) p), cm_urgent = Uint16 (subslice (ihl + 18) (ihl + 20) p),
       cm_totalLen = n, cm_headerLen = ihl + hlen \<rparr>"
  using assms by (simp add: readMeta_def Let_def subslice_subslice nth_subslice del: add_2_eq_Suc')

text \<open>The description is unchanged by whatever leaves the header alone but for lengths, flags and checksums.\<close>

lemma readMeta_cong:
  assumes same: "\<And>k. k < ihl + 20 \<Longrightarrow> k \<notin> {2, 3, 10, 11, ihl + 13, ihl + 16, ihl + 17} \<Longrightarrow> q ! k = p ! k"
    and "20 \<le> ihl" and "ihl + 20 \<le> length p" and "ihl + 20 \<le> length q"
  shows "readMeta q ihl hlen (length q) = (readMeta p ihl hlen (length p))
    \<lparr> cm_payloadLen := length q - (ihl + hlen), cm_totalLen := length q, cm_flags := q ! (ihl + 13) \<rparr>"
proof -
  have sub: "subslice i j q = subslice i j p" if "j \<le> ihl + 20" "\<And>k. i \<le> k \<Longrightarrow> k < j \<Longrightarrow> k \<notin> {2, 3, 10, 11, ihl + 13, ihl + 16, ihl + 17}" for i j
    using that assms by (intro subslice_nth_cong) auto
  have "subslice 12 16 q = subslice 12 16 p" "subslice 16 20 q = subslice 16 20 p" "subslice 6 8 q = subslice 6 8 p"
    "subslice ihl (ihl + 2) q = subslice ihl (ihl + 2) p" "subslice (ihl + 2) (ihl + 4) q = subslice (ihl + 2) (ihl + 4) p"
    "subslice (ihl + 4) (ihl + 8) q = subslice (ihl + 4) (ihl + 8) p" "subslice (ihl + 8) (ihl + 12) q = subslice (ihl + 8) (ihl + 12) p"
    "subslice (ihl + 14) (ihl + 16) q = subslice (ihl + 14) (ihl + 16) p" "subslice (ihl + 18) (ihl + 20) q = subslice (ihl + 18) (ihl + 20) p"
    using assms(2) by (intro sub; auto)+
  moreover have "q ! 1 = p ! 1" "q ! 8 = p ! 8" using assms(2) by (intro same; simp)+
  ultimately show ?thesis using assms(2-4) by (simp add: readMeta_flat)
qed

lemma gso_header_cong:
  assumes same: "\<And>k. k < ihl + 20 \<Longrightarrow> k \<notin> {2, 3, 10, 11, ihl + 13, ihl + 16, ihl + 17} \<Longrightarrow> q ! k = p ! k"
    and h: "gso_header ihl hlen p" and len: "length p \<le> length q" "length q \<le> 0xffff"
  shows "gso_header ihl hlen q"
proof -
  note h' = h [unfolded gso_header_def]
  have nth: "q ! 0 = p ! 0" "q ! 9 = p ! 9" "q ! (ihl + 12) = p ! (ihl + 12)" using h' by (intro same; simp)+
  have sub: "subslice 12 14 q = subslice 12 14 p" "subslice 6 8 q = subslice 6 8 p"
    using h' len by (intro subslice_nth_cong same; auto)+
  show ?thesis using h' len nth sub by (auto simp: gso_header_def fragmented_def ethOffset_def split: if_splits)
qed

lemma bounds_gso_header:
  assumes "gso_header ihl hlen p" and "unat (Uint16 (subslice 2 4 p)) = length p"
  shows "ipv4HeaderBounds p = Inr (0, ihl, length p)"
  using assms by (simp add: gso_header_def ipv4HeaderBounds_def Let_def)

lemma packetMeta_intro:
  assumes "gso_header ihl hlen p" and "unat (Uint16 (subslice 2 4 p)) = length p"
    and "tcpGSOCoalescibleFlags (p ! (ihl + 13))"
  shows "tcpGSOCoalescePacketMeta p = Some (readMeta p ihl hlen (length p))"
proof -
  from assms(1) have h: "20 \<le> ihl" "20 \<le> hlen" "ihl + hlen < length p" "length p \<le> 0xffff" "p ! 9 = 6"
    "Uint16 (subslice 6 8 p) AND fragmentMask = 0" and hlen: "unat (drop_bit 4 (p ! (ihl + 12))) * 4 = hlen"
    by (simp_all add: gso_header_def fragmented_def)
  have tcp: "subslice ihl (length p) p ! 12 = p ! (ihl + 12)" "subslice ihl (length p) p ! 13 = p ! (ihl + 13)"
    using h by (simp_all add: nth_subslice)
  show ?thesis
    using h assms(3) by (simp add: tcpGSOCoalescePacketMeta_def bounds_gso_header [OF assms(1,2)] tcp hlen Let_def)
qed

lemma packetMeta_iff:
  "tcpGSOCoalescePacketMeta p = Some m \<longleftrightarrow>
     gso_wf m p \<and> unat (Uint16 (subslice 2 4 p)) = length p \<and> cm_flags m = p ! (cm_ihl m + 13)"
  (is "?l \<longleftrightarrow> ?r")
proof
  assume l: ?l
  then obtain ihl where b: "ipv4HeaderBounds p = Inr (0, ihl, length p)"
    by (auto simp: tcpGSOCoalescePacketMeta_def Let_def split: sum.splits prod.splits if_splits)
  note f = ipv4HeaderBounds_facts [OF b]
  define hlen where "hlen = unat (drop_bit 4 (subslice ihl (length p) p ! 12)) * 4"
  from l b have g: "p ! 9 = 6" "\<not> fragmented p" "20 \<le> length p - ihl" "20 \<le> hlen" "ihl + hlen < length p"
    "tcpGSOCoalescibleFlags (subslice ihl (length p) p ! 13)" "m = readMeta p ihl hlen (length p)"
    by (auto simp: tcpGSOCoalescePacketMeta_def fragmented_def hlen_def Let_def split: if_splits)
  have h: "gso_header ihl hlen p" using f g by (auto simp: gso_header_def hlen_def nth_subslice)
  have "cm_flags m = p ! (ihl + 13)" "cm_ihl m = ihl" "cm_tcpHeaderLen m = hlen" using g by (simp_all add: readMeta_flat)
  moreover have "unat (Uint16 (subslice 2 4 p)) = length p" using f(8) by (simp only: add_0)
  moreover have "tcpGSOCoalescibleFlags (p ! (ihl + 13))" using g(3,6) by (simp add: nth_subslice)
  ultimately show ?r using h g(7) by (simp add: gso_wf_def)
next
  assume r: ?r
  let ?ihl = "cm_ihl m" and ?hlen = "cm_tcpHeaderLen m"
  from r have h: "gso_header ?ihl ?hlen p" and m: "m = readMeta p ?ihl ?hlen (length p)" and fl: "tcpGSOCoalescibleFlags (p ! (?ihl + 13))"
    unfolding gso_wf_def by (auto simp: gso_header_def readMeta_flat)
  from packetMeta_intro [OF h _ fl] r m show ?l by simp
qed

lemma gso_wf_header: "gso_wf m p \<Longrightarrow> gso_header (cm_ihl m) (cm_tcpHeaderLen m) p"
  by (simp add: gso_wf_def)

lemma gso_wf_bounds:
  assumes "gso_wf m p"
  shows "20 \<le> cm_ihl m" "20 \<le> cm_tcpHeaderLen m" "cm_ihl m + cm_tcpHeaderLen m < length p" "length p \<le> 0xffff"
  using gso_wf_header [OF assms] by (simp_all add: gso_header_def)

lemma gso_wf_lengths:
  assumes "gso_wf m p"
  shows "cm_totalLen m = length p" "cm_payloadOffset m = cm_ihl m + cm_tcpHeaderLen m"
    "cm_headerLen m = cm_ihl m + cm_tcpHeaderLen m" "cm_payloadLen m = length p - (cm_ihl m + cm_tcpHeaderLen m)"
proof -
  have "m = (readMeta p (cm_ihl m) (cm_tcpHeaderLen m) (length p)) \<lparr> cm_flags := cm_flags m \<rparr>"
    using assms by (simp add: gso_wf_def)
  note eq = arg_cong [OF this]
  show "cm_totalLen m = length p" "cm_payloadOffset m = cm_ihl m + cm_tcpHeaderLen m"
    "cm_headerLen m = cm_ihl m + cm_tcpHeaderLen m" "cm_payloadLen m = length p - (cm_ihl m + cm_tcpHeaderLen m)"
    using eq [of cm_totalLen] eq [of cm_payloadOffset] eq [of cm_headerLen] eq [of cm_payloadLen]
    by (simp_all add: readMeta_def Let_def)
qed

lemma coalescible_merge:
  "tcpGSOCoalescibleFlags f \<Longrightarrow> tcpGSOCoalescibleFlags g \<Longrightarrow> tcpGSOCoalescibleFlags (tcpGSOCoalescedFlags f g)"
  by (auto simp: tcpGSOCoalescibleFlags_def tcpGSOCoalescedFlags_def tcpFlagACK_def tcpFlagPSH_def)

text \<open>Extending a pending packet at its end.\<close>

definition grown :: "tcpGSOCoalesceMeta \<Rightarrow> nat \<Rightarrow> byte \<Rightarrow> tcpGSOCoalesceMeta" where
  "grown m k f = m \<lparr> cm_payloadLen := cm_payloadLen m + k, cm_totalLen := cm_totalLen m + k, cm_flags := f \<rparr>"

lemma gso_wf_append:
  assumes "gso_wf m p" and "length p + length d \<le> 0xffff" and "tcpGSOCoalescibleFlags f"
  shows "gso_wf (grown m (length d) f) (p @ d)"
proof -
  let ?ihl = "cm_ihl m" and ?hlen = "cm_tcpHeaderLen m"
  note b = gso_wf_bounds [OF assms(1)] and l = gso_wf_lengths [OF assms(1)]
  have same: "(p @ d) ! k = p ! k" if "k < ?ihl + 20" for k using that b by (simp add: nth_append)
  have h: "gso_header ?ihl ?hlen (p @ d)"
    by (rule gso_header_cong [OF same gso_wf_header [OF assms(1)]]) (use assms(2) in simp_all)
  have r: "readMeta (p @ d) ?ihl ?hlen (length (p @ d)) = (readMeta p ?ihl ?hlen (length p))
    \<lparr> cm_payloadLen := length (p @ d) - (?ihl + ?hlen), cm_totalLen := length (p @ d), cm_flags := (p @ d) ! (?ihl + 13) \<rparr>"
    by (rule readMeta_cong [OF same]) (use b in simp_all)
  have m: "m = (readMeta p ?ihl ?hlen (length p)) \<lparr> cm_flags := cm_flags m \<rparr>" using assms(1) by (simp add: gso_wf_def)
  have "grown m (length d) f = (readMeta (p @ d) ?ihl ?hlen (length (p @ d))) \<lparr> cm_flags := f \<rparr>"
    unfolding grown_def r by (subst m) (use l b in \<open>simp add: readMeta_def Let_def\<close>)
  moreover have "cm_ihl (grown m (length d) f) = ?ihl" "cm_tcpHeaderLen (grown m (length d) f) = ?hlen"
    "cm_flags (grown m (length d) f) = f" by (simp_all add: grown_def)
  ultimately show ?thesis unfolding gso_wf_def using h assms(3) by presburger
qed

lemma hdrOf_append: "gso_wf m p \<Longrightarrow> hdrOf (grown m k f) (p @ d) = hdrOf m p"
  using gso_wf_bounds [of m p] gso_wf_lengths [of m p] by (simp add: hdrOf_def grown_def subslice_def)

lemma segment_append:
  assumes "gso_wf m p"
  shows "segment_bytes (grown m (length d) f) (p @ d) =
    segment_bytes m p @ map (\<lambda>i. Data (hdrOf m p) (cm_seq m + word_of_nat (cm_payloadLen m) + word_of_nat i) (d ! i)) [0..<length d]"
proof -
  note b = gso_wf_bounds [OF assms] and l = gso_wf_lengths [OF assms]
  have "map (\<lambda>i. Data (hdrOf m p) (cm_seq m + word_of_nat i) ((p @ d) ! (cm_payloadOffset m + i))) [0..<cm_payloadLen m] = segment_bytes m p"
    using b l by (auto simp: segment_bytes_def nth_append)
  moreover have "map (\<lambda>i. Data (hdrOf m p) (cm_seq m + word_of_nat i) ((p @ d) ! (cm_payloadOffset m + i))) [cm_payloadLen m..<cm_payloadLen m + length d]
     = map (\<lambda>i. Data (hdrOf m p) (cm_seq m + word_of_nat (cm_payloadLen m) + word_of_nat i) (d ! i)) [0..<length d]"
    using b l by (intro nth_equalityI) (simp_all add: nth_append add.assoc)
  ultimately show ?thesis
    by (simp add: segment_bytes_def hdrOf_append [OF assms]) (simp add: grown_def upt_add_eq_append [of 0, simplified])
qed

lemma canAppend_facts:
  assumes "tcpGSOCoalescerCanAppend c p m maxBytes maxPackets"
  shows "int (gc_count c) < maxPackets" "cm_key (gc_meta c) = cm_key m" "cm_ipTOS (gc_meta c) = cm_ipTOS m"
    "cm_ipFlags (gc_meta c) = cm_ipFlags m" "cm_ipTTL (gc_meta c) = cm_ipTTL m" "cm_ihl (gc_meta c) = cm_ihl m"
    "cm_tcpHeaderLen (gc_meta c) = cm_tcpHeaderLen m" "cm_headerLen (gc_meta c) = cm_headerLen m"
    "cm_ack (gc_meta c) = cm_ack m" "cm_window (gc_meta c) = cm_window m" "cm_urgent (gc_meta c) = cm_urgent m"
    "cm_seq (gc_meta c) + word_of_nat (cm_payloadLen (gc_meta c)) = cm_seq m"
    "int (length (gc_packet c) + cm_payloadLen m) \<le> maxBytes" "length (gc_packet c) + cm_payloadLen m \<le> 0xffff"
    "subslice (cm_ihl m + 20) (cm_ihl m + cm_tcpHeaderLen m) (gc_packet c) = subslice (cm_ihl m + 20) (cm_ihl m + cm_tcpHeaderLen m) p"
    "tcpGSOCoalescibleFlags (cm_flags (gc_meta c))" "tcpGSOCoalescibleFlags (cm_flags m)"
  using assms by (simp_all add: tcpGSOCoalescerCanAppend_def Let_def split: if_splits)

definition pending_bytes :: "tcpGSOCoalescer \<Rightarrow> item list" where
  "pending_bytes c = segment_bytes (gc_meta c) (gc_packet c)"

definition pending_wf :: "tcpGSOCoalescer \<Rightarrow> bool" where
  "pending_wf c \<longleftrightarrow>
     gc_active c \<and> gso_wf (gc_meta c) (gc_packet c) \<and> 1 \<le> gc_count c \<and>
     (gc_count c = 1 \<longrightarrow> tcpGSOCoalescePacketMeta (gc_packet c) = Some (gc_meta c)) \<and>
     (gc_count c \<noteq> 1 \<longrightarrow> gc_cloned c)"

lemma start_pending:
  assumes "tcpGSOCoalescePacketMeta p = Some m"
  shows "pending_wf (startCoalescer p m)" "pending_bytes (startCoalescer p m) = stream_of p"
    "gc_meta (startCoalescer p m) = m"
proof -
  have wf: "gso_wf m p" using assms by (simp add: packetMeta_iff)
  have "take (cm_totalLen m) p = p" using gso_wf_lengths [OF wf] by simp
  with wf assms show "pending_wf (startCoalescer p m)" "pending_bytes (startCoalescer p m) = stream_of p"
    "gc_meta (startCoalescer p m) = m"
    by (simp_all add: pending_wf_def pending_bytes_def startCoalescer_def stream_of_def)
qed

lemma extend_pending:
  assumes c: "pending_wf c" and m: "tcpGSOCoalescePacketMeta p = Some m"
    and can: "tcpGSOCoalescerCanAppend c p m maxBytes maxPackets"
  shows "pending_wf (extendCoalescer c p m)" "pending_bytes (extendCoalescer c p m) = pending_bytes c @ stream_of p"
    "cm_key (gc_meta (extendCoalescer c p m)) = cm_key m"
proof -
  let ?cm = "gc_meta c" and ?d = "subslice (cm_payloadOffset m) (cm_totalLen m) p"
  let ?g = "grown ?cm (length ?d) (tcpGSOCoalescedFlags (cm_flags ?cm) (cm_flags m))"
  note can = canAppend_facts [OF can]
  have wf: "gso_wf m p" using m by (simp add: packetMeta_iff)
  have cwf: "gso_wf ?cm (gc_packet c)" using c by (simp add: pending_wf_def)
  note b = gso_wf_bounds [OF wf] and l = gso_wf_lengths [OF wf] and cl = gso_wf_lengths [OF cwf]
  have d: "length ?d = cm_payloadLen m" "\<And>i. i < cm_payloadLen m \<Longrightarrow> ?d ! i = p ! (cm_payloadOffset m + i)"
    using b l by (simp_all add: nth_subslice)
  have ext: "gc_meta (extendCoalescer c p m) = ?g" "gc_packet (extendCoalescer c p m) = gc_packet c @ ?d"
    "gc_active (extendCoalescer c p m) = gc_active c" "gc_count (extendCoalescer c p m) = gc_count c + 1"
    "gc_cloned (extendCoalescer c p m)"
    using d(1) cl(1) by (simp_all add: extendCoalescer_def Let_def grown_def cloneTCPGSOCoalescePacket_def)
  have "gso_wf ?g (gc_packet c @ ?d)"
    using d(1) can(14,16,17) by (intro gso_wf_append [OF cwf]) (simp_all add: coalescible_merge)
  then show "pending_wf (extendCoalescer c p m)" using c ext by (simp add: pending_wf_def)
  show "cm_key (gc_meta (extendCoalescer c p m)) = cm_key m" using can(2) by (simp add: ext grown_def)
  have hdr: "hdrOf ?cm (gc_packet c) = hdrOf m p"
    using can(2-11,15) l cl by (simp add: hdrOf_def)
  show "pending_bytes (extendCoalescer c p m) = pending_bytes c @ stream_of p"
  proof -
    have "map (\<lambda>i. Data (hdrOf ?cm (gc_packet c)) (cm_seq ?cm + word_of_nat (cm_payloadLen ?cm) + word_of_nat i) (?d ! i)) [0..<length ?d]
        = segment_bytes m p"
      unfolding d(1) hdr can(12) segment_bytes_def using d(2) by simp
    then show ?thesis by (simp only: pending_bytes_def ext segment_append [OF cwf] stream_of_def m option.case)
  qed
qed

text \<open>Emitting a pending packet: the header is completed, nothing a receiver relies on is lost.\<close>

lemma no_more_fragments:
  assumes "\<not> fragmented p" and "8 \<le> length p"
  shows "p ! 6 AND NOT 0x20 = p ! 6"
proof -
  have "\<not> bit (Uint16 (subslice 6 8 p)) 13"
  proof
    assume "bit (Uint16 (subslice 6 8 p)) 13"
    then have "bit (Uint16 (subslice 6 8 p) AND fragmentMask) 13" by (simp add: bit_simps fragmentMask_def)
    with assms(1) show False by (simp add: fragmented_def)
  qed
  moreover have "unat (Uint16 (subslice 6 (6 + 2) p)) = 256 * unat (p ! 6) + unat (p ! (6 + 1))"
    using assms(2) by (intro unat_list_head16) simp
  then have u: "unat (Uint16 (subslice 6 8 p)) = 256 * unat (p ! 6) + unat (p ! 7)" by simp
  have n13: "(8192 :: nat) = 2 ^ 13" and n5: "(32 :: nat) = 2 ^ 5" by simp_all
  have "bit (Uint16 (subslice 6 8 p)) 13 \<longleftrightarrow> odd (unat (Uint16 (subslice 6 8 p)) div 8192)"
    by (simp only: bit_iff_odd [of "unat w" for w, symmetric] n13 bit_unsigned_iff) simp
  also have "unat (Uint16 (subslice 6 8 p)) div 8192 = unat (p ! 6) div 32"
    unfolding u using unat_byte_less [of "p ! 7"] by linarith
  also have "odd (unat (p ! 6) div 32) \<longleftrightarrow> bit (p ! 6) 5"
    by (simp only: bit_iff_odd [of "unat w" for w, symmetric] n5 bit_unsigned_iff) simp
  ultimately have b: "\<not> bit (p ! 6) 5" by simp
  have e: "(0x20 :: byte) = 2 ^ 5" by simp
  show ?thesis
    by (rule bit_word_eqI) (use b in \<open>auto simp: bit_simps e simp del: power_numeral\<close>)
qed

text \<open>The packet with its length, header checksum and flags written, before the TCP checksum.\<close>

definition headed :: "bytes \<Rightarrow> tcpGSOCoalesceMeta \<Rightarrow> bytes" where
  "headed p m = (fixHeader (PutUint16 2 (word_of_nat (length p)) p) (cm_ihl m))[cm_ihl m + 13 := cm_flags m]"

lemma finish_headed:
  assumes "gso_wf m p"
  shows "finishTCPGSOCoalescedPacket p m skip =
    PutUint16 (cm_ihl m + 16)
      (if skip then 0 else transportChecksum (subslice 12 16 p) (subslice 16 20 p) 6 (drop (cm_ihl m) (PutUint16 (cm_ihl m + 16) 0 (headed p m))))
      (headed p m)"
proof -
  note b = gso_wf_bounds [OF assms] and l = gso_wf_lengths [OF assms]
  let ?p = "PutUint16 2 (word_of_nat (length p)) p" and ?z = "PutUint16 (cm_ihl m + 16) 0 (headed p m)"
  have "?p ! 6 AND NOT 0x20 = ?p ! 6"
    using no_more_fragments [of p] gso_wf_header [OF assms] b by (simp add: gso_header_def nth_overwrite)
  then have six: "?p[6 := ?p ! 6 AND NOT 0x20] = ?p" using list_update_id [of ?p 6] by simp
  have len: "length (headed p m) = length p" using b by (simp add: headed_def)
  have "subslice i j ?z = subslice i j p" if "12 \<le> i" "j \<le> 20" for i j
    using that b by (intro subslice_nth_cong) (auto simp: len nth_overwrite headed_def fixHeader_def Let_def)
  then have "subslice 12 16 ?z = subslice 12 16 p" "subslice 16 20 ?z = subslice 16 20 p" by simp_all
  then show ?thesis
    using b l(1) six len
    by (auto simp: finishTCPGSOCoalescedPacket_def Let_def PutUint16_twice headed_def fixHeader_def)
qed

lemma headed_nth:
  assumes "gso_wf m p"
  shows "length (headed p m) = length p" "headed p m ! (cm_ihl m + 13) = cm_flags m"
    "\<And>k. k < length p \<Longrightarrow> k \<notin> {2, 3, 10, 11, cm_ihl m + 13} \<Longrightarrow> headed p m ! k = p ! k"
    "subslice 2 4 (headed p m) = be16 (word_of_nat (length p))"
proof -
  note b = gso_wf_bounds [OF assms]
  let ?n = "be16 (word_of_nat (length p))"
  show len: "length (headed p m) = length p" and "headed p m ! (cm_ihl m + 13) = cm_flags m" using b by (simp_all add: headed_def)
  show "headed p m ! k = p ! k" if "k < length p" "k \<notin> {2, 3, 10, 11, cm_ihl m + 13}" for k
    using b that by (auto simp: headed_def fixHeader_def Let_def nth_overwrite)
  have "subslice 2 4 (headed p m) = subslice 2 4 (overwrite 2 ?n p)"
    using b by (intro subslice_nth_cong) (auto simp: headed_def fixHeader_def Let_def nth_overwrite)
  also have "\<dots> = ?n" using subslice_overwrite_same [of 2 ?n p] b by simp
  finally show "subslice 2 4 (headed p m) = ?n" .
qed

lemma finish_nth:
  assumes "gso_wf m p" and q: "q = finishTCPGSOCoalescedPacket p m skip"
  shows "length q = length p" "q ! (cm_ihl m + 13) = cm_flags m"
    "\<And>k. k < length p \<Longrightarrow> k \<notin> {2, 3, 10, 11, cm_ihl m + 13, cm_ihl m + 16, cm_ihl m + 17} \<Longrightarrow> q ! k = p ! k"
    "unat (Uint16 (subslice 2 4 q)) = length p"
proof -
  note b = gso_wf_bounds [OF assms(1)] and h = headed_nth [OF assms(1)]
  obtain c where c: "q = PutUint16 (cm_ihl m + 16) c (headed p m)" using finish_headed [OF assms(1)] q by blast
  show len: "length q = length p" and "q ! (cm_ihl m + 13) = cm_flags m"
    using b h(1,2) by (simp_all add: c nth_overwrite)
  show "q ! k = p ! k" if "k < length p" "k \<notin> {2, 3, 10, 11, cm_ihl m + 13, cm_ihl m + 16, cm_ihl m + 17}" for k
    using b h(1) h(3) [OF that(1)] that by (auto simp: c nth_overwrite)
  have "subslice 2 4 q = subslice 2 4 (headed p m)"
    using b h(1) by (simp add: c subslice_overwrite_disjoint)
  then have "Uint16 (subslice 2 4 q) = word_of_nat (length p)" by (simp add: h(4) be16.dec_enc_exact)
  then show "unat (Uint16 (subslice 2 4 q)) = length p"
    using b(4) by (simp add: unat_of_nat take_bit_nat_eq_self)
qed

lemma finish_meta:
  assumes "gso_wf m p" and q: "q = finishTCPGSOCoalescedPacket p m skip"
  shows "tcpGSOCoalescePacketMeta q = Some m" "stream_of q = segment_bytes m p"
proof -
  let ?ihl = "cm_ihl m" and ?hlen = "cm_tcpHeaderLen m"
  note b = gso_wf_bounds [OF assms(1)] and l = gso_wf_lengths [OF assms(1)] and f = finish_nth [OF assms]
  have same: "q ! k = p ! k" if "k < ?ihl + 20" "k \<notin> {2, 3, 10, 11, ?ihl + 13, ?ihl + 16, ?ihl + 17}" for k
    using that b by (intro f(3)) simp_all
  have hq: "gso_header ?ihl ?hlen q"
    by (rule gso_header_cong [OF same gso_wf_header [OF assms(1)]]) (use b f(1) in simp_all)
  have fl: "tcpGSOCoalescibleFlags (q ! (?ihl + 13))" using assms(1) f(2) by (simp add: gso_wf_def)
  have "readMeta q ?ihl ?hlen (length q) = (readMeta p ?ihl ?hlen (length p))
      \<lparr> cm_payloadLen := length q - (?ihl + ?hlen), cm_totalLen := length q, cm_flags := q ! (?ihl + 13) \<rparr>"
    by (rule readMeta_cong [OF same]) (use b f(1) in simp_all)
  also have "\<dots> = (readMeta p ?ihl ?hlen (length p)) \<lparr> cm_flags := cm_flags m \<rparr>"
    using f(1,2) by (simp add: readMeta_def Let_def)
  also have "\<dots> = m" using assms(1) by (simp add: gso_wf_def)
  finally show meta: "tcpGSOCoalescePacketMeta q = Some m"
    using packetMeta_intro [OF hq _ fl] f(1,4) by simp
  have "subslice (?ihl + 20) (cm_headerLen m) q = subslice (?ihl + 20) (cm_headerLen m) p"
    using b l f(1) by (intro subslice_nth_cong f(3)) auto
  moreover have "q ! (cm_payloadOffset m + i) = p ! (cm_payloadOffset m + i)" if "i < cm_payloadLen m" for i
    using that b l by (intro f(3)) auto
  ultimately show "stream_of q = segment_bytes m p" by (simp add: stream_of_def meta segment_bytes_def hdrOf_def)
qed

lemma finish_checksums:
  assumes "gso_wf m p" and q: "q = finishTCPGSOCoalescedPacket p m skip"
  shows "headerVerifies q (cm_ihl m)" "\<not> skip \<Longrightarrow> transportVerifies q (cm_ihl m)"
proof -
  let ?ihl = "cm_ihl m" and ?p = "PutUint16 2 (word_of_nat (length p)) p" and ?h = "headed p m"
  note b = gso_wf_bounds [OF assms(1)] and f = finish_nth [OF assms] and h = headed_nth [OF assms(1)]
  obtain c where c: "q = PutUint16 (?ihl + 16) c ?h" using finish_headed [OF assms(1)] q by blast
  have "take ?ihl q = take ?ihl ?h" using b h(1) by (simp add: c take_overwrite_before)
  also have "\<dots> = take ?ihl (fixHeader ?p ?ihl)" by (simp add: headed_def)
  finally have "ipv4Checksum (take ?ihl q) = 0" using fixHeader_verifies [of ?ihl ?p] b by simp
  then show "headerVerifies q ?ihl" using b f(1) by (subst headerVerifies_iff) simp_all
  show "transportVerifies q ?ihl" if "\<not> skip"
  proof -
    let ?seg = "drop ?ihl ?h" and ?src = "subslice 12 16 p" and ?dst = "subslice 16 20 p"
    have dr: "drop ?ihl (PutUint16 (?ihl + 16) v ?h) = PutUint16 16 v ?seg" for v
      using PutUint16_suffix [of ?ihl ?h 16 v, symmetric] b h(1) by simp
    have seg: "drop ?ihl q = PutUint16 16 (transportChecksum ?src ?dst 6 (PutUint16 16 0 ?seg)) ?seg"
      using that by (simp add: q finish_headed [OF assms(1)] dr)
    have "q ! 9 = 6" using f(3) [of 9] b gso_wf_header [OF assms(1)] by (simp add: gso_header_def)
    moreover have "subslice 12 16 q = ?src" "subslice 16 20 q = ?dst"
      using b f(1) by (intro subslice_nth_cong f(3); auto)+
    moreover have "oc (bsum ?src + bsum ?dst + unat (6 :: byte) + length ?seg + bsum (drop ?ihl q)) = 65535"
      unfolding seg by (rule transportChecksum_verifies) (use b h(1) in simp_all)
    ultimately show ?thesis using f(1) h(1) by (simp add: transportVerifies_def Let_def)
  qed
qed

definition streams :: "bytes list \<Rightarrow> item list" where
  "streams ps = concat (map stream_of ps)"

lemma streams_simps [simp]: "streams [] = []" "streams (p # ps) = stream_of p @ streams ps" "streams (ps @ qs) = streams ps @ streams qs"
  by (simp_all add: streams_def)

definition emitted :: "tcpGSOCoalesceOptions \<Rightarrow> tcpGSOCoalescer \<Rightarrow> bytes" where
  "emitted options c =
    (if gc_count c \<le> 1 then take (cm_totalLen (gc_meta c)) (gc_packet c)
     else finishTCPGSOCoalescedPacket (gc_packet c) (gc_meta c) (tcpGSOCoalesceSkipTCPChecksum (cm_totalLen (gc_meta c)) options))"

lemma emit_out: "fst (emitCoalescer options c os) = fst os @ [emitted options c]"
  by (simp add: emitCoalescer_def emitted_def Let_def split: prod.splits)

lemma emitted_single:
  assumes "pending_wf c" and "gc_count c = 1"
  shows "emitted options c = gc_packet c"
proof -
  have "gso_wf (gc_meta c) (gc_packet c)" using assms(1) by (simp add: pending_wf_def)
  from gso_wf_lengths(1) [OF this] assms(2) show ?thesis by (simp add: emitted_def)
qed

lemma stream_emitted: "pending_wf c \<Longrightarrow> stream_of (emitted options c) = pending_bytes c"
proof -
  assume c: "pending_wf c"
  then have wf: "gso_wf (gc_meta c) (gc_packet c)" "1 \<le> gc_count c" by (simp_all add: pending_wf_def)
  show ?thesis
  proof (cases "gc_count c = 1")
    case True
    with c show ?thesis by (simp add: emitted_single) (simp add: stream_of_def pending_bytes_def pending_wf_def)
  next
    case False
    then show ?thesis using finish_meta(2) [OF wf(1) refl] wf(2) by (simp add: emitted_def pending_bytes_def)
  qed
qed

text \<open>Only private copies are ever overwritten.\<close>

lemma finish_private: "pending_wf c \<Longrightarrow> \<not> gc_count c \<le> 1 \<Longrightarrow> gc_cloned c"
  by (simp add: pending_wf_def)


subsection \<open>One pending packet\<close>

definition option_bytes :: "tcpGSOCoalescer option \<Rightarrow> item list" where
  "option_bytes current = (case current of None \<Rightarrow> [] | Some c \<Rightarrow> pending_bytes c)"

lemma option_bytes_simps [simp]: "option_bytes None = []" "option_bytes (Some c) = pending_bytes c"
  by (simp_all add: option_bytes_def)



subsection \<open>One pending packet per flow\<close>

text \<open>What concerns one flow: its bytes, and the packets that belong to no flow.\<close>

definition concerns :: "tcpGSOCoalesceKey \<Rightarrow> item \<Rightarrow> bool" where
  "concerns k x = (case x of Data h _ _ \<Rightarrow> cm_key (fst h) = k | Other _ \<Rightarrow> True)"

definition flow_view :: "tcpGSOCoalesceKey \<Rightarrow> item list \<Rightarrow> item list" where
  "flow_view k xs = filter (concerns k) xs"

lemma flow_view_append [simp]: "flow_view k (xs @ ys) = flow_view k xs @ flow_view k ys" "flow_view k [] = []"
  by (simp_all add: flow_view_def)

lemma flow_view_segment: "flow_view k (segment_bytes m p) = (if cm_key m = k then segment_bytes m p else [])"
  by (auto simp: flow_view_def segment_bytes_def concerns_def hdrOf_def filter_empty_conv filter_id_conv)

lemma flow_view_pending: "flow_view k (pending_bytes c) = (if cm_key (gc_meta c) = k then pending_bytes c else [])"
  by (simp add: pending_bytes_def flow_view_segment)

definition mf_wf :: "multi_flow \<Rightarrow> bool" where
  "mf_wf s \<longleftrightarrow>
     (\<forall>i c. i < length (mf_flows s) \<and> mf_flows s ! i = Some c \<longrightarrow>
        pending_wf c \<and> map_of (mf_active s) (cm_key (gc_meta c)) = Some i) \<and>
     (\<forall>k i. map_of (mf_active s) k = Some i \<longrightarrow>
        i < length (mf_flows s) \<and> (\<exists>c. mf_flows s ! i = Some c \<and> cm_key (gc_meta c) = k))"

definition flow_pending :: "multi_flow \<Rightarrow> tcpGSOCoalesceKey \<Rightarrow> item list" where
  "flow_pending s k = (case map_of (mf_active s) k of None \<Rightarrow> [] | Some i \<Rightarrow> option_bytes (mf_flows s ! i))"

definition flow_history :: "multi_flow \<Rightarrow> tcpGSOCoalesceKey \<Rightarrow> item list" where
  "flow_history s k = flow_view k (streams (fst (mf_os s))) @ flow_pending s k"

lemma mf_wf_flow:
  assumes "mf_wf s" and "i < length (mf_flows s)" and "mf_flows s ! i = Some c"
  shows "pending_wf c" "map_of (mf_active s) (cm_key (gc_meta c)) = Some i"
  using assms by (auto simp: mf_wf_def)

lemma mf_wf_active:
  assumes "mf_wf s" and "map_of (mf_active s) k = Some i"
  obtains c where "i < length (mf_flows s)" "mf_flows s ! i = Some c" "cm_key (gc_meta c) = k" "pending_wf c"
  using assms unfolding mf_wf_def by metis

lemma nth_update_None: "i < length xs \<Longrightarrow> xs[a := None] ! i = (if i = a then None else xs ! i)"
  by (simp add: nth_list_update)

lemma flushIndex_keeps:
  assumes "mf_wf s"
  shows "mf_wf (flushIndex options i s)" "flow_history (flushIndex options i s) k = flow_history s k"
    "length (mf_flows (flushIndex options i s)) = length (mf_flows s)"
proof -
  show "length (mf_flows (flushIndex options i s)) = length (mf_flows s)"
    by (simp add: flushIndex_def split: option.splits)
  consider "flushIndex options i s = s" | c where "i < length (mf_flows s)" "mf_flows s ! i = Some c"
    by (cases "i < length (mf_flows s)"; cases "mf_flows s ! i") (auto simp: flushIndex_def)
  then have "mf_wf (flushIndex options i s) \<and> flow_history (flushIndex options i s) k = flow_history s k"
  proof cases
    case 1
    then show ?thesis using assms by simp
  next
    case (2 c)
    note c = mf_wf_flow [OF assms 2]
    let ?s = "flushIndex options i s" and ?k = "cm_key (gc_meta c)"
    have s: "mf_os ?s = emitCoalescer options c (mf_os s)" "mf_active ?s = AList.delete ?k (mf_active s)"
      "mf_flows ?s = (mf_flows s)[i := None]" using 2 by (simp_all add: flushIndex_def)
    have other: "j \<noteq> i" if "map_of (mf_active s) k = Some j" "k \<noteq> ?k" for k j
      using mf_wf_active [OF assms that(1)] that(2) 2 by force
    have "mf_wf ?s"
      unfolding mf_wf_def
    proof (intro conjI allI impI)
      fix j c' assume "j < length (mf_flows ?s) \<and> mf_flows ?s ! j = Some c'"
      then have j: "j \<noteq> i" "j < length (mf_flows s)" "mf_flows s ! j = Some c'"
        by (auto simp: s nth_update_None split: if_splits)
      note c' = mf_wf_flow [OF assms j(2,3)]
      then show "pending_wf c'" "map_of (mf_active ?s) (cm_key (gc_meta c')) = Some j"
        using c(2) j(1) by (auto simp: s delete_conv')
    next
      fix k j assume "map_of (mf_active ?s) k = Some j"
      then have kj: "map_of (mf_active s) k = Some j" "k \<noteq> ?k" by (auto simp: s delete_conv' split: if_splits)
      note mf_wf_active [OF assms kj(1)]
      then show "j < length (mf_flows ?s)" "\<exists>c. mf_flows ?s ! j = Some c \<and> cm_key (gc_meta c) = k"
        using other [OF kj] by (auto simp: s)
    qed
    moreover have "flow_history ?s k = flow_history s k"
      using c 2 other [of k]
      by (auto simp: flow_history_def flow_pending_def s delete_conv' emit_out stream_emitted flow_view_pending
          split: option.splits)
    ultimately show ?thesis ..
  qed
  then show "mf_wf (flushIndex options i s)" "flow_history (flushIndex options i s) k = flow_history s k" by simp_all
qed

lemma flushIndex_flows:
  "mf_flows (flushIndex options i s) = (mf_flows s)[i := None]"
proof (cases "i < length (mf_flows s) \<and> mf_flows s ! i \<noteq> None")
  case True
  then show ?thesis by (auto simp: flushIndex_def)
next
  case False
  then have "(mf_flows s)[i := None] = mf_flows s" by (metis list_update_beyond list_update_id not_le)
  with False show ?thesis by (auto simp: flushIndex_def)
qed

lemma fold_flushIndex:
  assumes "mf_wf s"
  shows "mf_wf (fold (flushIndex options) js s)" "flow_history (fold (flushIndex options) js s) k = flow_history s k"
    "length (mf_flows (fold (flushIndex options) js s)) = length (mf_flows s)"
    "\<And>i. i < length (mf_flows s) \<Longrightarrow> i \<in> set js \<or> mf_flows s ! i = None \<Longrightarrow> mf_flows (fold (flushIndex options) js s) ! i = None"
  using assms
  by (induction js arbitrary: s) (auto simp: flushIndex_keeps flushIndex_flows nth_update_None)

lemma flushAll_keeps:
  assumes "mf_wf s"
  shows "mf_wf (flushAll options s)" "flow_history (flushAll options s) k = flow_history s k"
    "mf_active (flushAll options s) = []" "mf_flows (flushAll options s) = []"
proof -
  let ?f = "fold (flushIndex options) [0..<length (mf_flows s)] s"
  note f = fold_flushIndex [OF assms, where options = options and js = "[0..<length (mf_flows s)]"]
  have "map_of (mf_active ?f) k = None" for k
    using f(3,4) mf_wf_active [OF f(1), of k] by (cases "map_of (mf_active ?f) k") auto
  then have "flow_history (flushAll options s) k = flow_history ?f k"
    by (simp add: flow_history_def flow_pending_def flushAll_def)
  then show "flow_history (flushAll options s) k = flow_history s k" by (simp add: f(2))
  show "mf_wf (flushAll options s)" "mf_active (flushAll options s) = []" "mf_flows (flushAll options s) = []"
    by (simp_all add: flushAll_def mf_wf_def)
qed

lemma startFlow_keeps:
  assumes "mf_wf s" and m: "tcpGSOCoalescePacketMeta p = Some m" and "map_of (mf_active s) (cm_key m) = None"
  shows "mf_wf (startFlow options m p s)" "flow_history (startFlow options m p s) k = flow_history s k @ flow_view k (stream_of p)"
proof -
  define t where "t = (if dataSessionGSOCoalesceMaxActiveFlows \<le> length (mf_active s) then flushAll options s else s)"
  have t: "mf_wf t" "flow_history t k = flow_history s k" "map_of (mf_active t) (cm_key m) = None"
    using assms flushAll_keeps [OF assms(1)] by (simp_all add: t_def)
  note st = start_pending [OF m]
  let ?s = "startFlow options m p s" and ?c = "startCoalescer p m"
  have s: "mf_os ?s = mf_os t" "mf_active ?s = AList.update (cm_key m) (length (mf_flows t)) (mf_active t)"
    "mf_flows ?s = mf_flows t @ [Some ?c]" by (simp_all add: startFlow_def t_def [symmetric])
  show "mf_wf ?s"
    unfolding mf_wf_def
  proof (intro conjI allI impI)
    fix i c assume "i < length (mf_flows ?s) \<and> mf_flows ?s ! i = Some c"
    then consider "i < length (mf_flows t)" "mf_flows t ! i = Some c" | "i = length (mf_flows t)" "c = ?c"
      by (auto simp: s nth_append less_Suc_eq split: if_splits)
    then have "pending_wf c \<and> map_of (mf_active ?s) (cm_key (gc_meta c)) = Some i"
    proof cases
      case 1
      then show ?thesis using mf_wf_flow [OF t(1) 1] t(3) by (auto simp: s update_conv')
    next
      case 2
      then show ?thesis using st by (simp add: s update_conv')
    qed
    then show "pending_wf c" "map_of (mf_active ?s) (cm_key (gc_meta c)) = Some i" by simp_all
  next
    fix k i assume "map_of (mf_active ?s) k = Some i"
    then consider "k = cm_key m" "i = length (mf_flows t)" | "k \<noteq> cm_key m" "map_of (mf_active t) k = Some i"
      by (auto simp: s update_conv' split: if_splits)
    then have "i < length (mf_flows ?s) \<and> (\<exists>c. mf_flows ?s ! i = Some c \<and> cm_key (gc_meta c) = k)"
    proof cases
      case 1
      then show ?thesis using st(3) by (simp add: s)
    next
      case 2
      then show ?thesis using mf_wf_active [OF t(1) 2(2)] by (auto simp: s nth_append)
    qed
    then show "i < length (mf_flows ?s)" "\<exists>c. mf_flows ?s ! i = Some c \<and> cm_key (gc_meta c) = k" by simp_all
  qed
  have pend: "flow_pending ?s k = flow_pending t k @ flow_view k (stream_of p)"
  proof (cases "k = cm_key m")
    case True
    then show ?thesis using st t(3) by (simp add: flow_pending_def s update_conv') (simp add: stream_of_def m flow_view_segment)
  next
    case False
    then have "flow_view k (stream_of p) = []" by (simp add: stream_of_def m flow_view_segment)
    moreover have "flow_pending ?s k = flow_pending t k"
      using False mf_wf_active [OF t(1), of k]
      by (cases "map_of (mf_active t) k") (auto simp: flow_pending_def s update_conv' nth_append)
    ultimately show ?thesis by simp
  qed
  show "flow_history ?s k = flow_history s k @ flow_view k (stream_of p)"
    using pend t(2) by (simp add: flow_history_def s)
qed

lemma multiFlowStep_keeps:
  assumes "mf_wf s"
  shows "mf_wf (multiFlowStep maxBytes maxPackets options p s)"
    "flow_history (multiFlowStep maxBytes maxPackets options p s) k = flow_history s k @ flow_view k (stream_of p)"
proof -
  let ?step = "multiFlowStep maxBytes maxPackets options p s"
  have "mf_wf ?step \<and> flow_history ?step k = flow_history s k @ flow_view k (stream_of p)"
  proof (cases "tcpGSOCoalescePacketMeta p")
    case None
    let ?f = "flushAll options s"
    note f = flushAll_keeps [OF assms, of options]
    have step: "?step = ?f \<lparr> mf_os := (fst (mf_os ?f) @ [p], snd (mf_os ?f)) \<rparr>"
      using None by (simp add: multiFlowStep_def Let_def)
    have "mf_wf ?step" using f by (simp add: step mf_wf_def)
    moreover have "flow_history ?step k = flow_history ?f k @ flow_view k (stream_of p)"
      using f(3) by (simp add: step flow_history_def flow_pending_def)
    ultimately show ?thesis using f(2) by simp
  next
    case m: (Some m)
    show ?thesis
    proof (cases "map_of (mf_active s) (cm_key m)")
      case None
      then have "?step = startFlow options m p s" using m by (simp add: multiFlowStep_def)
      with startFlow_keeps [OF assms m None] show ?thesis by simp
    next
      case (Some i)
      obtain c where c: "i < length (mf_flows s)" "mf_flows s ! i = Some c" "cm_key (gc_meta c) = cm_key m" "pending_wf c"
        using mf_wf_active [OF assms Some] by blast
      show ?thesis
      proof (cases "tcpGSOCoalescerCanAppend c p m maxBytes maxPackets")
        case False
        have gone: "map_of (mf_active (flushIndex options i s)) (cm_key m) = None"
          using c by (simp add: flushIndex_def delete_conv')
        have "?step = startFlow options m p (flushIndex options i s)" using m Some c False by (simp add: multiFlowStep_def)
        with startFlow_keeps [OF flushIndex_keeps(1) [OF assms] m gone] flushIndex_keeps(2) [OF assms] show ?thesis by simp
      next
        case True
        note e = extend_pending [OF c(4) m True]
        let ?c = "extendCoalescer c p m"
        have step: "?step = s \<lparr> mf_flows := (mf_flows s)[i := Some ?c] \<rparr>" using m Some c True by (simp add: multiFlowStep_def)
        have "mf_wf ?step"
          unfolding mf_wf_def
        proof (intro conjI allI impI)
          fix j c' assume j: "j < length (mf_flows ?step) \<and> mf_flows ?step ! j = Some c'"
          then have "pending_wf c' \<and> map_of (mf_active s) (cm_key (gc_meta c')) = Some j"
            using mf_wf_flow [OF assms, of j c'] c(1) e(1,3) Some by (cases "j = i") (auto simp: step)
          then show "pending_wf c'" "map_of (mf_active ?step) (cm_key (gc_meta c')) = Some j" by (simp_all add: step)
        next
          fix k' j assume "map_of (mf_active ?step) k' = Some j"
          then have k': "map_of (mf_active s) k' = Some j" by (simp add: step)
          obtain c' where "j < length (mf_flows s)" "mf_flows s ! j = Some c'" "cm_key (gc_meta c') = k'"
            using mf_wf_active [OF assms k'] by blast
          then show "j < length (mf_flows ?step)" "\<exists>c. mf_flows ?step ! j = Some c \<and> cm_key (gc_meta c) = k'"
            using c e(3) by (auto simp: step nth_list_update)
        qed
        moreover have "flow_pending ?step k = flow_pending s k @ flow_view k (stream_of p)"
        proof (cases "k = cm_key m")
          case True
          then show ?thesis using Some c(1,2) e(2) by (simp add: step flow_pending_def) (simp add: stream_of_def m flow_view_segment)
        next
          case False
          then have "flow_view k (stream_of p) = []" by (simp add: stream_of_def m flow_view_segment)
          moreover have "j \<noteq> i" if "map_of (mf_active s) k = Some j" for j
            using mf_wf_active [OF assms that] False c(2,3) by force
          ultimately show ?thesis by (auto simp: step flow_pending_def split: option.splits)
        qed
        ultimately show ?thesis by (simp add: flow_history_def) (simp add: step)
      qed
    qed
  qed
  then show "mf_wf ?step" "flow_history ?step k = flow_history s k @ flow_view k (stream_of p)" by simp_all
qed





subsection \<open>The packets that are handed on\<close>

definition merged_ok :: "int \<Rightarrow> tcpGSOCoalesceOptions \<Rightarrow> bytes \<Rightarrow> bool" where
  "merged_ok maxBytes options q \<longleftrightarrow>
     (\<exists>ihl. ipv4HeaderBounds q = Inr (0, ihl, length q) \<and> length q \<le> 0xffff \<and> int (length q) \<le> maxBytes \<and>
        headerVerifies q ihl \<and>
        (transportVerifies q ihl \<or> tcpGSOCoalesceSkipTCPChecksum (length q) options))"

definition pend_ok :: "bytes set \<Rightarrow> int \<Rightarrow> tcpGSOCoalescer \<Rightarrow> bool" where
  "pend_ok P maxBytes c \<longleftrightarrow>
     pending_wf c \<and> (gc_count c = 1 \<longrightarrow> gc_packet c \<in> P) \<and> (gc_count c \<noteq> 1 \<longrightarrow> int (length (gc_packet c)) \<le> maxBytes)"

definition out_ok :: "bytes set \<Rightarrow> int \<Rightarrow> tcpGSOCoalesceOptions \<Rightarrow> bytes \<Rightarrow> bool" where
  "out_ok P maxBytes options q \<longleftrightarrow> q \<in> P \<or> merged_ok maxBytes options q"

lemma start_ok:
  assumes "tcpGSOCoalescePacketMeta p = Some m" and "p \<in> P"
  shows "pend_ok P maxBytes (startCoalescer p m)"
proof -
  have "gso_wf m p" using assms(1) by (simp add: packetMeta_iff)
  from gso_wf_lengths(1) [OF this] start_pending(1) [OF assms(1)] assms(2) show ?thesis
    by (simp add: pend_ok_def startCoalescer_def)
qed

lemma extend_ok:
  assumes "pend_ok P maxBytes c" and m: "tcpGSOCoalescePacketMeta p = Some m"
    and can: "tcpGSOCoalescerCanAppend c p m maxBytes maxPackets"
  shows "pend_ok P maxBytes (extendCoalescer c p m)"
proof -
  have c: "pending_wf c" "1 \<le> gc_count c" "gso_wf (gc_meta c) (gc_packet c)" using assms(1) by (simp_all add: pend_ok_def pending_wf_def)
  have "gso_wf m p" using m by (simp add: packetMeta_iff)
  note l = gso_wf_lengths [OF this] gso_wf_bounds(3) [OF this] and cl = gso_wf_lengths(1) [OF c(3)]
  have "length (gc_packet (extendCoalescer c p m)) = length (gc_packet c) + cm_payloadLen m"
    using l cl by (simp add: extendCoalescer_def Let_def cloneTCPGSOCoalescePacket_def)
  with canAppend_facts(13) [OF can] extend_pending(1) [OF c(1) m can] c(2) show ?thesis
    by (simp add: pend_ok_def extendCoalescer_def Let_def)
qed

lemma emitted_ok:
  assumes "pend_ok P maxBytes c"
  shows "out_ok P maxBytes options (emitted options c)"
proof (cases "gc_count c = 1")
  case True
  then show ?thesis using assms emitted_single [of c options] by (simp add: pend_ok_def out_ok_def)
next
  case False
  have c: "pending_wf c" "gso_wf (gc_meta c) (gc_packet c)" "1 \<le> gc_count c" "int (length (gc_packet c)) \<le> maxBytes"
    using assms False by (simp_all add: pend_ok_def pending_wf_def)
  let ?m = "gc_meta c" and ?skip = "tcpGSOCoalesceSkipTCPChecksum (cm_totalLen (gc_meta c)) options"
  have q: "emitted options c = finishTCPGSOCoalescedPacket (gc_packet c) ?m ?skip" using False c(3) by (simp add: emitted_def)
  note f = finish_nth [OF c(2) q] and fc = finish_checksums [OF c(2) q] and fm = finish_meta(1) [OF c(2) q]
  have "gso_wf ?m (emitted options c)" using fm by (simp add: packetMeta_iff)
  then have "ipv4HeaderBounds (emitted options c) = Inr (0, cm_ihl ?m, length (emitted options c))"
    using f(1,4) by (intro bounds_gso_header [of _ "cm_tcpHeaderLen ?m"]) (simp_all add: gso_wf_def)
  then show ?thesis
    using f(1) fc gso_wf_bounds(4) [OF c(2)] gso_wf_lengths(1) [OF c(2)] c(4) by (auto simp: out_ok_def merged_ok_def)
qed

lemma coalesceLoop_ok:
  assumes "pred_option (pend_ok P maxBytes) current" and "set packets \<subseteq> P" and "\<forall>q \<in> set (fst os). out_ok P maxBytes options q"
  shows "\<forall>q \<in> set (fst (coalesceLoop maxBytes maxPackets options packets current os)). out_ok P maxBytes options q"
  using assms
proof (induction packets arbitrary: current os)
  case Nil
  then show ?case by (cases current) (auto simp: flushCurrent_def emit_out emitted_ok)
next
  case (Cons p packets)
  have flush: "\<forall>q \<in> set (fst (flushCurrent options current os)). out_ok P maxBytes options q"
    using Cons.prems(1,3) by (cases current) (auto simp: flushCurrent_def emit_out emitted_ok)
  have p: "p \<in> P" "set packets \<subseteq> P" using Cons.prems(2) by simp_all
  show ?case
  proof (cases "tcpGSOCoalescePacketMeta p")
    case None
    obtain out stats where f: "flushCurrent options current os = (out, stats)" by fastforce
    have "out_ok P maxBytes options p" using p(1) by (simp add: out_ok_def)
    then have "\<forall>q \<in> set (fst (out @ [p], stats)). out_ok P maxBytes options q" using flush f by auto
    from Cons.IH [OF _ p(2) this, of None] show ?thesis by (simp add: None f)
  next
    case m: (Some m)
    have st: "pred_option (pend_ok P maxBytes) (Some (startCoalescer p m))" using start_ok [OF m p(1)] by simp
    show ?thesis
    proof (cases current)
      case None
      from Cons.IH [OF st p(2) Cons.prems(3)] show ?thesis by (simp add: None m)
    next
      case (Some c)
      then have c: "pend_ok P maxBytes c" using Cons.prems(1) by simp
      show ?thesis
      proof (cases "tcpGSOCoalescerCanAppend c p m maxBytes maxPackets")
        case True
        have "pred_option (pend_ok P maxBytes) (Some (extendCoalescer c p m))" using extend_ok [OF c m True] by simp
        from Cons.IH [OF this p(2) Cons.prems(3)] show ?thesis by (simp add: Some m True)
      next
        case False
        from Cons.IH [OF st p(2) flush] show ?thesis by (simp add: Some m False)
      qed
    qed
  qed
qed

definition mf_ok :: "bytes set \<Rightarrow> int \<Rightarrow> tcpGSOCoalesceOptions \<Rightarrow> multi_flow \<Rightarrow> bool" where
  "mf_ok P maxBytes options s \<longleftrightarrow>
     (\<forall>c. Some c \<in> set (mf_flows s) \<longrightarrow> pend_ok P maxBytes c) \<and> (\<forall>q \<in> set (fst (mf_os s)). out_ok P maxBytes options q)"

lemma flushIndex_ok:
  assumes "mf_ok P maxBytes options s"
  shows "mf_ok P maxBytes options (flushIndex options i s)"
proof (cases "i < length (mf_flows s) \<and> mf_flows s ! i \<noteq> None")
  case True
  then obtain c where c: "i < length (mf_flows s)" "mf_flows s ! i = Some c" by auto
  then have "Some c \<in> set (mf_flows s)" by (metis nth_mem)
  then have "out_ok P maxBytes options (emitted options c)" using assms emitted_ok by (simp add: mf_ok_def)
  then show ?thesis using assms c set_update_subset_insert [of "mf_flows s" i None]
    by (auto simp: mf_ok_def flushIndex_def emit_out)
next
  case False
  then have "flushIndex options i s = s" by (auto simp: flushIndex_def)
  with assms show ?thesis by simp
qed

lemma flushAll_ok:
  assumes "mf_ok P maxBytes options s"
  shows "mf_ok P maxBytes options (flushAll options s)"
proof -
  have "mf_ok P maxBytes options (fold (flushIndex options) js s)" for js
    using assms by (induction js arbitrary: s) (simp_all add: flushIndex_ok)
  then show ?thesis by (simp add: flushAll_def mf_ok_def)
qed

lemma startFlow_ok:
  assumes "mf_ok P maxBytes options s" and "tcpGSOCoalescePacketMeta p = Some m" and "p \<in> P"
  shows "mf_ok P maxBytes options (startFlow options m p s)"
  using assms(1) flushAll_ok [OF assms(1)] start_ok [OF assms(2,3), of maxBytes]
  by (auto simp: mf_ok_def startFlow_def Let_def)

lemma multiFlowStep_ok:
  assumes "mf_ok P maxBytes options s" and wf: "mf_wf s" and p: "p \<in> P"
  shows "mf_ok P maxBytes options (multiFlowStep maxBytes maxPackets options p s)"
proof (cases "tcpGSOCoalescePacketMeta p")
  case None
  then show ?thesis using flushAll_ok [OF assms(1)] p
    by (auto simp: mf_ok_def multiFlowStep_def Let_def out_ok_def)
next
  case m: (Some m)
  show ?thesis
  proof (cases "map_of (mf_active s) (cm_key m)")
    case None
    then show ?thesis using startFlow_ok [OF assms(1) m p] m by (simp add: multiFlowStep_def)
  next
    case (Some i)
    obtain c where c: "i < length (mf_flows s)" "mf_flows s ! i = Some c" using mf_wf_active [OF wf Some] by blast
    then have "Some c \<in> set (mf_flows s)" by (metis nth_mem)
    then have pend: "pend_ok P maxBytes c" using assms(1) by (simp add: mf_ok_def)
    show ?thesis
    proof (cases "tcpGSOCoalescerCanAppend c p m maxBytes maxPackets")
      case True
      then show ?thesis
        using m Some c assms(1) extend_ok [OF pend m True] set_update_subset_insert [of "mf_flows s" i "Some (extendCoalescer c p m)"]
        by (auto simp: multiFlowStep_def mf_ok_def)
    next
      case False
      then show ?thesis using m Some c startFlow_ok [OF flushIndex_ok [OF assms(1)] m p, of i] by (simp add: multiFlowStep_def)
    qed
  qed
qed

lemma fold_multiFlowStep_ok:
  assumes "mf_ok P maxBytes options s" and "mf_wf s" and "set ps \<subseteq> P"
  shows "mf_ok P maxBytes options (fold (multiFlowStep maxBytes maxPackets options) ps s)"
  using assms by (induction ps arbitrary: s) (simp_all add: multiFlowStep_ok multiFlowStep_keeps)

lemma multiFlow_ok:
  "\<forall>q \<in> set (fst (coalesceDataSessionTCPLocalPacketsMultiFlowScratchOptions packets maxBytes maxPackets options)).
     out_ok (set packets) maxBytes options q"
proof -
  let ?init = "\<lparr> mf_os = ([], noStats), mf_active = [], mf_flows = [] \<rparr>"
  let ?s = "fold (multiFlowStep maxBytes maxPackets options) packets ?init"
  have "mf_ok (set packets) maxBytes options ?s"
    by (rule fold_multiFlowStep_ok) (simp_all add: mf_ok_def mf_wf_def)
  from flushAll_ok [OF this] show ?thesis
    by (auto simp: coalesceDataSessionTCPLocalPacketsMultiFlowScratchOptions_def Let_def mf_ok_def out_ok_def split: prod.splits)
qed

lemma coalesce_ok:
  "\<forall>q \<in> set (fst (coalesceDataSessionTCPLocalPacketsConfiguredScratchOptions packets enabled maxBytes maxPackets options)).
     out_ok (set packets) maxBytes options q"
proof -
  obtain out stats where l: "coalesceLoop maxBytes maxPackets options packets None ([], noStats) = (out, stats)" by fastforce
  have "\<forall>q \<in> set out. out_ok (set packets) maxBytes options q"
    using coalesceLoop_ok [of "set packets" maxBytes None packets "([], noStats)" options maxPackets] l by simp
  moreover have "\<forall>q \<in> set packets. out_ok (set packets) maxBytes options q" by (simp add: out_ok_def)
  ultimately show ?thesis
    using multiFlow_ok [of packets maxBytes maxPackets options] l
    by (simp add: coalesceDataSessionTCPLocalPacketsConfiguredScratchOptions_def Let_def)
qed


section \<open>Properties\<close>

text \<open>Two consecutive segments of one flow, with two and three bytes of payload, for the witnesses.\<close>

definition toy_segment :: "byte \<Rightarrow> bytes \<Rightarrow> bytes" where
  "toy_segment sq payload =
    [0x45, 0, 0, 40 + word_of_nat (length payload), 0, 0, 0, 0, 64, 6, 0, 0, 10, 0, 0, 1, 10, 0, 0, 2,
     0x04, 0xd2, 0, 80, 0, 0, 0, sq, 0, 0, 0, 9, 0x50, 0x10, 0xff, 0xff, 0, 0, 0, 0] @ payload"

definition toy_gso_options :: "bool \<Rightarrow> tcpGSOCoalesceOptions" where
  "toy_gso_options multi = \<lparr> go_skipTCPChecksumAbove = 0, go_multiFlow = multi \<rparr>"

definition toy_pending :: tcpGSOCoalescer where
  "toy_pending = startCoalescer (toy_segment 1 [7, 8]) (readMeta (toy_segment 1 [7, 8]) 20 20 42)"

definition toy_merged :: tcpGSOCoalescer where
  "toy_merged = extendCoalescer toy_pending (toy_segment 3 [9, 10, 11]) (readMeta (toy_segment 3 [9, 10, 11]) 20 20 43)"

lemma toy_meta:
  "tcpGSOCoalescePacketMeta (toy_segment 1 [7, 8]) = Some (readMeta (toy_segment 1 [7, 8]) 20 20 42)"
  "tcpGSOCoalescePacketMeta (toy_segment 3 [9, 10, 11]) = Some (readMeta (toy_segment 3 [9, 10, 11]) 20 20 43)"
  by code_simp+

lemma toy_can: "tcpGSOCoalescerCanAppend toy_pending (toy_segment 3 [9, 10, 11]) (readMeta (toy_segment 3 [9, 10, 11]) 20 20 43) 1500 64"
  by code_simp

lemma toy_merged_facts: "length (gc_packet toy_merged) = 45" "gc_count toy_merged = 2" "length (toy_segment 1 [7, 8]) = 42"
    "length (toy_segment 3 [9, 10, 11]) = 43"
  by code_simp+

lemma toy_coalesced:
  "fst (coalesceDataSessionTCPLocalPacketsConfiguredScratchOptions
     [toy_segment 1 [7, 8], toy_segment 3 [9, 10, 11]] True 1500 64 (toy_gso_options False)) = [emitted (toy_gso_options False) toy_merged]"
  by (simp add: coalesceDataSessionTCPLocalPacketsConfiguredScratchOptions_def Let_def toy_gso_options_def noStats_def toy_meta flushCurrent_def
      toy_pending_def [symmetric] toy_can [simplified] toy_merged_def [symmetric] emitCoalescer_def emitted_def toy_merged_facts)

lemma toy_emitted: "length (emitted (toy_gso_options False) toy_merged) = 45"
proof -
  note e = extend_pending(1) [OF start_pending(1) [OF toy_meta(1)] toy_meta(2) toy_can [unfolded toy_pending_def]]
  then have "gso_wf (gc_meta toy_merged) (gc_packet toy_merged)" by (simp add: toy_merged_def toy_pending_def pending_wf_def)
  from finish_nth(1) [OF this refl] show ?thesis by (simp add: emitted_def toy_merged_facts)
qed



text \<open>
  C32: what coalescing hands on.  Every packet of the result is one of the packets given or a
  merged one that is a complete IPv4 packet of at most the configured size and 65535 bytes, whose
  header checksum verifies and whose TCP checksum verifies unless the packet is above the
  size from which the options leave it to the hardware.
\<close>

theorem gso_output_bounds:
  "\<forall>q \<in> set (fst (coalesceDataSessionTCPLocalPacketsConfiguredScratchOptions packets enabled maxBytes maxPackets options)).
     q \<in> set packets \<or>
     (\<exists>ihl. ipv4HeaderBounds q = Inr (0, ihl, length q) \<and> length q \<le> 65535 \<and> int (length q) \<le> maxBytes \<and>
        headerVerifies q ihl \<and>
        (transportVerifies q ihl \<or> 0 < go_skipTCPChecksumAbove options \<and> go_skipTCPChecksumAbove options < int (length q)))"
  using coalesce_ok [of packets enabled maxBytes maxPackets options]
  by (simp add: out_ok_def merged_ok_def tcpGSOCoalesceSkipTCPChecksum_def)

theorem gso_output_bounds_witness:
  "\<exists>q ihl. fst (coalesceDataSessionTCPLocalPacketsConfiguredScratchOptions
     [toy_segment 1 [7, 8], toy_segment 3 [9, 10, 11]] True 1500 64 (toy_gso_options False)) = [q] \<and>
   ipv4HeaderBounds q = Inr (0, ihl, length q) \<and> headerVerifies q ihl \<and> transportVerifies q ihl"
proof -
  let ?q = "emitted (toy_gso_options False) toy_merged"
  have "?q \<notin> set [toy_segment 1 [7, 8], toy_segment 3 [9, 10, 11]]" using toy_emitted toy_merged_facts(3,4) by auto
  moreover have "go_skipTCPChecksumAbove (toy_gso_options False) = 0" by (simp add: toy_gso_options_def)
  ultimately show ?thesis
    using gso_output_bounds [of "[toy_segment 1 [7, 8], toy_segment 3 [9, 10, 11]]" True 1500 64 "toy_gso_options False"]
    by (auto simp: toy_coalesced)
qed

end
