(* ===== verification/DataFrames.thy ===== *)
theory DataFrames
  imports NetIP
begin

text \<open>
  The frames inside a data session, \<^verbatim>\<open>internal/daemon/datapath.go\<close> and its counterpart for
  roaming devices, \<^verbatim>\<open>internal/device/control.go\<close>: control frames (ping, pong, device lease)
  and batches of packets.  A lease carries an optional expiry time, in nanoseconds since the Unix
  epoch; \<open>None\<close> is the zero \<^verbatim>\<open>time.Time\<close>.
\<close>

section \<open>Control frames of the daemon\<close>

definition dataSessionControlMagic :: bytes where "dataSessionControlMagic = [0x54, 0x49, 0x58, 0x43]"
definition dataSessionBatchMagic :: bytes where "dataSessionBatchMagic = [0x54, 0x49, 0x58, 0x42]"
definition dataSessionSecureHandshakeMagic :: bytes where "dataSessionSecureHandshakeMagic = [0x54, 0x49, 0x58, 0x48]"

definition dataSessionControlVersion :: byte where "dataSessionControlVersion = 1"
definition dataSessionControlPing :: byte where "dataSessionControlPing = 1"
definition dataSessionControlPong :: byte where "dataSessionControlPong = 2"
definition dataSessionControlDeviceLease :: byte where "dataSessionControlDeviceLease = 3"
definition dataSessionBatchVersion :: byte where "dataSessionBatchVersion = 1"

definition encodeDataSessionControl :: "byte \<Rightarrow> u64 \<Rightarrow> bytes" where
  "encodeDataSessionControl kind nonce =
    (let frame = replicate 16 0;
         frame = overwrite 0 dataSessionControlMagic frame;
         frame = frame[4 := dataSessionControlVersion];
         frame = frame[5 := kind]
     in PutUint64 8 nonce frame)"


text \<open>\<^verbatim>\<open>time.Time.Unix\<close>: the seconds of a time, rounded down.\<close>

definition Unix :: "int \<Rightarrow> int" where
  "Unix t = t div 1000000000"


definition isDataSessionControlPacket :: "bytes \<Rightarrow> bool" where
  "isDataSessionControlPacket packet =
    (if length packet = 16 then subslice 0 4 packet = dataSessionControlMagic \<and> packet ! 4 = dataSessionControlVersion
     else if length packet < 28 \<or> subslice 0 4 packet \<noteq> dataSessionControlMagic \<or> packet ! 4 \<noteq> dataSessionControlVersion then False
     else if packet ! 5 \<noteq> dataSessionControlDeviceLease then False
     else let count = unat (Uint16 (subslice 24 26 packet)) in length packet = 28 + count * 8)"

definition decodeDataSessionControl :: "bytes \<Rightarrow> (byte \<times> u64) option" where
  "decodeDataSessionControl packet =
    (if \<not> isDataSessionControlPacket packet then None
     else if packet ! 5 = dataSessionControlPing \<or> packet ! 5 = dataSessionControlPong \<or> packet ! 5 = dataSessionControlDeviceLease
     then Some (packet ! 5, Uint64 (subslice 8 16 packet)) else None)"

definition isDataSessionSecureHandshakePacket :: "bytes \<Rightarrow> bool" where
  "isDataSessionSecureHandshakePacket packet \<longleftrightarrow>
     4 \<le> length packet \<and> subslice 0 4 packet = dataSessionSecureHandshakeMagic"


section \<open>Batches\<close>

fun decodeBatchLoop :: "nat \<Rightarrow> nat \<Rightarrow> bytes \<Rightarrow> bytes list \<Rightarrow> bytes list option" where
  "decodeBatchLoop 0 offset packet items = (if offset \<noteq> length packet then None else Some items)"
| "decodeBatchLoop (Suc i) offset packet items =
    (if length packet - offset < 2 then None
     else
       let sz = unat (Uint16 (subslice offset (offset + 2) packet)); offset = offset + 2 in
       if sz = 0 \<or> length packet - offset < sz then None
       else decodeBatchLoop i (offset + sz) packet (items @ [subslice offset (offset + sz) packet]))"

definition decodeDataSessionBatch :: "bytes \<Rightarrow> bytes list option" where
  "decodeDataSessionBatch packet =
    (if length packet < 8 then None
     else if subslice 0 4 packet \<noteq> dataSessionBatchMagic \<or> packet ! 4 \<noteq> dataSessionBatchVersion then None
     else
       let count = unat (Uint16 (subslice 6 8 packet)) in
       if count = 0 \<or> count > 256 then None else decodeBatchLoop count 8 packet [])"

definition dataSessionBatchPayloadCount :: "bytes \<Rightarrow> nat" where
  "dataSessionBatchPayloadCount payload =
    (if length payload < 8 then 0
     else if subslice 0 4 payload \<noteq> dataSessionBatchMagic \<or> payload ! 4 \<noteq> dataSessionBatchVersion then 0
     else unat (Uint16 (subslice 6 8 payload)))"


section \<open>The device side\<close>


definition device_EncodeControl :: "byte \<Rightarrow> u64 \<Rightarrow> bytes" where
  "device_EncodeControl kind nonce =
    (let frame = replicate 16 0;
         frame = overwrite 0 [0x54, 0x49, 0x58, 0x43] frame;
         frame = frame[4 := 1];
         frame = frame[5 := kind]
     in PutUint64 8 nonce frame)"

definition IsControlPacket :: "bytes \<Rightarrow> bool" where
  "IsControlPacket packet =
    (if length packet = 16 then subslice 0 4 packet = [0x54, 0x49, 0x58, 0x43] \<and> packet ! 4 = 1
     else if length packet < 28 \<or> subslice 0 4 packet \<noteq> [0x54, 0x49, 0x58, 0x43] \<or> packet ! 4 \<noteq> 1 then False
     else if packet ! 5 \<noteq> 3 then False
     else let count = unat (Uint16 (subslice 24 26 packet)) in length packet = 28 + count * 8)"

definition DecodeControl :: "bytes \<Rightarrow> (byte \<times> u64) option" where
  "DecodeControl packet =
    (if \<not> IsControlPacket packet then None
     else if packet ! 5 = 1 \<or> packet ! 5 = 2 \<or> packet ! 5 = 3
     then Some (packet ! 5, Uint64 (subslice 8 16 packet)) else None)"



fun deviceBatchLoop :: "nat \<Rightarrow> nat \<Rightarrow> bytes \<Rightarrow> bytes list \<Rightarrow> bytes list option" where
  "deviceBatchLoop 0 offset packet items = (if offset \<noteq> length packet then None else Some items)"
| "deviceBatchLoop (Suc i) offset packet items =
    (if length packet - offset < 2 then None
     else
       let sz = unat (Uint16 (subslice offset (offset + 2) packet)); offset = offset + 2 in
       if sz = 0 \<or> length packet - offset < sz then None
       else deviceBatchLoop i (offset + sz) packet (items @ [subslice offset (offset + sz) packet]))"

definition DecodeBatchInto :: "bytes \<Rightarrow> bytes list option" where
  "DecodeBatchInto packet =
    (if length packet < 8 then None
     else if subslice 0 4 packet \<noteq> [0x54, 0x49, 0x58, 0x42] \<or> packet ! 4 \<noteq> 1 then None
     else
       let count = unat (Uint16 (subslice 6 8 packet)) in
       if count = 0 \<or> count > 256 then None else deviceBatchLoop count 8 packet [])"


section \<open>Both sides agree\<close>

lemmas frame_consts = dataSessionControlMagic_def dataSessionBatchMagic_def dataSessionSecureHandshakeMagic_def
  dataSessionControlVersion_def dataSessionControlPing_def dataSessionControlPong_def dataSessionControlDeviceLease_def
  dataSessionBatchVersion_def

lemma device_codecs_agree:
  "device_EncodeControl kind nonce = encodeDataSessionControl kind nonce"
  "IsControlPacket p = isDataSessionControlPacket p" "DecodeControl p = decodeDataSessionControl p"
  "DecodeBatchInto p = decodeDataSessionBatch p"
proof -
  show "device_EncodeControl kind nonce = encodeDataSessionControl kind nonce"
    by (simp add: device_EncodeControl_def encodeDataSessionControl_def frame_consts)
  show c: "IsControlPacket p = isDataSessionControlPacket p"
    by (simp add: IsControlPacket_def isDataSessionControlPacket_def frame_consts)
  show "DecodeControl p = decodeDataSessionControl p"
    by (simp add: DecodeControl_def decodeDataSessionControl_def c frame_consts)
  have "deviceBatchLoop n off p items = decodeBatchLoop n off p items" for n off items
    by (induction n off p items rule: deviceBatchLoop.induct) (simp_all add: Let_def)
  then show "DecodeBatchInto p = decodeDataSessionBatch p"
    by (simp add: DecodeBatchInto_def decodeDataSessionBatch_def frame_consts Let_def)
qed

lemma control_roundtrip:
  assumes "kind \<in> {dataSessionControlPing, dataSessionControlPong, dataSessionControlDeviceLease}"
  shows "decodeDataSessionControl (encodeDataSessionControl kind nonce) = Some (kind, nonce)"
proof -
  have e: "encodeDataSessionControl kind nonce = [0x54, 0x49, 0x58, 0x43, 1, kind, 0, 0] @ be64 nonce"
    by (simp add: encodeDataSessionControl_def frame_consts overwrite_def numeral_eq_Suc)
  show ?thesis
    using assms unfolding e
    by (auto simp: decodeDataSessionControl_def isDataSessionControlPacket_def frame_consts subslice_def be64.dec_enc_exact)
qed

text \<open>The wire form of a batch, as a function of its packets.\<close>

definition item :: "bytes \<Rightarrow> bytes" where
  "item p = be16 (word_of_nat (length p)) @ p"

definition batch_frame :: "bytes list \<Rightarrow> bytes" where
  "batch_frame ps = dataSessionBatchMagic @ [dataSessionBatchVersion, 0] @ be16 (word_of_nat (length ps)) @ concat (map item ps)"

definition item_ok :: "bytes \<Rightarrow> bool" where
  "item_ok p \<longleftrightarrow> p \<noteq> [] \<and> length p \<le> 0xffff"

lemma decodeBatchLoop_items:
  "list_all item_ok ps \<Longrightarrow> length pre = offset \<Longrightarrow>
   decodeBatchLoop (length ps) offset (pre @ concat (map item ps)) items = Some (items @ ps)"
proof (induction ps arbitrary: pre offset items)
  case Nil
  then show ?case by simp
next
  case (Cons p ps)
  let ?n = "be16 (word_of_nat (length p))" and ?rest = "concat (map item ps)"
  have p: "p \<noteq> []" "length p \<le> 0xffff" using Cons.prems(1) by (simp_all add: item_ok_def)
  have n: "unat (word_of_nat (length p) :: u16) = length p" using p by (simp add: unat_of_nat take_bit_nat_eq_self)
  have pkt: "pre @ concat (map item (p # ps)) = (pre @ ?n @ p) @ ?rest" by (simp add: item_def)
  have "subslice offset (offset + 2) ((pre @ ?n @ p) @ ?rest) = ?n" "subslice (offset + 2) (offset + 2 + length p) ((pre @ ?n @ p) @ ?rest) = p"
    using Cons.prems(2) by (simp_all add: subslice_def del: add_2_eq_Suc')
  moreover have "decodeBatchLoop (length ps) (offset + 2 + length p) ((pre @ ?n @ p) @ ?rest) (items @ [p]) = Some ((items @ [p]) @ ps)"
    using Cons.prems by (intro Cons.IH) simp_all
  ultimately show ?case
    unfolding pkt using p n Cons.prems(2) by (simp add: Let_def be16.dec_enc_exact del: add_2_eq_Suc' append_assoc)
qed

lemma batch_roundtrip:
  assumes "list_all item_ok ps" and "ps \<noteq> []" and "length ps \<le> 256"
  shows "decodeDataSessionBatch (batch_frame ps) = Some ps"
proof -
  let ?h = "dataSessionBatchMagic @ [dataSessionBatchVersion, 0] @ be16 (word_of_nat (length ps))"
  have n: "unat (word_of_nat (length ps) :: u16) = length ps" using assms(3) by (simp add: unat_of_nat take_bit_nat_eq_self)
  have "decodeBatchLoop (length ps) 8 (?h @ concat (map item ps)) [] = Some ([] @ ps)"
    by (rule decodeBatchLoop_items) (use assms in \<open>simp_all add: frame_consts\<close>)
  moreover have "subslice 6 8 (?h @ concat (map item ps)) = be16 (word_of_nat (length ps))" by (simp add: subslice_def frame_consts)
  ultimately show ?thesis
    using assms(2,3) n unfolding decodeDataSessionBatch_def batch_frame_def
    by (simp add: Let_def be16.dec_enc_exact subslice_def frame_consts)
qed


section \<open>Leases\<close>



definition route_entry :: "Prefix \<Rightarrow> bytes" where
  "route_entry r = As4 (pf_addr (Masked r)) @ [word_of_int (Prefix_Bits r), 0, 0, 0]"


definition expiry_field :: "int option \<Rightarrow> bytes" where
  "expiry_field expiresAt = (case expiresAt of None \<Rightarrow> replicate 8 0 | Some t \<Rightarrow> be64 (word_of_int (Unix t)))"

definition lease_header :: "Addr \<Rightarrow> u32 \<Rightarrow> int option \<Rightarrow> nat \<Rightarrow> bytes" where
  "lease_header addr prefixBits expiresAt n =
    [0x54, 0x49, 0x58, 0x43, 1, 3, 0, 0] @ (if Is4 addr then As4 addr else [0, 0, 0, 0]) @ be32 prefixBits @
    expiry_field expiresAt @ be16 (word_of_nat n) @ [0, 0]"

lemma length_route_entry [simp]: "length (route_entry r) = 8"
  by (simp add: route_entry_def)

lemma length_expiry_field [simp]: "length (expiry_field e) = 8"
  by (simp add: expiry_field_def split: option.splits)

lemma length_lease_header [simp]: "length (lease_header addr prefixBits expiresAt n) = 28"
  by (simp add: lease_header_def)
















end
