(* ===== verification/DataSession.thy ===== *)
theory DataSession
  imports DataFrames GSOCoalesce
begin

text \<open>
  Batching of packets into the frames of a data session, and the receiving side,
  \<^verbatim>\<open>internal/daemon/datapath.go\<close>: packets are queued into a batch that is flushed when it is
  full or old enough, oversized and control packets are sent on their own, and the receiver
  answers control frames and unpacks batches.

  A transport session is its state with the outcome of \<^verbatim>\<open>SendPacket\<close> and, where it has one, of
  \<^verbatim>\<open>SendPackets\<close>.  The runtime has the fields these functions use and the counters they
  update; times are nanoseconds, 0 the zero time.  Locks are left out: each section that
  holds a lock is one step.  What happens to received packets after \<open>handleReceivedDataPathPackets\<close>
  is the list of batches it hands on.
\<close>

section \<open>Configuration\<close>


definition dataSessionBatchDefaultBytes :: int where "dataSessionBatchDefaultBytes = 256 * 1024"





record dataSessionBatchConfig =
  bc_enabled :: bool
  bc_maxBytes :: int
  bc_maxPackets :: int
  bc_delay :: int




definition dataSessionKernelCryptoBatchBytes :: "environment \<Rightarrow> int" where
  "dataSessionKernelCryptoBatchBytes env =
    (let value = TrimSpace (env ''TRUSTIX_DATA_SESSION_KERNEL_CRYPTO_BATCH_BYTES''); limit = 256 * 1024 in
     if value = '''' then limit
     else (case Atoi value of None \<Rightarrow> limit
       | Some parsed \<Rightarrow> if parsed < 1500 then limit else if parsed > limit then limit else parsed))"

definition dataSessionUserspaceEncryptedBatchBytes :: "environment \<Rightarrow> int" where
  "dataSessionUserspaceEncryptedBatchBytes env =
    (let value = TrimSpace (env ''TRUSTIX_DATA_SESSION_USERSPACE_ENCRYPTED_BATCH_BYTES''); limit = 32 * 1024 in
     if value = '''' then limit
     else if ToLower value \<in> set [''0'', ''false'', ''no'', ''off'', ''disabled'', ''none''] then 0
     else (case Atoi value of None \<Rightarrow> limit
       | Some parsed \<Rightarrow> if parsed < 1500 then limit else if parsed > limit then limit else parsed))"

definition dataSessionBatchMaxBytesForStats :: "environment \<Rightarrow> int \<Rightarrow> TransportStats \<Rightarrow> int" where
  "dataSessionBatchMaxBytesForStats env maxBytes stats =
    (let maxBytes = (if maxBytes \<le> 0 then dataSessionBatchDefaultBytes else maxBytes);
         maxBytes =
           (if ts_Encrypted stats \<and> ts_CryptoPlacement stats = ''kernel'' then
              let kernelMax = dataSessionKernelCryptoBatchBytes env in if maxBytes > kernelMax then kernelMax else maxBytes
            else if ts_Encrypted stats then
              let userMax = dataSessionUserspaceEncryptedBatchBytes env in
              if maxBytes > userMax \<and> userMax > 0 then userMax else maxBytes
            else maxBytes)
     in if ts_Datagram stats \<and> \<not> ts_FragmentingDatagram stats \<and> ts_MaxPacketSize stats > 0 then
          let maxPacket = sint (ts_MaxPacketSize stats) in
          if maxPacket > 0 \<and> maxBytes > maxPacket then maxPacket else maxBytes
        else maxBytes)"






section \<open>Sessions and runtimes\<close>

record 's wire =
  w_send :: "'s \<Rightarrow> bytes \<Rightarrow> 's \<times> string option"
  w_batch :: "('s \<Rightarrow> bytes list \<Rightarrow> 's \<times> string option) option"

record dataSessionBatch =
  db_payload :: bytes
  db_count :: nat
  db_firstSeen :: int
  db_lastError :: "string option"
  db_lastFailed :: bool

record batch_stats =
  bs_queuedPackets :: u64
  bs_queuedBytes :: u64
  bs_directPackets :: u64
  bs_directBytes :: u64
  bs_flushes :: u64
  bs_flushPackets :: u64
  bs_flushBytes :: u64
  bs_flushMaxPackets :: u64
  bs_flushMaxBytes :: u64
  bs_rxFrames :: u64
  bs_rxPackets :: u64
  bs_rxBytes :: u64
  bs_rxMaxPackets :: u64
  bs_rxMaxBytes :: u64
  bs_heartbeatReceived :: u64

record dataSessionRuntime =
  rt_batching :: dataSessionBatchConfig
  rt_batch :: dataSessionBatch
  rt_controlOnly :: bool
  rt_receiveData :: bool
  rt_notified :: bool
  rt_dropped :: bool
  rt_lastTX :: int
  rt_lastRX :: int
  rt_lastPong :: int
  rt_pongNonce :: u64
  rt_stats :: batch_stats


section \<open>Counters\<close>

definition observeAtomicUint64Max :: "u64 \<Rightarrow> u64 \<Rightarrow> u64" where
  "observeAtomicUint64Max counter v = (if v \<le> counter then counter else v)"



definition recordDataSessionBatchFlush :: "bytes \<Rightarrow> batch_stats \<Rightarrow> batch_stats" where
  "recordDataSessionBatchFlush payload st =
    (let count = dataSessionBatchPayloadCount payload in
     if count = 0 then st
     else
       let n = word_of_nat (length payload); packets = word_of_nat count in
       st \<lparr> bs_flushes := bs_flushes st + 1, bs_flushPackets := bs_flushPackets st + packets,
            bs_flushBytes := bs_flushBytes st + n,
            bs_flushMaxPackets := observeAtomicUint64Max (bs_flushMaxPackets st) packets,
            bs_flushMaxBytes := observeAtomicUint64Max (bs_flushMaxBytes st) n \<rparr>)"



section \<open>Sending\<close>

definition sendDataSessionWirePacket ::
  "'s wire \<Rightarrow> int \<Rightarrow> bytes \<Rightarrow> dataSessionRuntime \<times> 's \<Rightarrow> (dataSessionRuntime \<times> 's) \<times> string option" where
  "sendDataSessionWirePacket W now packet rs =
    (case rs of (rt, s) \<Rightarrow>
      (case w_send W s packet of
         (s, Some err) \<Rightarrow> ((rt, s), Some err)
       | (s, None) \<Rightarrow> ((rt \<lparr> rt_lastTX := now \<rparr>, s), None)))"



definition rememberDataSessionBatchError :: "string \<Rightarrow> dataSessionRuntime \<Rightarrow> dataSessionRuntime" where
  "rememberDataSessionBatchError err rt =
    rt \<lparr> rt_batch := (rt_batch rt) \<lparr> db_lastFailed := True, db_lastError := Some err \<rparr> \<rparr>"


section \<open>Batching\<close>


definition takeDataSessionBatchPayloadLocked :: "dataSessionBatch \<Rightarrow> dataSessionBatch \<times> bytes" where
  "takeDataSessionBatchPayloadLocked b =
    (if db_count b = 0 then (b, [])
     else
       let payload = db_payload b;
           payload = (if length payload \<ge> 8 then PutUint16 6 (word_of_nat (db_count b)) payload else payload)
       in (b \<lparr> db_payload := [], db_count := 0, db_firstSeen := 0 \<rparr>, payload))"







definition flushDataSessionBatch ::
  "'s wire \<Rightarrow> int \<Rightarrow> dataSessionRuntime \<times> 's \<Rightarrow> (dataSessionRuntime \<times> 's) \<times> string option" where
  "flushDataSessionBatch W now rs =
    (case rs of (rt, s) \<Rightarrow>
      if db_lastFailed (rt_batch rt) then
        (rs, Some (case db_lastError (rt_batch rt) of Some err \<Rightarrow> err | None \<Rightarrow> ''data session batch send failed''))
      else if db_count (rt_batch rt) = 0 then (rs, None)
      else
        (case takeDataSessionBatchPayloadLocked (rt_batch rt) of (b, payload) \<Rightarrow>
           (case sendDataSessionWirePacket W now payload (rt \<lparr> rt_batch := b \<rparr>, s) of
              ((rt, s), Some err) \<Rightarrow> ((rememberDataSessionBatchError err rt, s), Some err)
            | ((rt, s), None) \<Rightarrow>
                ((rt \<lparr> rt_stats := recordDataSessionBatchFlush payload (rt_stats rt) \<rparr>, s), None))))"

definition batchFlushWait :: "int \<Rightarrow> int \<Rightarrow> dataSessionRuntime \<Rightarrow> (int \<times> bool)" where
  "batchFlushWait now delay rt =
    (if db_count (rt_batch rt) = 0 then (0, False)
     else if db_firstSeen (rt_batch rt) = 0 then (0, True)
     else (delay - (now - db_firstSeen (rt_batch rt)), True))"


section \<open>Receiving\<close>







section \<open>The batch in progress\<close>





lemma length_magic [simp]: "length dataSessionBatchMagic = 4" "length dataSessionControlMagic = 4" "length dataSessionSecureHandshakeMagic = 4"
  by (simp_all add: frame_consts)











section \<open>The receiver\<close>








section \<open>A session that delivers\<close>






section \<open>Properties\<close>








end
