(* ===== verification/Spec2Isabelle.thy ===== *)
theory Spec2Isabelle
  imports KernelUDP ReplayWindow TixTCP SecureHello SecureStream SecureHandshake ConfigLog Routing IPv4Packet NAT GSOStreams DataSession
begin

text \<open>
  A verification development for TrustIX.
\<close>

section \<open>Handshake and data path together\<close>

text \<open>
  C1: a handshake gives a working channel.  After an undisturbed handshake with matching
  policies, everything the client then sends successfully, packets and batches in any
  sequence, is received by the server exactly once and in order.
\<close>
theorem handshake_then_delivery:
  assumes "crypto_laws c" and "length rC = 32" and "length rS = 32" and "matching_policy iC oC iS oS"
    and "Client c xC eC iC dC kC rC tC oC (Inr sh # inC) = ([ch], HsSession sC)"
    and "Server c xS eS iS dS kS rS tS oS (Some ch # inS) = ([sh], HsSession sS)"
    and "length (concat (map sent_by ops)) < 2 ^ 64"
    and "send_run env ops sC = (sC', rs)" and "list_all (\<lambda>r. r = None) rs"
  shows "\<exists>sS'. recvMany env' (Suc (length (concat (map sent_by ops)))) sS (map Some (ss_sent sC')) =
    (sS', [], map Received (concat (map sent_by ops)) @ [Waiting])"
proof -
  obtain a where "paired a sC sS" "fresh_session sC" "fresh_session sS"
    using handshake_sessions [OF assms(1-6)] by blast
  then show ?thesis
    using stream_delivers [of a sC sS 65536 ops env sC' rs env'] assms(7-9) by (simp add: fresh_session_def)
qed

theorem handshake_then_delivery_witness:
  "\<exists>ch sh sC sS sC' sS'.
     Client toy_crypto toy_x509 toy_env toy_caps True [1] (replicate 32 3) None toy_options [Inr sh] = ([ch], HsSession sC) \<and>
     Server toy_crypto toy_x509 toy_env toy_caps True [2] (replicate 32 4) None toy_options [Some ch] = ([sh], HsSession sS) \<and>
     send_run toy_env [SendOne [5, 6]] sC = (sC', [None]) \<and>
     recvMany toy_env 2 sS (map Some (ss_sent sC')) = (sS', [], [Received [5, 6], Waiting])"
proof -
  obtain ch sh sC sS where run:
    "Client toy_crypto toy_x509 toy_env toy_caps True [1] (replicate 32 3) None toy_options [Inr sh] = ([ch], HsSession sC)"
    "Server toy_crypto toy_x509 toy_env toy_caps True [2] (replicate 32 4) None toy_options [Some ch] = ([sh], HsSession sS)"
    by (rule toy_handshake)
  obtain a where "sealing a sC" "ss_sendSeq sC = 0"
    using handshake_sessions [OF toy_crypto_laws toy_randoms toy_matching run] by (auto simp: paired_def fresh_session_def)
  moreover have "ie_send toy_env p" for p by (simp add: toy_env_def)
  ultimately obtain t where "session_SendPacket toy_env sC [5, 6] = (t, None)"
    using send_first_record by blast
  then have s: "send_run toy_env [SendOne [5, 6]] sC = (t, [None])" by simp
  then have "\<exists>sS'. recvMany toy_env (Suc (length (concat (map sent_by [SendOne [5, 6]])))) sS (map Some (ss_sent t)) =
      (sS', [], map Received (concat (map sent_by [SendOne [5, 6]])) @ [Waiting])"
    by (intro handshake_then_delivery [OF toy_crypto_laws toy_randoms toy_matching run _ s]) simp_all
  moreover have "Suc (length (concat (map sent_by [SendOne [5, 6]]))) = 2" by simp
  ultimately have "\<exists>sS'. recvMany toy_env 2 sS (map Some (ss_sent t)) = (sS', [], [Received [5, 6], Waiting])"
    by (simp only: sent_by.simps list.map concat.simps append.simps)
  with run s show ?thesis by blast
qed

end
